(* ===== verification/Prelude.thy ===== *)
theory Prelude
  imports Main "HOL-Library.Word"
begin

text \<open>
  Shared ground of the development: the machine types of the C++ code, the result type in
  which undefined behaviour of the C++ abstract machine is a value, checked arithmetic, the
  little-endian byte representation of integers and the generic facts on lists and words the
  component theories use.

  A definition that can reach undefined behaviour (an access outside a vector or a buffer, a
  shift by at least the width of its operand, an overflowing signed operation) returns
  \<open>Inl\<close> with the kind of behaviour reached, and \<open>Inr\<close> of the result otherwise; \<open>OutOfRange\<close>
  and \<open>RuntimeError\<close> are the exceptions \<^verbatim>\<open>std::out_of_range\<close> and \<^verbatim>\<open>std::runtime_error\<close>;
  \<open>Unmodelled\<close> marks the reads of memory that was never written, the bytes that represent no value of their
  type, and the operations outside the model. Values of type
  \<^verbatim>\<open>size_t\<close> count bytes or elements of objects in memory and are \<open>nat\<close>; every fixed-width field
  is a word of its width. \<^verbatim>\<open>int32_t\<close> and \<^verbatim>\<open>int64_t\<close> are words read by \<open>sint\<close>.
\<close>

unbundle bit_operations_syntax

named_theorems res_simps \<open>unfolding the result type and its combinators\<close>
named_theorems bytes_simps \<open>lengths and round trips of byte representations\<close>

type_synonym byte = "8 word"
type_synonym u32 = "32 word"
type_synonym u64 = "64 word"

section \<open>Results with undefined behaviour\<close>

datatype ub =
    OutOfBounds
  | ShiftTooWide
  | SignedOverflow
  | DivByZero
  | EmptyStack
  | NullDeref
  | OutOfRange
  | RuntimeError
  | Unmodelled

type_synonym 'a res = "ub + 'a"

fun bind_res :: "'a res \<Rightarrow> ('a \<Rightarrow> 'b res) \<Rightarrow> 'b res" where
  "bind_res (Inl e) f = Inl e"
| "bind_res (Inr x) f = f x"

fun fold_res :: "('x \<Rightarrow> 's \<Rightarrow> 's res) \<Rightarrow> 'x list \<Rightarrow> 's \<Rightarrow> 's res" where
  "fold_res f [] s = Inr s"
| "fold_res f (x # xs) s = bind_res (f x s) (fold_res f xs)"

fun map_res :: "('x \<Rightarrow> 'y res) \<Rightarrow> 'x list \<Rightarrow> 'y list res" where
  "map_res f [] = Inr []"
| "map_res f (x # xs) = bind_res (f x) (\<lambda>y. bind_res (map_res f xs) (\<lambda>ys. Inr (y # ys)))"

definition nth_res :: "'a list \<Rightarrow> nat \<Rightarrow> 'a res" where
  "nth_res xs i = (if i < length xs then Inr (xs ! i) else Inl OutOfBounds)"

definition upd_res :: "'a list \<Rightarrow> nat \<Rightarrow> ('a \<Rightarrow> 'a) \<Rightarrow> 'a list res" where
  "upd_res xs i f = (if i < length xs then Inr (xs[i := f (xs ! i)]) else Inl OutOfBounds)"

section \<open>Checked machine arithmetic\<close>

definition in_srange :: "'a::len itself \<Rightarrow> int \<Rightarrow> bool" where
  "in_srange T k \<longleftrightarrow> - (2 ^ (LENGTH('a) - 1)) \<le> k \<and> k < 2 ^ (LENGTH('a) - 1)"

definition ssub_res :: "'a::len word \<Rightarrow> 'a word \<Rightarrow> 'a word res" where
  "ssub_res a b =
     (if in_srange TYPE('a) (sint a - sint b) then Inr (a - b) else Inl SignedOverflow)"

definition sadd_res :: "'a::len word \<Rightarrow> 'a word \<Rightarrow> 'a word res" where
  "sadd_res a b =
     (if in_srange TYPE('a) (sint a + sint b) then Inr (a + b) else Inl SignedOverflow)"

definition shl_res :: "'a::len word \<Rightarrow> nat \<Rightarrow> 'a word res" where
  "shl_res x n = (if n < LENGTH('a) then Inr (push_bit n x) else Inl ShiftTooWide)"

definition shr_res :: "'a::len word \<Rightarrow> nat \<Rightarrow> 'a word res" where
  "shr_res x n = (if n < LENGTH('a) then Inr (drop_bit n x) else Inl ShiftTooWide)"

text \<open>\<^verbatim>\<open>std::min\<close> and \<^verbatim>\<open>std::max\<close> on signed integers.\<close>

definition smin :: "'a::len word \<Rightarrow> 'a word \<Rightarrow> 'a word" where
  "smin a b = (if b <s a then b else a)"

definition smax :: "'a::len word \<Rightarrow> 'a word \<Rightarrow> 'a word" where
  "smax a b = (if a <s b then b else a)"

section \<open>Little-endian bytes\<close>

abbreviation sizeof :: "'a::len itself \<Rightarrow> nat" where
  "sizeof T \<equiv> LENGTH('a) div 8"

definition bytes_of :: "'a::len word \<Rightarrow> byte list" where
  "bytes_of w = map (\<lambda>i. ucast (drop_bit (8 * i) w)) [0..<LENGTH('a) div 8]"

fun word_of_bytes :: "byte list \<Rightarrow> 'a::len word" where
  "word_of_bytes [] = 0"
| "word_of_bytes (b # bs) = ucast b OR push_bit 8 (word_of_bytes bs)"

text \<open>\<^verbatim>\<open>memcpy(&x, src + off, sizeof x)\<close> out of a byte buffer.\<close>

definition read_word :: "byte list \<Rightarrow> nat \<Rightarrow> 'a::len word res" where
  "read_word bs off =
     (if off + LENGTH('a) div 8 \<le> length bs
      then Inr (word_of_bytes (take (LENGTH('a) div 8) (drop off bs)))
      else Inl OutOfBounds)"

text \<open>An array of integers as the bytes it occupies.\<close>

definition bytes_of_array :: "'a::len word list \<Rightarrow> byte list" where
  "bytes_of_array ws = concat (map bytes_of ws)"

text \<open>\<^verbatim>\<open>reinterpret_cast<const T*>(src + off)[i]\<close>.\<close>

definition read_elem :: "byte list \<Rightarrow> nat \<Rightarrow> nat \<Rightarrow> 'a::len word res" where
  "read_elem bs off i = read_word bs (off + i * (LENGTH('a) div 8))"

section \<open>Facts on results\<close>

declare nth_res_def [res_simps] upd_res_def [res_simps] shl_res_def [res_simps]
  shr_res_def [res_simps]

lemma bind_res_Inr_iff [res_simps]:
  "bind_res m f = Inr y \<longleftrightarrow> (\<exists>x. m = Inr x \<and> f x = Inr y)"
  by (cases m) auto

lemma bind_res_cong [fundef_cong]:
  "m = m' \<Longrightarrow> (\<And>x. m' = Inr x \<Longrightarrow> f x = f' x) \<Longrightarrow> bind_res m f = bind_res m' f'"
  by (cases m') auto

lemma bind_res_assoc: "bind_res (bind_res m f) g = bind_res m (\<lambda>x. bind_res (f x) g)"
  by (cases m) auto

lemma fold_res_append:
  "fold_res f (xs @ ys) s = bind_res (fold_res f xs s) (fold_res f ys)"
proof (induction xs arbitrary: s)
  case Nil
  then show ?case by simp
next
  case (Cons x xs)
  have "fold_res f (xs @ ys) = (\<lambda>s. bind_res (fold_res f xs s) (fold_res f ys))"
    by (rule ext) (rule Cons.IH)
  then show ?case by (simp add: bind_res_assoc)
qed

lemma map_res_append:
  "map_res f (xs @ ys) =
     bind_res (map_res f xs) (\<lambda>as. bind_res (map_res f ys) (\<lambda>bs. Inr (as @ bs)))"
proof (induction xs)
  case Nil
  then show ?case by (cases "map_res f ys") auto
next
  case (Cons x xs)
  then show ?case by (simp add: bind_res_assoc)
qed

lemma map_res_Inr: "(\<And>x. x \<in> set xs \<Longrightarrow> f x = Inr (g x)) \<Longrightarrow> map_res f xs = Inr (map g xs)"
  by (induction xs) auto

lemma map_res_upt_nth:
  assumes "\<And>i. i < length ys \<Longrightarrow> f i = Inr (ys ! i)"
  shows "map_res f [0..<length ys] = Inr ys"
  using map_res_Inr [of "[0..<length ys]" f "\<lambda>i. ys ! i"] assms by (simp add: map_nth)

section \<open>Loops over whole vectors with a scalar tail\<close>

text \<open>\<^verbatim>\<open>for (; i + w <= n; i += w) body(i); for (; i < n; ++i) tail(i);\<close> with the results collected
  in order: the shape of every vectorised loop of the code.\<close>

function block_loop ::
  "nat \<Rightarrow> (nat \<Rightarrow> 'b list res) \<Rightarrow> (nat \<Rightarrow> 'b res) \<Rightarrow> nat \<Rightarrow> nat \<Rightarrow> 'b list res" where
  "block_loop w body tail i n =
     (if 0 < w \<and> i + w \<le> n
      then bind_res (body i) (\<lambda>ys. bind_res (block_loop w body tail (i + w) n) (\<lambda>zs. Inr (ys @ zs)))
      else map_res tail [i..<n])"
  by pat_completeness auto
termination
  by (relation "measure (\<lambda>(w, body, tail, i, n). n - i)") auto

declare block_loop.simps [simp del]

lemma block_loop_scalar:
  assumes "\<And>j. i \<le> j \<Longrightarrow> j + w \<le> n \<Longrightarrow> body j = map_res tail [j..<j + w]"
  shows "block_loop w body tail i n = map_res tail [i..<n]"
  using assms
proof (induction w body tail i n rule: block_loop.induct)
  case (1 w body tail i n)
  show ?case
  proof (cases "0 < w \<and> i + w \<le> n")
    case True
    then have "[i..<n] = [i..<i + w] @ [i + w..<n]" by (metis le_add1 le_Suc_ex upt_add_eq_append)
    with 1 True show ?thesis
      by (cases "map_res tail [i..<i + w]")
        (simp_all add: block_loop.simps [of w body tail i n] map_res_append)
  next
    case False
    then show ?thesis by (auto simp: block_loop.simps [of w body tail i n])
  qed
qed

section \<open>Facts on signed values\<close>

lemma sint_in_srange [simp, intro]: "in_srange TYPE('a) (sint (w :: 'a::len word))"
  using sint_greater_eq [of w] sint_less [of w] by (simp add: in_srange_def)

lemma sint_sub_in_range:
  fixes a b :: "'a::len word"
  assumes "in_srange TYPE('a) (sint a - sint b)"
  shows "sint (a - b) = sint a - sint b"
proof -
  have "sint (a - b) = signed_take_bit (LENGTH('a) - 1) (sint a - sint b)"
    by (simp add: sint_word_ariths)
  also have "\<dots> = sint a - sint b"
    using assms by (simp add: in_srange_def signed_take_bit_int_eq_self)
  finally show ?thesis .
qed

lemma sint_add_in_range:
  fixes a b :: "'a::len word"
  assumes "in_srange TYPE('a) (sint a + sint b)"
  shows "sint (a + b) = sint a + sint b"
proof -
  have "sint (a + b) = signed_take_bit (LENGTH('a) - 1) (sint a + sint b)"
    by (simp add: sint_word_ariths)
  also have "\<dots> = sint a + sint b"
    using assms by (simp add: in_srange_def signed_take_bit_int_eq_self)
  finally show ?thesis .
qed

lemma sint_scast:
  fixes w :: "'a::len word"
  assumes "LENGTH('a) \<le> LENGTH('b::len)"
  shows "sint (scast w :: 'b word) = sint w"
proof -
  have "(2 :: int) ^ (LENGTH('a) - 1) \<le> 2 ^ (LENGTH('b) - 1)"
    using assms by (intro power_increasing) simp_all
  then have "- (2 ^ (LENGTH('b) - 1)) \<le> sint w" and "sint w < 2 ^ (LENGTH('b) - 1)"
    using sint_in_srange [of w] unfolding in_srange_def by linarith+
  then show ?thesis by (simp add: signed_scast_eq signed_take_bit_int_eq_self)
qed

lemma ucast_scast:
  fixes w :: "'a::len word"
  assumes "LENGTH('a) \<le> LENGTH('b::len)"
  shows "ucast (scast w :: 'b word) = w"
proof (rule bit_word_eqI)
  fix n assume n: "n < LENGTH('a)"
  then have "min (LENGTH('a) - Suc 0) n = n" by auto
  then show "bit (ucast (scast w :: 'b word) :: 'a word) n = bit w n"
    using assms n by (simp add: bit_unsigned_iff bit_signed_iff)
qed

lemma unat_ucast_up:
  fixes w :: "'a::len word"
  assumes "LENGTH('a) \<le> LENGTH('b::len)"
  shows "unat (ucast w :: 'b word) = unat w"
proof -
  have "unat w < 2 ^ LENGTH('a)" by (rule unsigned_less)
  also have "(2 :: nat) ^ LENGTH('a) \<le> 2 ^ LENGTH('b)" using assms by simp
  finally show ?thesis by (simp add: unsigned_ucast_eq take_bit_nat_eq_self)
qed

lemma ucast_ucast_up:
  fixes w :: "'a::len word"
  assumes "LENGTH('a) \<le> LENGTH('b::len)"
  shows "ucast (ucast w :: 'b word) = w"
  by (rule bit_word_eqI) (use assms in \<open>simp add: bit_unsigned_iff\<close>)

lemma scast_nonneg:
  fixes w :: "'a::len word"
  assumes "0 \<le> sint w"
  shows "scast w = (ucast w :: 'b::len word)"
proof -
  have "(2 :: int) ^ (LENGTH('a) - 1) \<le> 2 ^ LENGTH('a)" by (intro power_increasing) simp_all
  then have "sint w < 2 ^ LENGTH('a)"
    using sint_in_srange [of w] unfolding in_srange_def by linarith
  then have "uint w = sint w" using assms by (simp add: uint_sint take_bit_int_eq_self)
  then show ?thesis by (simp only: scast_eq ucast_eq)
qed

lemma unat_two_power: "b < LENGTH('u) \<Longrightarrow> unat (2 ^ b :: 'u::len word) = 2 ^ b"
  using unat_of_nat [of "2 ^ b", where 'a = 'u] by simp

lemma uint_less_unat:
  assumes "uint (w :: 'a::len word) < 2 ^ b"
  shows "unat w < 2 ^ b"
proof -
  have "int (unat w) < int (2 ^ b)" using assms by simp
  then show ?thesis by (simp only: of_nat_less_iff)
qed

lemma sint_inj: "sint a = sint b \<longleftrightarrow> a = b" for a b :: "'a::len word"
proof
  assume "sint a = sint b"
  then have "(of_int (sint a) :: 'a word) = of_int (sint b)" by (rule arg_cong)
  then show "a = b" by simp
qed simp

lemma sless_sint: "a <s b \<longleftrightarrow> sint a < sint b"
  by (rule word_sless_alt)

lemma sle_sint: "a \<le>s b \<longleftrightarrow> sint a \<le> sint b"
  by (rule word_sle_eq)

lemma sint_smin: "sint (smin a b) = min (sint a) (sint b)"
  by (simp add: smin_def sless_sint min_def)

lemma sint_smax: "sint (smax a b) = max (sint a) (sint b)"
  by (simp add: smax_def sless_sint max_def)

section \<open>Facts on rounding up\<close>

lemma le_ceil_times: "0 < (d :: nat) \<Longrightarrow> n \<le> (n + d - 1) div d * d"
proof -
  assume d: "0 < d"
  have "n + d - 1 = (n + d - 1) div d * d + (n + d - 1) mod d" by simp
  moreover have "(n + d - 1) mod d < d" using d by simp
  ultimately show ?thesis by linarith
qed

lemma less_ceil: "0 < (d :: nat) \<Longrightarrow> i < n \<Longrightarrow> i div d < (n + d - 1) div d"
  using le_ceil_times [of d n] by (simp add: less_mult_imp_div_less)

section \<open>Facts on byte representations\<close>

lemma length_bytes_of [simp, bytes_simps]: "length (bytes_of (w :: 'a::len word)) = sizeof TYPE('a)"
  by (simp add: bytes_of_def)

lemma bytes_of_nth:
  "i < sizeof TYPE('a) \<Longrightarrow> bytes_of (w :: 'a::len word) ! i = ucast (drop_bit (8 * i) w)"
  by (simp add: bytes_of_def)

lemma bit_word_of_bytes:
  "bit (word_of_bytes bs :: 'a::len word) n \<longleftrightarrow>
     n < LENGTH('a) \<and> n div 8 < length bs \<and> bit (bs ! (n div 8)) (n mod 8)"
proof (induction bs arbitrary: n)
  case Nil
  then show ?case by simp
next
  case (Cons b bs)
  show ?case
  proof (cases "n < 8")
    case True
    then show ?thesis
      by (auto simp: bit_or_iff bit_push_bit_iff bit_unsigned_iff possible_bit_word)
  next
    case False
    then obtain m where n: "n = m + 8" by (metis add.commute le_Suc_ex not_less)
    have d: "(m + 8) div 8 = Suc (m div 8)" by simp
    have "\<not> bit b n" using False by (auto dest: bit_imp_le_length)
    then show ?thesis
      by (auto simp: n d bit_or_iff bit_push_bit_iff bit_unsigned_iff possible_bit_word Cons)
  qed
qed

lemma word_of_bytes_of [simp, bytes_simps]:
  assumes "8 dvd LENGTH('a::len)"
  shows "word_of_bytes (bytes_of (w :: 'a word)) = w"
proof (rule bit_word_eqI)
  fix n assume n: "n < LENGTH('a)"
  obtain k where k: "LENGTH('a) = 8 * k" using assms by blast
  have "n div 8 < k" using n k by linarith
  then show "bit (word_of_bytes (bytes_of w) :: 'a word) n = bit w n"
    using n k by (simp add: bit_word_of_bytes bytes_of_nth bit_unsigned_iff bit_drop_bit_eq
        possible_bit_word)
qed

lemma length_bytes_of_array [simp, bytes_simps]:
  "length (bytes_of_array (ws :: 'a::len word list)) = length ws * sizeof TYPE('a)"
  by (induction ws) (simp_all add: bytes_of_array_def)

lemma bytes_of_array_Nil [simp]: "bytes_of_array [] = []"
  and bytes_of_array_Cons [simp]: "bytes_of_array (w # ws) = bytes_of w @ bytes_of_array ws"
  and bytes_of_array_append [simp]:
    "bytes_of_array (ws @ vs) = bytes_of_array ws @ bytes_of_array vs"
  by (simp_all add: bytes_of_array_def)

lemma take_drop_bytes_of_array:
  fixes ws :: "'a::len word list"
  assumes "i < length ws"
  shows "take (sizeof TYPE('a)) (drop (i * sizeof TYPE('a)) (bytes_of_array ws)) =
    bytes_of (ws ! i)"
  using assms
proof (induction ws arbitrary: i)
  case Nil
  then show ?case by simp
next
  case (Cons w ws)
  then show ?case by (cases i) simp_all
qed

text \<open>Reading back what was appended: a word, and an element of an array.\<close>

lemma read_word_append [simp, bytes_simps]:
  fixes w :: "'a::len word"
  assumes "8 dvd LENGTH('a)" and "length pre = off"
  shows "read_word (pre @ bytes_of w @ rest) off = Inr w"
  using assms by (simp add: read_word_def)

lemma read_elem_append [bytes_simps]:
  fixes ws :: "'a::len word list"
  assumes "8 dvd LENGTH('a)" and "length pre = off" and "i < length ws"
  shows "read_elem (pre @ bytes_of_array ws @ rest) off i = Inr (ws ! i)"
proof -
  have "(i + 1) * sizeof TYPE('a) \<le> length ws * sizeof TYPE('a)"
    using assms(3) by (intro mult_le_mono1) simp
  then show ?thesis
    using assms by (simp add: read_elem_def read_word_def take_drop_bytes_of_array flip: drop_drop)
qed

text \<open>Reading past a prefix, for images put together from many fields.\<close>

lemma read_word_skip: "length pre \<le> off \<Longrightarrow> read_word (pre @ rest) off = read_word rest (off - length pre)"
  by (auto simp: read_word_def)

lemma read_word_skip_Cons: "0 < off \<Longrightarrow> read_word (b # rest) off = read_word rest (off - 1)"
  using read_word_skip [of "[b]" off rest] by simp

lemma read_word_here:
  "8 dvd LENGTH('a) \<Longrightarrow> read_word (bytes_of w @ rest) 0 = Inr (w :: 'a::len word)"
  "8 dvd LENGTH('a) \<Longrightarrow> read_word (bytes_of w) 0 = Inr (w :: 'a::len word)"
  using read_word_append [of "[]" 0 w rest] read_word_append [of "[]" 0 w "[]"] by simp_all

lemma nth_res_skip: "length pre \<le> i \<Longrightarrow> nth_res (pre @ rest) i = nth_res rest (i - length pre)"
  by (auto simp: nth_res_def nth_append)

lemma nth_res_skip_Cons: "0 < i \<Longrightarrow> nth_res (b # rest) i = nth_res rest (i - 1)"
  by (cases i) (simp_all add: nth_res_def)

lemma nth_res_here: "nth_res (b # rest) 0 = Inr b"
  by (simp add: nth_res_def)

lemmas image_reads = read_word_skip read_word_skip_Cons read_word_here nth_res_skip nth_res_skip_Cons nth_res_here

end
