(* ===== verification/ByteBuffer.thy ===== *)
theory ByteBuffer
  imports Prelude
begin

text \<open>
  \<^verbatim>\<open>encoding::Buffer\<close> (\<^verbatim>\<open>include/columnar/encoding/encoding.h\<close>): a growing byte vector with a
  size of its own. The locale \<open>byte_sink\<close> is the contract every encoder relies on (appending
  adds bytes at the end and keeps the invariant); it is interpreted on the model below, and
  \<open>codec\<close> is the contract of an encoder and decoder pair.
\<close>

section \<open>The buffer\<close>

record Buffer =
  buf_data :: "byte list"
  buf_size :: nat

definition Buffer_empty :: Buffer where
  "Buffer_empty = \<lparr>buf_data = [], buf_size = 0\<rparr>"

definition Buffer_with_capacity :: "nat \<Rightarrow> Buffer" where
  "Buffer_with_capacity capacity = \<lparr>buf_data = replicate capacity 0, buf_size = 0\<rparr>"

definition Buffer_of :: "byte list \<Rightarrow> Buffer" where
  "Buffer_of bs = \<lparr>buf_data = bs, buf_size = length bs\<rparr>"

text \<open>\<^verbatim>\<open>std::vector::resize\<close>: cut off or filled up with value-initialised elements.\<close>

definition resize :: "'a \<Rightarrow> nat \<Rightarrow> 'a list \<Rightarrow> 'a list" where
  "resize z n xs = take n xs @ replicate (n - length xs) z"

text \<open>\<^verbatim>\<open>memcpy(data + off, src, n)\<close> into a vector long enough to hold it.\<close>

definition blit :: "'a list \<Rightarrow> nat \<Rightarrow> 'a list \<Rightarrow> 'a list" where
  "blit xs off src = take off xs @ src @ drop (off + length src) xs"

definition Buffer_Reserve :: "nat \<Rightarrow> Buffer \<Rightarrow> Buffer" where
  "Buffer_Reserve capacity b = b"

definition Buffer_Resize :: "nat \<Rightarrow> Buffer \<Rightarrow> Buffer" where
  "Buffer_Resize n b = b\<lparr>buf_size := n, buf_data := resize 0 n (buf_data b)\<rparr>"

definition Buffer_Append :: "byte list \<Rightarrow> Buffer \<Rightarrow> Buffer" where
  "Buffer_Append src b =
     (let old = buf_size b; n = old + length src; d = resize 0 n (buf_data b)
      in b\<lparr>buf_size := n, buf_data := blit d old src\<rparr>)"

definition Buffer_AppendValue :: "'a::len word \<Rightarrow> Buffer \<Rightarrow> Buffer" where
  "Buffer_AppendValue v b = Buffer_Append (bytes_of v) b"

definition Buffer_AppendArray :: "'a::len word list \<Rightarrow> Buffer \<Rightarrow> Buffer" where
  "Buffer_AppendArray vs b = Buffer_Append (bytes_of_array vs) b"

text \<open>\<^verbatim>\<open>Append(const void*, size_t)\<close> on an array of wider elements copies that many bytes.\<close>

definition Buffer_AppendRaw :: "'a::len word list \<Rightarrow> nat \<Rightarrow> Buffer \<Rightarrow> Buffer" where
  "Buffer_AppendRaw vs n b = Buffer_Append (take n (bytes_of_array vs)) b"

text \<open>The overloads for bytes and characters.\<close>

definition Buffer_AppendBytes :: "byte list \<Rightarrow> nat \<Rightarrow> Buffer \<Rightarrow> Buffer" where
  "Buffer_AppendBytes data count b = Buffer_Append (take (count * 1) data) b"

definition Buffer_AppendChars :: "byte list \<Rightarrow> nat \<Rightarrow> Buffer \<Rightarrow> Buffer" where
  "Buffer_AppendChars data count b = Buffer_Append (take (count * 1) data) b"

definition Buffer_Size :: "Buffer \<Rightarrow> nat" where
  "Buffer_Size b = buf_size b"

definition Buffer_Capacity :: "Buffer \<Rightarrow> nat" where
  "Buffer_Capacity b = length (buf_data b)"

definition Buffer_Clear :: "Buffer \<Rightarrow> Buffer" where
  "Buffer_Clear b = b\<lparr>buf_size := 0\<rparr>"

text \<open>The invariant, and the bytes a reader of \<^verbatim>\<open>Data()\<close> and \<^verbatim>\<open>Size()\<close> sees.\<close>

definition Buffer_inv :: "Buffer \<Rightarrow> bool" where
  "Buffer_inv b \<longleftrightarrow> buf_size b \<le> length (buf_data b)"

definition contents :: "Buffer \<Rightarrow> byte list" where
  "contents b = take (buf_size b) (buf_data b)"

section \<open>The contract of a byte sink\<close>

locale byte_sink =
  fixes empty :: 'b
    and append :: "byte list \<Rightarrow> 'b \<Rightarrow> 'b"
    and clear :: "'b \<Rightarrow> 'b"
    and bytes :: "'b \<Rightarrow> byte list"
    and inv :: "'b \<Rightarrow> bool"
  assumes bytes_empty: "bytes empty = []"
    and bytes_append: "inv b \<Longrightarrow> bytes (append bs b) = bytes b @ bs"
    and bytes_clear: "inv b \<Longrightarrow> bytes (clear b) = []"
    and inv_empty: "inv empty"
    and inv_append: "inv b \<Longrightarrow> inv (append bs b)"
    and inv_clear: "inv b \<Longrightarrow> inv (clear b)"
begin

lemma fold_append:
  "inv b \<Longrightarrow> inv (fold append bss b) \<and> bytes (fold append bss b) = bytes b @ concat bss"
  by (induction bss arbitrary: b) (simp_all add: inv_append bytes_append)

lemma reuse_after_clear: "inv b \<Longrightarrow> bytes (append bs (clear b)) = bs"
  by (simp add: inv_clear bytes_append bytes_clear)

end

section \<open>The contract of an encoder and decoder pair\<close>

text \<open>
  \<open>Encode xs\<close> appends \<open>image xs\<close> to a buffer; \<open>Decode\<close> on these bytes overwrites a destination
  array of the right length with \<open>xs\<close>. \<open>encodable\<close> is the domain on which the pair keeps this.
\<close>

locale codec =
  fixes Encode :: "'v list \<Rightarrow> Buffer \<Rightarrow> Buffer res"
    and Decode :: "byte list \<Rightarrow> 'v list \<Rightarrow> 'v list res"
    and encodable :: "'v list \<Rightarrow> bool"
    and image :: "'v list \<Rightarrow> byte list"
  assumes encode_appends: "encodable xs \<Longrightarrow> Buffer_inv b \<Longrightarrow>
      \<exists>b'. Encode xs b = Inr b' \<and> Buffer_inv b' \<and> contents b' = contents b @ image xs"
    and decode_image: "encodable xs \<Longrightarrow> length dst = length xs \<Longrightarrow> Decode (image xs) dst = Inr xs"
begin

lemma round_trip:
  assumes "encodable xs" and "Buffer_inv b" and "contents b = []" and "length dst = length xs"
  shows "\<exists>b'. Encode xs b = Inr b' \<and> Decode (contents b') dst = Inr xs"
  using encode_appends [OF assms(1,2)] decode_image [OF assms(1,4)] assms(3) by auto

lemma image_inj:
  assumes "encodable xs" and "encodable ys" and "length xs = length ys" and "image xs = image ys"
  shows "xs = ys"
proof -
  have "Inr xs = Decode (image xs) xs"
    using decode_image [OF assms(1) refl] by (rule sym)
  also have "\<dots> = Inr ys"
    unfolding assms(4) using assms(3) by (rule decode_image [OF assms(2)])
  finally show ?thesis by simp
qed

end

section \<open>Facts\<close>

lemma length_resize [simp]: "length (resize z n xs) = n"
  by (simp add: resize_def)

lemma take_resize [simp]: "m \<le> n \<Longrightarrow> m \<le> length xs \<Longrightarrow> take m (resize z n xs) = take m xs"
  by (simp add: resize_def min_absorb1)

lemma contents_Append [simp]:
  "Buffer_inv b \<Longrightarrow> contents (Buffer_Append bs b) = contents b @ bs"
  by (simp add: contents_def Buffer_Append_def Buffer_inv_def blit_def Let_def)

lemma inv_Append [simp]: "Buffer_inv b \<Longrightarrow> Buffer_inv (Buffer_Append bs b)"
  by (simp add: Buffer_Append_def Buffer_inv_def blit_def Let_def)

lemma contents_empty [simp]: "contents Buffer_empty = []"
  and inv_empty_buffer [simp]: "Buffer_inv Buffer_empty"
  by (simp_all add: contents_def Buffer_empty_def Buffer_inv_def)

lemma inv_Resize [simp]: "Buffer_inv (Buffer_Resize n b)"
  by (simp add: Buffer_Resize_def Buffer_inv_def)

lemma inv_with_capacity [simp]: "Buffer_inv (Buffer_with_capacity n)"
  and contents_with_capacity [simp]: "contents (Buffer_with_capacity n) = []"
  by (simp_all add: Buffer_with_capacity_def Buffer_inv_def contents_def)

lemma contents_Clear [simp]: "contents (Buffer_Clear b) = []"
  and inv_Clear [simp]: "Buffer_inv b \<Longrightarrow> Buffer_inv (Buffer_Clear b)"
  by (simp_all add: contents_def Buffer_Clear_def Buffer_inv_def)

lemma size_contents [simp]: "Buffer_inv b \<Longrightarrow> length (contents b) = Buffer_Size b"
  by (simp add: contents_def Buffer_inv_def Buffer_Size_def)

lemma contents_AppendValue [simp]:
  "Buffer_inv b \<Longrightarrow> contents (Buffer_AppendValue v b) = contents b @ bytes_of v"
  and inv_AppendValue [simp]: "Buffer_inv b \<Longrightarrow> Buffer_inv (Buffer_AppendValue v b)"
  by (simp_all add: Buffer_AppendValue_def)

lemma contents_AppendArray [simp]:
  "Buffer_inv b \<Longrightarrow> contents (Buffer_AppendArray vs b) = contents b @ bytes_of_array vs"
  and inv_AppendArray [simp]: "Buffer_inv b \<Longrightarrow> Buffer_inv (Buffer_AppendArray vs b)"
  by (simp_all add: Buffer_AppendArray_def)

lemma contents_AppendRaw [simp]:
  "Buffer_inv b \<Longrightarrow> contents (Buffer_AppendRaw vs n b) = contents b @ take n (bytes_of_array vs)"
  and inv_AppendRaw [simp]: "Buffer_inv b \<Longrightarrow> Buffer_inv (Buffer_AppendRaw vs n b)"
  by (simp_all add: Buffer_AppendRaw_def)

interpretation buf: byte_sink Buffer_empty Buffer_Append Buffer_Clear contents Buffer_inv
  by unfold_locales simp_all

end
