(* ===== verification/BitPacking.thy ===== *)
theory BitPacking
  imports ByteBuffer
begin

text \<open>
  Bit-packed arrays: the store and load steps the packing codecs share, the loops that compute
  a bit width, and the abstract view in which a packed array is a set of numbered bits and
  values occupy disjoint slots of it. The locale \<open>slot_layout\<close> states what a placement of slots
  has to provide; it is interpreted for the contiguous placement of the bit-packing codecs and
  for the word-aligned placement of the frame-of-reference codec.
\<close>

section \<open>Width of a range\<close>

text \<open>\<^verbatim>\<open>while ((1ULL << bits) <= range) ++bits;\<close>\<close>

function bits_loop :: "'u::len word \<Rightarrow> nat \<Rightarrow> nat res" where
  "bits_loop rng b =
     bind_res (shl_res (1 :: 'u word) b) (\<lambda>s. if s \<le> rng then bits_loop rng (Suc b) else Inr b)"
  by pat_completeness auto
termination
  by (relation "measure (\<lambda>(rng, b). size rng - b)")
    (auto simp: shl_res_def word_size split: if_splits)

text \<open>\<^verbatim>\<open>while ((UnsignedType(1) << bits) <= range && bits < 64) ++bits;\<close>\<close>

function bits_loop_guarded :: "'u::len word \<Rightarrow> nat \<Rightarrow> nat res" where
  "bits_loop_guarded rng b =
     bind_res (shl_res (1 :: 'u word) b)
       (\<lambda>s. if s \<le> rng \<and> b < 64 then bits_loop_guarded rng (Suc b) else Inr b)"
  by pat_completeness auto
termination
  by (relation "measure (\<lambda>(rng, b). size rng - b)")
    (auto simp: shl_res_def word_size split: if_splits)

declare bits_loop.simps [simp del] bits_loop_guarded.simps [simp del]

section \<open>Extremes of a column\<close>

definition min_of :: "'a::len word \<Rightarrow> 'a word list \<Rightarrow> 'a word" where
  "min_of x0 xs = fold (\<lambda>x m. smin m x) xs x0"

definition max_of :: "'a::len word \<Rightarrow> 'a word list \<Rightarrow> 'a word" where
  "max_of x0 xs = fold (\<lambda>x m. smax m x) xs x0"

section \<open>Storing and loading one value\<close>

text \<open>\<open>packed[word] |= value << offset\<close>, and the bits that spill over into the next word. The
  shifts are made at the width of the value's type, the result is widened to the word type.\<close>

definition pack_store ::
  "nat \<Rightarrow> nat \<Rightarrow> 'v::len word \<Rightarrow> 'u::len word list \<Rightarrow> 'u word list res" where
  "pack_store bits bit_pos value packed =
     (let wd = bit_pos div LENGTH('u); offset = bit_pos mod LENGTH('u)
      in if offset + bits \<le> LENGTH('u)
         then bind_res (shl_res value offset) (\<lambda>lo. upd_res packed wd (\<lambda>w. w OR ucast lo))
         else bind_res (shl_res value offset) (\<lambda>lo.
              bind_res (upd_res packed wd (\<lambda>w. w OR ucast lo)) (\<lambda>packed.
              bind_res (shr_res value (LENGTH('u) - offset)) (\<lambda>hi.
                upd_res packed (wd + 1) (\<lambda>w. w OR ucast hi)))))"

text \<open>\<open>(packed[word] >> offset) & mask\<close>, or the same over two words; \<open>rd\<close> reads a word of the
  array (out of a vector or out of a byte buffer).\<close>

definition pack_load ::
  "nat \<Rightarrow> u64 \<Rightarrow> (nat \<Rightarrow> 'u::len word res) \<Rightarrow> nat \<Rightarrow> u64 res" where
  "pack_load bits msk rd bit_pos =
     (let wd = bit_pos div LENGTH('u); offset = bit_pos mod LENGTH('u)
      in if offset + bits \<le> LENGTH('u)
         then bind_res (rd wd) (\<lambda>w. Inr (ucast (drop_bit offset w) AND msk))
         else bind_res (rd wd) (\<lambda>w.
              bind_res (rd (wd + 1)) (\<lambda>w2.
              bind_res (shl_res (ucast w2 :: u64) (LENGTH('u) - offset)) (\<lambda>hi.
                Inr ((ucast (drop_bit offset w) OR hi) AND msk)))))"

section \<open>Packed arrays as numbered bits\<close>

definition pbit :: "'u::len word list \<Rightarrow> nat \<Rightarrow> bool" where
  "pbit ws k \<longleftrightarrow> k div LENGTH('u) < length ws \<and> bit (ws ! (k div LENGTH('u))) (k mod LENGTH('u))"

text \<open>Bit \<open>k\<close> of an array in which value \<open>i\<close> occupies \<open>bits\<close> bits from position \<open>pos i\<close> on.\<close>

definition slot_bit :: "nat \<Rightarrow> (nat \<Rightarrow> nat) \<Rightarrow> 'v::len word list \<Rightarrow> nat \<Rightarrow> bool" where
  "slot_bit bits pos vs k \<longleftrightarrow>
     (\<exists>i<length vs. pos i \<le> k \<and> k < pos i + bits \<and> bit (vs ! i) (k - pos i))"

locale slot_layout =
  fixes bits :: nat and pos :: "nat \<Rightarrow> nat"
  assumes disjoint: "i < j \<Longrightarrow> pos i + bits \<le> pos j"
begin

lemma slots_apart:
  assumes "pos i \<le> k" "k < pos i + bits" "pos j \<le> k" "k < pos j + bits"
  shows "i = j"
  using assms disjoint [of i j] disjoint [of j i] by (cases i j rule: linorder_cases) auto

text \<open>A slot reads back the value that was put there, whatever the other slots hold.\<close>

lemma slot_bit_pos:
  assumes "i < length vs" and "j < bits"
  shows "slot_bit bits pos vs (pos i + j) \<longleftrightarrow> bit (vs ! i) j"
proof
  assume "slot_bit bits pos vs (pos i + j)"
  then obtain i' where i': "pos i' \<le> pos i + j" "pos i + j < pos i' + bits"
    and b: "bit (vs ! i') (pos i + j - pos i')"
    unfolding slot_bit_def by blast
  have "i' = i" using i' assms(2) by (intro slots_apart [of i' "pos i + j"]) auto
  with b show "bit (vs ! i) j" by simp
next
  assume "bit (vs ! i) j"
  then show "slot_bit bits pos vs (pos i + j)"
    using assms unfolding slot_bit_def by (intro exI [of _ i]) simp
qed

lemma slot_bit_snoc:
  "slot_bit bits pos (vs @ [v]) k \<longleftrightarrow>
     slot_bit bits pos vs k \<or>
     pos (length vs) \<le> k \<and> k < pos (length vs) + bits \<and> bit v (k - pos (length vs))"
proof
  assume "slot_bit bits pos (vs @ [v]) k"
  then obtain i where i: "i < length (vs @ [v])" and at: "pos i \<le> k" "k < pos i + bits"
    and b: "bit ((vs @ [v]) ! i) (k - pos i)"
    unfolding slot_bit_def by blast
  show "slot_bit bits pos vs k \<or>
     pos (length vs) \<le> k \<and> k < pos (length vs) + bits \<and> bit v (k - pos (length vs))"
  proof (cases "i = length vs")
    case True
    with at b show ?thesis by simp
  next
    case False
    with i have "i < length vs" by simp
    with at b show ?thesis by (auto simp: slot_bit_def nth_append)
  qed
next
  assume "slot_bit bits pos vs k \<or>
     pos (length vs) \<le> k \<and> k < pos (length vs) + bits \<and> bit v (k - pos (length vs))"
  then show "slot_bit bits pos (vs @ [v]) k"
    unfolding slot_bit_def by (metis length_append_singleton less_Suc_eq nth_append nth_append_length)
qed

end

definition contiguous_pos :: "nat \<Rightarrow> nat \<Rightarrow> nat" where
  "contiguous_pos bits i = i * bits"

definition aligned_pos :: "nat \<Rightarrow> nat \<Rightarrow> nat" where
  "aligned_pos bits i = i div (64 div bits) * 64 + i mod (64 div bits) * bits"

lemma contiguous_layout: "slot_layout bits (contiguous_pos bits)"
proof
  fix i j :: nat assume "i < j"
  then have "Suc i * bits \<le> j * bits" by (intro mult_le_mono1) simp
  then show "contiguous_pos bits i + bits \<le> contiguous_pos bits j"
    by (simp add: contiguous_pos_def)
qed

lemma aligned_layout: "slot_layout bits (aligned_pos bits)"
proof
  fix i j :: nat assume ij: "i < j"
  define q where "q = 64 div bits"
  have eq: "aligned_pos bits n = n div q * 64 + n mod q * bits" for n
    by (simp add: aligned_pos_def q_def)
  show "aligned_pos bits i + bits \<le> aligned_pos bits j"
  proof (cases "i div q = j div q")
    case True
    have "i mod q < j mod q"
      using ij True by (metis div_mult_mod_eq nat_add_left_cancel_less)
    then have "Suc (i mod q) * bits \<le> j mod q * bits" by (intro mult_le_mono1) simp
    then show ?thesis using True by (simp add: eq)
  next
    case False
    then have q: "0 < q" by (cases "q = 0") auto
    have lt: "i div q < j div q" using False ij div_le_mono [of i j q] by simp
    have "Suc (i mod q) * bits \<le> q * bits" using q by (intro mult_le_mono1) (simp add: Suc_leI)
    also have "\<dots> \<le> 64" by (simp add: q_def)
    finally have "i mod q * bits + bits \<le> 64" by simp
    moreover have "Suc (i div q) * 64 \<le> j div q * 64" using lt by (intro mult_le_mono1) simp
    ultimately show ?thesis by (simp add: eq)
  qed
qed

interpretation contiguous: slot_layout bits "contiguous_pos bits" for bits
  by (rule contiguous_layout)

interpretation aligned: slot_layout bits "aligned_pos bits" for bits
  by (rule aligned_layout)

section \<open>Facts on widths and extremes\<close>

lemma two_power_le:
  fixes r :: "'u::len word"
  assumes "b < LENGTH('u)"
  shows "2 ^ b \<le> r \<longleftrightarrow> 2 ^ b \<le> unat r"
  using assms by (simp add: word_le_nat_alt unat_two_power)

lemma bits_loop_spec:
  fixes r :: "'u::len word"
  shows "b < LENGTH('u) \<Longrightarrow> unat r < 2 ^ (LENGTH('u) - 1) \<Longrightarrow> b = 0 \<or> 2 ^ (b - 1) \<le> unat r \<Longrightarrow>
    \<exists>n. bits_loop r b = Inr n \<and> unat r < 2 ^ n \<and> n < LENGTH('u) \<and> (n = 0 \<or> 2 ^ (n - 1) \<le> unat r)"
proof (induction r b rule: bits_loop.induct)
  case (1 r b)
  note le = two_power_le [OF 1(2), of r]
  show ?case
  proof (cases "2 ^ b \<le> unat r")
    case True
    then have "(2 :: nat) ^ b < 2 ^ (LENGTH('u) - 1)" using 1(3) by (rule le_less_trans)
    then have "b < LENGTH('u) - 1" by (simp only: power_strict_increasing_iff one_less_numeral_iff semiring_norm)
    then have "Suc b < LENGTH('u)" by simp
    with 1(1) [of "2 ^ b"] 1(2,3) True show ?thesis
      by (simp add: bits_loop.simps [of r b] shl_res_def le)
  next
    case False
    with 1 show ?thesis by (auto simp: bits_loop.simps [of r b] shl_res_def le)
  qed
qed

text \<open>A range that needs every bit of its type makes the loop shift by the full width.\<close>

lemma bits_loop_overflow:
  fixes r :: "'u::len word"
  shows "2 ^ (LENGTH('u) - 1) \<le> unat r \<Longrightarrow> b \<le> LENGTH('u) \<Longrightarrow> bits_loop r b = Inl ShiftTooWide"
proof (induction r b rule: bits_loop.induct)
  case (1 r b)
  show ?case
  proof (cases "b < LENGTH('u)")
    case True
    have "(2 :: nat) ^ b \<le> 2 ^ (LENGTH('u) - 1)" using True by (intro power_increasing) auto
    then have "2 ^ b \<le> unat r" using 1(2) by (rule order_trans)
    then have "2 ^ b \<le> r" by (simp only: two_power_le [OF True])
    with 1 True show ?thesis by (simp add: bits_loop.simps [of r b] shl_res_def)
  next
    case False
    then show ?thesis by (simp add: bits_loop.simps [of r b] shl_res_def)
  qed
qed

lemma bits_loop_guarded_eq:
  fixes r :: "'u::len word"
  assumes "LENGTH('u) \<le> 64"
  shows "bits_loop_guarded r b = bits_loop r b"
proof (induction r b rule: bits_loop.induct)
  case (1 r b)
  then show ?case
    using assms by (cases "b < LENGTH('u)")
      (simp_all add: bits_loop.simps [of r b] bits_loop_guarded.simps [of r b] shl_res_def)
qed

lemma sint_min_of: "sint (min_of x0 xs) = Min (insert (sint x0) (sint ` set xs))"
proof (induction xs arbitrary: x0)
  case Nil
  then show ?case by (simp add: min_of_def)
next
  case (Cons x xs)
  have "sint (min_of x0 (x # xs)) = sint (min_of (smin x0 x) xs)" by (simp add: min_of_def)
  then show ?case using Cons [of "smin x0 x"] by (cases xs) (simp_all add: sint_smin ac_simps)
qed

lemma sint_max_of: "sint (max_of x0 xs) = Max (insert (sint x0) (sint ` set xs))"
proof (induction xs arbitrary: x0)
  case Nil
  then show ?case by (simp add: max_of_def)
next
  case (Cons x xs)
  have "sint (max_of x0 (x # xs)) = sint (max_of (smax x0 x) xs)" by (simp add: max_of_def)
  then show ?case using Cons [of "smax x0 x"] by (cases xs) (simp_all add: sint_smax ac_simps)
qed

lemma min_of_le: "x \<in> set (x0 # xs) \<Longrightarrow> sint (min_of x0 xs) \<le> sint x"
  unfolding sint_min_of by (rule Min_le) auto

lemma max_of_ge: "x \<in> set (x0 # xs) \<Longrightarrow> sint x \<le> sint (max_of x0 xs)"
  unfolding sint_max_of by (rule Max_ge) auto

section \<open>Facts on one store and one load\<close>

lemma pbit_or_update:
  fixes ws :: "'u::len word list"
  assumes "i < length ws"
  shows "pbit (ws[i := ws ! i OR x]) k \<longleftrightarrow>
    pbit ws k \<or> k div LENGTH('u) = i \<and> bit x (k mod LENGTH('u))"
  using assms by (auto simp: pbit_def bit_or_iff nth_list_update)

text \<open>Position \<open>k\<close> relative to position \<open>p\<close>, word by word.\<close>

lemma same_word:
  fixes W p k :: nat
  assumes "k div W = p div W"
  shows "p mod W \<le> k mod W \<longleftrightarrow> p \<le> k" and "k mod W - p mod W = k - p"
  using assms div_mult_mod_eq [of p W] div_mult_mod_eq [of k W]
  by (metis add_le_cancel_left, metis add_diff_cancel_left)

lemma next_word:
  fixes W p k :: nat
  assumes "k div W = Suc (p div W)" and "0 < W"
  shows "p \<le> k" and "W - p mod W + k mod W = k - p"
proof -
  have "k = p div W * W + W + k mod W" using div_mult_mod_eq [of k W] assms(1) by simp
  moreover have "p = p div W * W + p mod W" by simp
  moreover have "p mod W < W" using assms(2) by simp
  ultimately show "p \<le> k" and "W - p mod W + k mod W = k - p" by linarith+
qed

lemma pack_store_bits:
  fixes ws :: "'u::len word list" and v :: "'v::len word"
  assumes "LENGTH('v) = LENGTH('u)" and "0 < bits" and "bits \<le> LENGTH('u)"
    and "p + bits \<le> length ws * LENGTH('u)" and small: "\<And>j. bit v j \<Longrightarrow> j < bits"
  shows "\<exists>ws'. pack_store bits p v ws = Inr ws' \<and> length ws' = length ws \<and>
    (\<forall>k. pbit ws' k \<longleftrightarrow> pbit ws k \<or> p \<le> k \<and> bit v (k - p))"
proof -
  let ?W = "LENGTH('u)" and ?wd = "p div LENGTH('u)" and ?off = "p mod LENGTH('u)"
  have off: "?off < ?W" by simp
  have wd: "?wd < length ws"
    using assms(2,4) by (simp add: less_mult_imp_div_less)
  let ?lo = "ucast (push_bit ?off v) :: 'u word"
  have lo: "bit ?lo (k mod ?W) \<longleftrightarrow> ?off \<le> k mod ?W \<and> bit v (k mod ?W - ?off)" for k
    using assms(1) by (auto simp: bit_unsigned_iff bit_push_bit_iff)
  show ?thesis
  proof (cases "?off + bits \<le> ?W")
    case True
    have "k div ?W = ?wd" if "p \<le> k" "bit v (k - p)" for k
    proof -
      have "k < p + bits" using small [OF that(2)] that(1) by simp
      then have "k < ?wd * ?W + ?W" using True div_mult_mod_eq [of p ?W] by linarith
      then show ?thesis using that(1)
        by (metis add.commute antisym div_le_mono less_Suc_eq_le less_mult_imp_div_less mult_Suc)
    qed
    then have "pbit (ws[?wd := ws ! ?wd OR ?lo]) k \<longleftrightarrow> pbit ws k \<or> p \<le> k \<and> bit v (k - p)" for k
      by (auto simp: pbit_or_update [OF wd] lo same_word)
    then show ?thesis
      using True off wd assms(1) by (simp add: pack_store_def Let_def res_simps)
  next
    case False
    let ?hi = "ucast (drop_bit (?W - ?off) v) :: 'u word"
    have hi: "bit ?hi (k mod ?W) \<longleftrightarrow> bit v (?W - ?off + k mod ?W)" for k
      using assms(1) by (auto simp: bit_unsigned_iff bit_drop_bit_eq dest: bit_imp_le_length)
    have "Suc ?wd * ?W < length ws * ?W"
      using False assms(4) div_mult_mod_eq [of p ?W] by (simp only: mult_Suc)
    then have wd': "Suc ?wd < length ws" by (simp only: mult_less_cancel2)
    have off0: "0 < ?off" using False assms(3) by (cases "?off = 0") auto
    let ?ws1 = "ws[?wd := ws ! ?wd OR ?lo]"
    have cover: "k div ?W = ?wd \<or> k div ?W = Suc ?wd" if "p \<le> k" "bit v (k - p)" for k
    proof -
      have "k < p + ?W" using small [OF that(2)] assms(3) that(1) by simp
      then have "k < Suc (Suc ?wd) * ?W" using div_mult_mod_eq [of p ?W] off by (simp only: mult_Suc)
      then have "k div ?W < Suc (Suc ?wd)" by (rule less_mult_imp_div_less)
      moreover have "?wd \<le> k div ?W" using that(1) by (rule div_le_mono)
      ultimately show ?thesis by linarith
    qed
    have "bit ?lo (k mod ?W) \<longleftrightarrow> p \<le> k \<and> bit v (k - p)" if "k div ?W = ?wd" for k
      unfolding lo same_word [OF that] by (rule refl)
    moreover have "bit ?hi (k mod ?W) \<longleftrightarrow> p \<le> k \<and> bit v (k - p)" if "k div ?W = Suc ?wd" for k
      unfolding hi next_word(2) [OF that len_gt_0] using next_word(1) [OF that len_gt_0] by simp
    ultimately have "pbit ws k \<or> p \<le> k \<and> bit v (k - p) \<longleftrightarrow>
        (pbit ws k \<or> k div ?W = ?wd \<and> bit ?lo (k mod ?W)) \<or>
        k div ?W = Suc ?wd \<and> bit ?hi (k mod ?W)" for k
      using cover by blast
    moreover have "pbit (?ws1[Suc ?wd := ?ws1 ! Suc ?wd OR ?hi]) k \<longleftrightarrow>
        (pbit ws k \<or> k div ?W = ?wd \<and> bit ?lo (k mod ?W)) \<or>
        k div ?W = Suc ?wd \<and> bit ?hi (k mod ?W)" for k
      using wd' by (simp only: pbit_or_update [OF wd] pbit_or_update length_list_update)
    ultimately have "pbit (?ws1[Suc ?wd := ?ws1 ! Suc ?wd OR ?hi]) k \<longleftrightarrow>
        pbit ws k \<or> p \<le> k \<and> bit v (k - p)" for k
      by blast
    then show ?thesis
      using False off off0 wd wd' assms(1) by (simp add: pack_store_def Let_def res_simps)
  qed
qed

text \<open>The mask \<open>(1 << bits) - 1\<close> keeps the low bits.\<close>

lemma bit_low_mask:
  assumes "b \<le> LENGTH('u::len)"
  shows "bit (2 ^ b - 1 :: 'u word) n \<longleftrightarrow> n < b"
  using assms by (auto simp: bit_mask_iff possible_bit_word simp flip: mask_eq_exp_minus_1)

text \<open>A load reads the numbered bits of its slot.\<close>

lemma pack_load_bits:
  fixes ws :: "'u::len word list"
  assumes "LENGTH('u) \<le> 64" and "bits \<le> LENGTH('u)" and "0 < bits"
    and "p + bits \<le> length ws * LENGTH('u)"
    and rd: "\<And>i. i < length ws \<Longrightarrow> rd i = Inr (ws ! i)"
    and msk: "\<And>j. bit msk j \<longleftrightarrow> j < bits"
  shows "\<exists>v. pack_load bits msk rd p = Inr v \<and> (\<forall>j. bit v j \<longleftrightarrow> j < bits \<and> pbit ws (p + j))"
proof -
  let ?W = "LENGTH('u)" and ?wd = "p div LENGTH('u)" and ?off = "p mod LENGTH('u)"
  have off: "?off < ?W" by simp
  have wd: "?wd < length ws" using assms(3,4) by (simp add: less_mult_imp_div_less)
  have lo: "bit (ucast (drop_bit ?off (ws ! ?wd)) :: u64) j \<longleftrightarrow> bit (ws ! ?wd) (?off + j)" for j
    using assms(1) by (auto simp: bit_unsigned_iff bit_drop_bit_eq dest: bit_imp_le_length)
  have in_first: "pbit ws (p + j) \<longleftrightarrow> bit (ws ! ?wd) (?off + j)" if "?off + j < ?W" for j
  proof -
    have "p + j = ?wd * ?W + (?off + j)" by simp
    then have "(p + j) div ?W = ?wd \<and> (p + j) mod ?W = ?off + j"
      using that by (metis div_mult_self3 mod_mult_self3 div_less mod_less add_0_right len_not_eq_0)
    then show ?thesis using wd by (simp add: pbit_def)
  qed
  show ?thesis
  proof (cases "?off + bits \<le> ?W")
    case True
    then show ?thesis
      using wd by (auto simp: pack_load_def Let_def rd bit_and_iff msk lo in_first)
  next
    case False
    have "Suc ?wd * ?W < length ws * ?W"
      using False assms(4) div_mult_mod_eq [of p ?W] by (simp only: mult_Suc)
    then have wd': "Suc ?wd < length ws" by (simp only: mult_less_cancel2)
    have sh: "?W - ?off < 64" using False assms(1,2) by (cases "?off = 0") auto
    let ?hi = "push_bit (?W - ?off) (ucast (ws ! Suc ?wd)) :: u64"
    have in_second: "pbit ws (p + j) \<longleftrightarrow> bit (ws ! Suc ?wd) (j - (?W - ?off))"
      if "?W - ?off \<le> j" "j < bits" for j
    proof -
      have e: "p + j = Suc ?wd * ?W + (j - (?W - ?off))" and "j - (?W - ?off) < ?W"
        using that assms(2) off div_mult_mod_eq [of p ?W] by (simp_all only: mult_Suc)
      then have "(p + j) div ?W = Suc ?wd \<and> (p + j) mod ?W = j - (?W - ?off)"
        by (metis div_mult_self3 mod_mult_self3 div_less mod_less add_0_right len_not_eq_0)
      then show ?thesis using wd' by (simp add: pbit_def)
    qed
    have "j < bits \<Longrightarrow> (bit (ucast (drop_bit ?off (ws ! ?wd)) OR ?hi) j \<longleftrightarrow> pbit ws (p + j))" for j
    proof (cases "j < ?W - ?off")
      case True
      then show ?thesis by (simp add: bit_or_iff lo in_first bit_push_bit_iff)
    next
      case False
      assume "j < bits"
      with False have "\<not> bit (ws ! ?wd) (?off + j)" by (auto dest: bit_imp_le_length)
      moreover have "j - (?W - ?off) < 64" and "j < 64" using \<open>j < bits\<close> assms(1,2) by linarith+
      ultimately show ?thesis
        using False \<open>j < bits\<close> in_second [of j]
        by (simp add: bit_or_iff lo bit_push_bit_iff bit_unsigned_iff bit_drop_bit_eq)
    qed
    then show ?thesis
      using False wd wd' sh by (auto simp: pack_load_def Let_def rd shl_res_def bit_and_iff msk)
  qed
qed

text \<open>In the word-aligned placement a slot never crosses a word, so a store and a load are the
  single-word steps of the frame-of-reference codec.\<close>

lemma aligned_pos_facts:
  assumes "0 < bits" and "bits \<le> 64"
  shows "i mod (64 div bits) * bits + bits \<le> 64"
    and "aligned_pos bits i div 64 = i div (64 div bits)"
    and "aligned_pos bits i mod 64 = i mod (64 div bits) * bits"
proof -
  let ?q = "64 div bits"
  have q: "0 < ?q" using assms by (simp add: div_greater_zero_iff)
  have "Suc (i mod ?q) * bits \<le> ?q * bits" using q by (intro mult_le_mono1) (simp add: Suc_leI)
  also have "\<dots> \<le> 64" by simp
  finally show 1: "i mod ?q * bits + bits \<le> 64" by simp
  then show "aligned_pos bits i div 64 = i div ?q" and "aligned_pos bits i mod 64 = i mod ?q * bits"
    using assms(1) by (simp_all add: aligned_pos_def)
qed

lemma pack_store_aligned:
  fixes v :: u64
  assumes "0 < bits" and "bits \<le> 64"
  shows "pack_store bits (aligned_pos bits i) v packed =
    bind_res (shl_res v (i mod (64 div bits) * bits)) (\<lambda>s. upd_res packed (i div (64 div bits)) (\<lambda>w. w OR s))"
  using aligned_pos_facts [OF assms] by (simp add: pack_store_def Let_def)

lemma pack_load_aligned:
  fixes rd :: "nat \<Rightarrow> u64 res"
  assumes "0 < bits" and "bits \<le> 64"
  shows "pack_load bits msk rd (aligned_pos bits i) =
    bind_res (rd (i div (64 div bits))) (\<lambda>w.
    bind_res (shr_res w (i mod (64 div bits) * bits)) (\<lambda>s. Inr (s AND msk)))"
proof -
  have "i mod (64 div bits) * bits < 64" using aligned_pos_facts(1) [OF assms, of i] assms(1) by linarith
  then show ?thesis
    using aligned_pos_facts [OF assms] by (simp add: pack_load_def Let_def shr_res_def)
qed

section \<open>Packing a whole column\<close>

text \<open>Storing the values of a column one after the other, value \<open>i\<close> at position \<open>pos i\<close>. The
  encoders' loops are shown equal to this where their differences do not overflow.\<close>

fun pack_all ::
  "nat \<Rightarrow> (nat \<Rightarrow> nat) \<Rightarrow> nat \<Rightarrow> 'v::len word list \<Rightarrow> 'u::len word list \<Rightarrow> 'u word list res" where
  "pack_all bits pos i [] packed = Inr packed"
| "pack_all bits pos i (v # vs) packed =
     bind_res (pack_store bits (pos i) v packed) (pack_all bits pos (Suc i) vs)"

lemma pack_all_length: "pack_all bits pos i vs packed = Inr ws \<Longrightarrow> length ws = length packed"
proof (induction vs arbitrary: i packed)
  case Nil
  then show ?case by simp
next
  case (Cons v vs)
  have "length ws' = length packed" if "pack_store bits (pos i) v packed = Inr ws'" for ws'
    using that by (auto simp: pack_store_def Let_def res_simps split: if_splits)
  with Cons show ?case by (auto simp: bind_res_Inr_iff)
qed

definition holds_slots :: "nat \<Rightarrow> (nat \<Rightarrow> nat) \<Rightarrow> 'v::len word list \<Rightarrow> 'u::len word list \<Rightarrow> bool" where
  "holds_slots bits pos vs ws \<longleftrightarrow> (\<forall>k. pbit ws k \<longleftrightarrow> slot_bit bits pos vs k)"

lemma holds_slots_zero: "holds_slots bits pos ([] :: 'v::len word list) (replicate n (0 :: 'u::len word))"
  by (auto simp: holds_slots_def pbit_def slot_bit_def)

lemma bit_below: "unat (v :: 'v::len word) < 2 ^ b \<Longrightarrow> bit v j \<Longrightarrow> j < b"
proof -
  assume "unat v < 2 ^ b" and j: "bit v j"
  then have "take_bit b (unat v) = unat v" by (intro take_bit_nat_eq_self)
  moreover have "bit (unat v) j" using j by (simp add: bit_unsigned_iff)
  ultimately show "j < b" by (metis bit_take_bit_iff)
qed

context slot_layout
begin

lemma pack_all_slots:
  fixes vs :: "'v::len word list" and packed :: "'u::len word list"
  assumes "LENGTH('v) = LENGTH('u)" and "0 < bits" and "bits \<le> LENGTH('u)"
    and "\<And>v. v \<in> set vs \<Longrightarrow> unat v < 2 ^ bits"
    and "\<And>i. i < length pre + length vs \<Longrightarrow> pos i + bits \<le> length packed * LENGTH('u)"
    and "holds_slots bits pos pre packed"
  shows "\<exists>ws. pack_all bits pos (length pre) vs packed = Inr ws \<and> length ws = length packed \<and>
    holds_slots bits pos (pre @ vs) ws"
  using assms(4-6)
proof (induction vs arbitrary: pre packed)
  case Nil
  then show ?case by simp
next
  case (Cons v vs)
  have small: "bit v j \<Longrightarrow> j < bits" for j
    using Cons.prems(1) [of v] by (simp add: bit_below)
  have "pos (length pre) + bits \<le> length packed * LENGTH('u)"
    using Cons.prems(2) [of "length pre"] by simp
  from pack_store_bits [OF assms(1-3) this small]
  obtain ws1 where st: "pack_store bits (pos (length pre)) v packed = Inr ws1"
    and len: "length ws1 = length packed"
    and bits1: "\<And>k. pbit ws1 k \<longleftrightarrow> pbit packed k \<or> pos (length pre) \<le> k \<and> bit v (k - pos (length pre))"
    by blast
  have "holds_slots bits pos (pre @ [v]) ws1"
    using Cons.prems(3) small by (fastforce simp: holds_slots_def bits1 slot_bit_snoc)
  then have "\<exists>ws. pack_all bits pos (length (pre @ [v])) vs ws1 = Inr ws \<and> length ws = length ws1 \<and>
      holds_slots bits pos ((pre @ [v]) @ vs) ws"
    using Cons.prems(1,2) len by (intro Cons.IH) simp_all
  then show ?case by (simp add: st len)
qed

lemma pack_load_slot:
  fixes vs :: "'v::len word list" and ws :: "'u::len word list"
  assumes "LENGTH('v) = LENGTH('u)" and "LENGTH('u) \<le> 64" and "0 < bits" and "bits \<le> LENGTH('u)"
    and "holds_slots bits pos vs ws" and "i < length vs" and "unat (vs ! i) < 2 ^ bits"
    and "pos i + bits \<le> length ws * LENGTH('u)"
    and "\<And>i. i < length ws \<Longrightarrow> rd i = Inr (ws ! i)" and "\<And>j. bit msk j \<longleftrightarrow> j < bits"
  shows "pack_load bits msk rd (pos i) = Inr (ucast (vs ! i))"
proof -
  from pack_load_bits [OF assms(2,4,3,8,9,10)]
  obtain v where v: "pack_load bits msk rd (pos i) = Inr v"
    and b: "\<And>j. bit v j \<longleftrightarrow> j < bits \<and> pbit ws (pos i + j)" by blast
  have "bit v j \<longleftrightarrow> bit (vs ! i) j" for j
    using assms(5-7) by (auto simp: b holds_slots_def slot_bit_pos dest: bit_below)
  then have "v = ucast (vs ! i)"
    using assms(1,2) by (auto simp: bit_eq_iff bit_unsigned_iff dest: bit_imp_le_length)
  with v show ?thesis by simp
qed

end

end
