(* ===== verification/PackCodecs.thy ===== *)
theory PackCodecs
  imports BitPacking
begin

text \<open>
  \<^verbatim>\<open>BitPackEncoder\<close>, \<^verbatim>\<open>FOREncoder\<close> and their decoders of \<^verbatim>\<open>include/columnar/encoding/encoding.h\<close>. The
  bit-packing template is instantiated only with a packed word as wide as the column type
  (\<^verbatim>\<open>BitPackEncoder<Int32, 32>\<close>, \<^verbatim>\<open>BitPackEncoder<Int64, 64>\<close>), so the packed array has the
  column's word type here.
\<close>

section \<open>Bit packing\<close>

fun BitPackEncoder_loop ::
  "'a::len word \<Rightarrow> nat \<Rightarrow> 'a word list \<Rightarrow> nat \<Rightarrow> 'a word list \<Rightarrow> 'a word list res" where
  "BitPackEncoder_loop min_val bits [] bit_pos packed = Inr packed"
| "BitPackEncoder_loop min_val bits (x # xs) bit_pos packed =
     bind_res (ssub_res x min_val) (\<lambda>d.
       (let value = scast d :: u64
        in bind_res (pack_store bits bit_pos (ucast value :: 'a word) packed)
             (BitPackEncoder_loop min_val bits xs (bit_pos + bits))))"

fun BitPackEncoder_Encode :: "'a::len word list \<Rightarrow> Buffer \<Rightarrow> Buffer res" where
  "BitPackEncoder_Encode [] out = Inr out"
| "BitPackEncoder_Encode (x # xs) out =
     (let min_val = min_of x xs; max_val = max_of x xs;
          out1 = Buffer_AppendValue max_val (Buffer_AppendValue min_val out)
      in bind_res (ssub_res (scast max_val :: u64) (scast min_val)) (\<lambda>rng.
         bind_res (bits_loop rng 0) (\<lambda>b.
           (let bits_needed = min b LENGTH('a);
                out2 = Buffer_AppendValue (of_nat bits_needed :: byte) out1;
                packed = replicate ((length (x # xs) * bits_needed + LENGTH('a) - 1) div LENGTH('a)) 0
            in bind_res (BitPackEncoder_loop min_val bits_needed (x # xs) 0 packed)
                 (\<lambda>packed. Inr (Buffer_AppendArray packed out2))))))"

fun BitPackDecoder_loop ::
  "byte list \<Rightarrow> 'a::len word \<Rightarrow> nat \<Rightarrow> nat \<Rightarrow> nat \<Rightarrow> 'a word list res" where
  "BitPackDecoder_loop src min_val bits bit_pos 0 = Inr []"
| "BitPackDecoder_loop src min_val bits bit_pos (Suc n) =
     bind_res (shl_res (1 :: u64) bits) (\<lambda>top.
     bind_res (pack_load bits (top - 1)
         (\<lambda>i. read_elem src (2 * sizeof TYPE('a) + 1) i :: 'a word res) bit_pos) (\<lambda>value.
     bind_res (sadd_res min_val (ucast value)) (\<lambda>v.
     bind_res (BitPackDecoder_loop src min_val bits (bit_pos + bits) n) (\<lambda>vs. Inr (v # vs)))))"

definition BitPackDecoder_Decode :: "byte list \<Rightarrow> 'a::len word list \<Rightarrow> 'a word list res" where
  "BitPackDecoder_Decode src dst =
     (if length dst = 0 then Inr dst
      else bind_res (read_word src 0) (\<lambda>min_val.
           bind_res (read_word src (sizeof TYPE('a))) (\<lambda>max_val :: 'a word.
           bind_res (read_word src (2 * sizeof TYPE('a))) (\<lambda>bits :: byte.
             BitPackDecoder_loop src min_val (unat bits) 0 (length dst)))))"

section \<open>Frame of reference\<close>

fun FOREncoder_loop ::
  "'a::len word \<Rightarrow> nat \<Rightarrow> nat \<Rightarrow> nat \<Rightarrow> 'a word list \<Rightarrow> u64 list \<Rightarrow> u64 list res" where
  "FOREncoder_loop min_val bits values_per_word i [] packed = Inr packed"
| "FOREncoder_loop min_val bits values_per_word i (x # xs) packed =
     bind_res (ssub_res x min_val) (\<lambda>d.
     bind_res (shl_res (scast d :: u64) (i mod values_per_word * bits)) (\<lambda>s.
     bind_res (upd_res packed (i div values_per_word) (\<lambda>w. w OR s))
       (FOREncoder_loop min_val bits values_per_word (Suc i) xs)))"

fun FOREncoder_Encode :: "'a::len word list \<Rightarrow> Buffer \<Rightarrow> Buffer res" where
  "FOREncoder_Encode [] out = Inr out"
| "FOREncoder_Encode (x # xs) out =
     (let min_val = min_of x xs; max_val = max_of x xs;
          out1 = Buffer_AppendValue max_val (Buffer_AppendValue min_val out)
      in bind_res (ssub_res (scast max_val :: u64) (scast min_val)) (\<lambda>rng.
         bind_res (bits_loop rng 0) (\<lambda>bits.
           (let out2 = Buffer_AppendValue (of_nat bits :: byte) out1
            in if bits = 0 then Inr out2
               else let values_per_word = 64 div bits;
                        words = (length (x # xs) + values_per_word - 1) div values_per_word;
                        packed = replicate words (0 :: u64)
                    in bind_res (FOREncoder_loop min_val bits values_per_word 0 (x # xs) packed)
                         (\<lambda>packed. Inr (Buffer_AppendArray packed out2))))))"

fun FORDecoder_loop ::
  "byte list \<Rightarrow> 'a::len word \<Rightarrow> nat \<Rightarrow> nat \<Rightarrow> u64 \<Rightarrow> nat \<Rightarrow> nat \<Rightarrow> 'a word list res" where
  "FORDecoder_loop src min_val bits values_per_word msk i 0 = Inr []"
| "FORDecoder_loop src min_val bits values_per_word msk i (Suc n) =
     bind_res (read_elem src (2 * sizeof TYPE('a) + 1) (i div values_per_word)) (\<lambda>w :: u64.
     bind_res (shr_res w (i mod values_per_word * bits)) (\<lambda>s.
     bind_res (sadd_res min_val (ucast (s AND msk))) (\<lambda>v.
     bind_res (FORDecoder_loop src min_val bits values_per_word msk (Suc i) n)
       (\<lambda>vs. Inr (v # vs)))))"

definition FORDecoder_Decode :: "byte list \<Rightarrow> 'a::len word list \<Rightarrow> 'a word list res" where
  "FORDecoder_Decode src dst =
     (if length dst = 0 then Inr dst
      else bind_res (read_word src 0) (\<lambda>min_val.
           bind_res (read_word src (sizeof TYPE('a))) (\<lambda>max_val :: 'a word.
           bind_res (read_word src (2 * sizeof TYPE('a))) (\<lambda>b :: byte.
             (let bits = unat b
              in if bits = 0 then Inr (replicate (length dst) min_val)
                 else bind_res (shl_res (1 :: u64) bits) (\<lambda>top.
                        FORDecoder_loop src min_val bits (64 div bits) (top - 1) 0 (length dst)))))))"

section \<open>The domain of the two codecs\<close>

text \<open>The span of the column fits the positive half of its type, so no difference overflows.\<close>

fun span :: "'a::len word list \<Rightarrow> int" where
  "span [] = 0"
| "span (x # xs) = sint (max_of x xs) - sint (min_of x xs)"

definition for_ok :: "'a::len word list \<Rightarrow> bool" where
  "for_ok xs \<longleftrightarrow> span xs < 2 ^ (LENGTH('a) - 1)"

definition bitpack_ok :: "'a::len word list \<Rightarrow> bool" where
  "bitpack_ok xs \<longleftrightarrow> xs = [] \<or> span xs < 2 ^ (LENGTH('a) - 1) \<and> span xs \<noteq> 0"

section \<open>Facts on offsets from the minimum\<close>

definition offsets :: "'a::len word list \<Rightarrow> 'a word list" where
  "offsets xs = (case xs of [] \<Rightarrow> [] | x # ys \<Rightarrow> map (\<lambda>v. v - min_of x ys) xs)"

lemma span_nonneg: "0 \<le> span xs"
proof (cases xs)
  case (Cons x ys)
  then show ?thesis using min_of_le [of x x ys] max_of_ge [of x x ys] by simp
qed simp

lemma offset_facts:
  fixes x :: "'a::len word"
  assumes "span (x # xs) < 2 ^ (LENGTH('a) - 1)" and "y \<in> set (x # xs)"
  shows "ssub_res y (min_of x xs) = Inr (y - min_of x xs)"
    and "sint (y - min_of x xs) = sint y - sint (min_of x xs)"
    and "uint (y - min_of x xs) = sint y - sint (min_of x xs)"
    and "uint (y - min_of x xs) \<le> span (x # xs)"
    and "sadd_res (min_of x xs) (y - min_of x xs) = Inr y"
proof -
  let ?m = "min_of x xs"
  have b: "sint ?m \<le> sint y" "sint y \<le> sint (max_of x xs)"
    using assms(2) by (rule min_of_le, rule max_of_ge)
  then have r: "0 \<le> sint y - sint ?m" "sint y - sint ?m < 2 ^ (LENGTH('a) - 1)"
    using assms(1) by simp_all
  then have ir: "in_srange TYPE('a) (sint y - sint ?m)"
    by (simp add: in_srange_def order_trans [of _ 0])
  then show "ssub_res y ?m = Inr (y - ?m)" by (simp add: ssub_res_def)
  show s: "sint (y - ?m) = sint y - sint ?m" using ir by (rule sint_sub_in_range)
  show u: "uint (y - ?m) = sint y - sint ?m"
  proof -
    have "word_of_int (sint y - sint ?m) = y - ?m" by simp
    then have "uint (y - ?m) = (sint y - sint ?m) mod 2 ^ LENGTH('a)"
      by (metis uint_word_of_int)
    moreover have "(2 :: int) ^ (LENGTH('a) - 1) \<le> 2 ^ LENGTH('a)" by (intro power_increasing) simp_all
    then have "(sint y - sint ?m) mod 2 ^ LENGTH('a) = sint y - sint ?m"
      using r by (intro mod_pos_pos_trivial) linarith+
    ultimately show ?thesis by simp
  qed
  show "uint (y - ?m) \<le> span (x # xs)" using b by (simp add: u)
  show "sadd_res ?m (y - ?m) = Inr y" by (simp add: sadd_res_def s)
qed

text \<open>The width the encoders compute, and that it covers every offset.\<close>

definition width :: "'a::len word list \<Rightarrow> nat" where
  "width xs = (case bits_loop (word_of_int (span xs) :: u64) 0 of Inl _ \<Rightarrow> 0 | Inr b \<Rightarrow> b)"

lemma span_less_2_63:
  assumes "LENGTH('a::len) \<le> 64" and "span (xs :: 'a word list) < 2 ^ (LENGTH('a) - 1)"
  shows "span xs < 2 ^ 63"
proof -
  have "(2 :: int) ^ (LENGTH('a) - 1) \<le> 2 ^ 63" using assms(1) by (intro power_increasing) simp_all
  then show ?thesis using assms(2) by linarith
qed

lemma encoder_range:
  fixes x :: "'a::len word"
  assumes "LENGTH('a) \<le> 64" and "span (x # xs) < 2 ^ (LENGTH('a) - 1)"
  shows "ssub_res (scast (max_of x xs) :: u64) (scast (min_of x xs)) =
    Inr (word_of_int (span (x # xs)))"
proof -
  let ?mx = "max_of x xs" and ?mn = "min_of x xs"
  have "in_srange TYPE(64) (span (x # xs))"
    using span_less_2_63 [OF assms] span_nonneg [of "x # xs"] unfolding in_srange_def by simp
  then have "ssub_res (scast ?mx :: u64) (scast ?mn) = Inr (scast ?mx - scast ?mn)"
    using assms(1) by (simp add: ssub_res_def sint_scast)
  also have "scast ?mx - scast ?mn = (word_of_int (span (x # xs)) :: u64)"
    by simp
  finally show ?thesis .
qed

lemma width_facts:
  fixes xs :: "'a::len word list"
  assumes "LENGTH('a) \<le> 64" and "span xs < 2 ^ (LENGTH('a) - 1)"
  shows "bits_loop (word_of_int (span xs) :: u64) 0 = Inr (width xs)"
    and "span xs < 2 ^ width xs" and "width xs < LENGTH('a)" and "width xs = 0 \<longleftrightarrow> span xs = 0"
proof -
  let ?r = "word_of_int (span xs) :: u64"
  have r: "int (unat ?r) = span xs"
    using span_less_2_63 [OF assms] span_nonneg [of xs] by (simp add: uint_word_of_int)
  have "unat ?r < 2 ^ (LENGTH(64) - 1)"
  proof -
    have "int (unat ?r) < int (2 ^ 63)" unfolding r using span_less_2_63 [OF assms] by simp
    then show ?thesis by (simp only: of_nat_less_iff) simp
  qed
  from bits_loop_spec [of 0, OF _ this]
  obtain n where n: "bits_loop ?r 0 = Inr n" "unat ?r < 2 ^ n" "n = 0 \<or> 2 ^ (n - 1) \<le> unat ?r"
    by auto
  show 1: "bits_loop ?r 0 = Inr (width xs)" by (simp add: width_def n)
  then have w: "width xs = n" using n by simp
  have "int (unat ?r) < int (2 ^ n)" using n(2) by (simp only: of_nat_less_iff)
  then show "span xs < 2 ^ width xs" unfolding r w by simp
  have "n = 0 \<or> int (2 ^ (n - 1)) \<le> int (unat ?r)" using n(3) by (simp only: of_nat_le_iff)
  then have lower: "n = 0 \<or> 2 ^ (n - 1) \<le> span xs" unfolding r by simp
  show "width xs < LENGTH('a)"
  proof (cases "n = 0")
    case False
    then have "(2 :: int) ^ (n - 1) < 2 ^ (LENGTH('a) - 1)" using lower assms(2) by linarith
    then have "n - 1 < LENGTH('a) - 1" by (rule power_less_imp_less_exp [rotated]) simp
    then show ?thesis by (simp add: w)
  qed (simp add: w)
  show "width xs = 0 \<longleftrightarrow> span xs = 0"
    using lower \<open>span xs < 2 ^ width xs\<close> span_nonneg [of xs] unfolding w
    by (cases "n = 0") (auto simp: not_le)
qed

lemma offset_small:
  fixes x :: "'a::len word"
  assumes "LENGTH('a) \<le> 64" and "span (x # xs) < 2 ^ (LENGTH('a) - 1)" and "y \<in> set (x # xs)"
  shows "unat (y - min_of x xs) < 2 ^ width (x # xs)"
proof -
  have "uint (y - min_of x xs) < 2 ^ width (x # xs)"
    using offset_facts(4) [OF assms(2,3)] width_facts(2) [OF assms(1,2)] by linarith
  then show ?thesis by (rule uint_less_unat)
qed

lemma offsets_Cons: "offsets (x # xs) = map (\<lambda>v. v - min_of x xs) (x # xs)"
  by (simp add: offsets_def)

lemma length_offsets [simp]: "length (offsets xs) = length xs"
  by (cases xs) (simp_all add: offsets_def)

section \<open>Facts on bit packing\<close>

lemma BitPackEncoder_loop_pack_all:
  fixes ys :: "'a::len word list"
  assumes "LENGTH('a) \<le> 64" and "\<And>y. y \<in> set ys \<Longrightarrow> ssub_res y m = Inr (y - m)"
  shows "BitPackEncoder_loop m bits ys (contiguous_pos bits i) packed =
    pack_all bits (contiguous_pos bits) i (map (\<lambda>y. y - m) ys) packed"
  using assms(2)
proof (induction ys arbitrary: i packed)
  case Nil
  then show ?case by simp
next
  case (Cons y ys)
  have "contiguous_pos bits i + bits = contiguous_pos bits (Suc i)"
    by (simp add: contiguous_pos_def)
  moreover have "BitPackEncoder_loop m bits ys (contiguous_pos bits (Suc i)) =
      pack_all bits (contiguous_pos bits) (Suc i) (map (\<lambda>y. y - m) ys)"
    using Cons by auto
  ultimately show ?case
    using Cons.prems assms(1) by (simp add: ucast_scast Let_def)
qed

text \<open>The packed array of a column, as the encoder leaves it.\<close>

definition bitpack_words :: "'a::len word list \<Rightarrow> 'a word list" where
  "bitpack_words xs =
     (case pack_all (width xs) (contiguous_pos (width xs)) 0 (offsets xs)
        (replicate ((length xs * width xs + LENGTH('a) - 1) div LENGTH('a)) (0 :: 'a word))
      of Inl _ \<Rightarrow> [] | Inr ws \<Rightarrow> ws)"

lemma bitpack_words_facts:
  fixes xs :: "'a::len word list"
  assumes "LENGTH('a) \<le> 64" and "xs \<noteq> []" and "span xs < 2 ^ (LENGTH('a) - 1)" and "span xs \<noteq> 0"
  shows "pack_all (width xs) (contiguous_pos (width xs)) 0 (offsets xs)
      (replicate ((length xs * width xs + LENGTH('a) - 1) div LENGTH('a)) 0) = Inr (bitpack_words xs)"
    and "holds_slots (width xs) (contiguous_pos (width xs)) (offsets xs) (bitpack_words xs)"
    and "i < length xs \<Longrightarrow>
      contiguous_pos (width xs) i + width xs \<le> length (bitpack_words xs) * LENGTH('a)"
proof -
  let ?b = "width xs" and ?n = "(length xs * width xs + LENGTH('a) - 1) div LENGTH('a)"
  have b: "0 < ?b" "?b \<le> LENGTH('a)"
    using width_facts(3,4) [OF assms(1,3)] assms(4) by auto
  have fit: "contiguous_pos ?b j + ?b \<le> ?n * LENGTH('a)" if "j < length xs" for j
  proof -
    have "Suc j * ?b \<le> length xs * ?b" using that by (intro mult_le_mono1) simp
    then show ?thesis
      using le_ceil_times [of "LENGTH('a)" "length xs * ?b"] by (simp add: contiguous_pos_def)
  qed
  have small: "unat v < 2 ^ ?b" if "v \<in> set (offsets xs)" for v
    using that assms(1-3) offset_small by (cases xs) (auto simp: offsets_Cons)
  have "\<exists>ws. pack_all ?b (contiguous_pos ?b) (length ([] :: 'a word list)) (offsets xs)
        (replicate ?n (0 :: 'a word)) = Inr ws \<and>
      length ws = length (replicate ?n (0 :: 'a word)) \<and>
      holds_slots ?b (contiguous_pos ?b) ([] @ offsets xs) ws"
    using b small fit by (intro contiguous.pack_all_slots holds_slots_zero) simp_all
  then obtain ws :: "'a word list"
    where ws: "pack_all ?b (contiguous_pos ?b) 0 (offsets xs) (replicate ?n 0) = Inr ws"
    "length ws = ?n" "holds_slots ?b (contiguous_pos ?b) (offsets xs) ws" by auto
  then have "bitpack_words xs = ws" by (simp add: bitpack_words_def)
  with ws fit show "pack_all ?b (contiguous_pos ?b) 0 (offsets xs) (replicate ?n 0) = Inr (bitpack_words xs)"
    and "holds_slots ?b (contiguous_pos ?b) (offsets xs) (bitpack_words xs)"
    and "i < length xs \<Longrightarrow> contiguous_pos ?b i + ?b \<le> length (bitpack_words xs) * LENGTH('a)"
    by simp_all
qed

fun pack_header :: "'a::len word list \<Rightarrow> byte list" where
  "pack_header [] = []"
| "pack_header (x # xs) = bytes_of (min_of x xs) @ bytes_of (max_of x xs) @
     bytes_of (of_nat (width (x # xs)) :: byte)"

definition bitpack_image :: "'a::len word list \<Rightarrow> byte list" where
  "bitpack_image xs = (if xs = [] then [] else pack_header xs @ bytes_of_array (bitpack_words xs))"

lemma BitPackEncoder_Encode_contents:
  fixes xs :: "'a::len word list"
  assumes "LENGTH('a) \<le> 64" and "bitpack_ok xs" and "Buffer_inv out"
  shows "\<exists>b. BitPackEncoder_Encode xs out = Inr b \<and> Buffer_inv b \<and>
    contents b = contents out @ bitpack_image xs"
proof (cases xs)
  case Nil
  then show ?thesis using assms(3) by (simp add: bitpack_image_def)
next
  case (Cons x ys)
  have ok: "span (x # ys) < 2 ^ (LENGTH('a) - 1)" "span (x # ys) \<noteq> 0"
    using assms(2) by (simp_all add: bitpack_ok_def Cons)
  let ?b = "width (x # ys)"
  have b: "min ?b LENGTH('a) = ?b" using width_facts(3) [OF assms(1) ok(1)] by simp
  have "BitPackEncoder_loop (min_of x ys) ?b (x # ys) 0 packed =
      pack_all ?b (contiguous_pos ?b) 0 (offsets (x # ys)) packed" for packed
    using BitPackEncoder_loop_pack_all [OF assms(1), of "x # ys" "min_of x ys" ?b 0 packed]
      offset_facts(1) [OF ok(1)] unfolding offsets_Cons by (simp add: contiguous_pos_def)
  then show ?thesis
    using bitpack_words_facts(1) [OF assms(1) _ ok] assms(3)
    unfolding Cons BitPackEncoder_Encode.simps Let_def encoder_range [OF assms(1) ok(1)]
      bind_res.simps width_facts(1) [OF assms(1) ok(1)] b
    by (simp add: bitpack_image_def)
qed

lemma length_pack_header [simp]:
  "xs \<noteq> [] \<Longrightarrow> length (pack_header (xs :: 'a::len word list)) = 2 * sizeof TYPE('a) + 1"
  by (cases xs) simp_all

text \<open>What both decoders read back from the header.\<close>

lemma read_pack_header:
  fixes x :: "'a::len word"
  assumes "8 dvd LENGTH('a)" and "LENGTH('a) \<le> 64" and "span (x # xs) < 2 ^ (LENGTH('a) - 1)"
  shows "read_word (pack_header (x # xs) @ rest) 0 = Inr (min_of x xs)"
    and "read_word (pack_header (x # xs) @ rest) (sizeof TYPE('a)) = Inr (max_of x xs)"
    and "read_word (pack_header (x # xs) @ rest) (2 * sizeof TYPE('a)) =
      Inr (of_nat (width (x # xs)) :: byte)"
    and "unat (of_nat (width (x # xs)) :: byte) = width (x # xs)"
proof -
  let ?mn = "bytes_of (min_of x xs)" and ?mx = "bytes_of (max_of x xs)"
  let ?b = "of_nat (width (x # xs)) :: byte"
  show "read_word (pack_header (x # xs) @ rest) 0 = Inr (min_of x xs)"
    using assms(1) read_word_append [of "[]" 0 "min_of x xs" "?mx @ bytes_of ?b @ rest"] by simp
  show "read_word (pack_header (x # xs) @ rest) (sizeof TYPE('a)) = Inr (max_of x xs)"
    using assms(1) read_word_append [of ?mn "sizeof TYPE('a)" "max_of x xs" "bytes_of ?b @ rest"] by simp
  show "read_word (pack_header (x # xs) @ rest) (2 * sizeof TYPE('a)) = Inr ?b"
    using read_word_append [of "?mn @ ?mx" "2 * sizeof TYPE('a)" ?b rest] by simp
  have "width (x # xs) < 256" using width_facts(3) [OF assms(2,3)] assms(2) by simp
  then show "unat ?b = width (x # xs)" by (simp add: unat_of_nat)
qed

lemma BitPackDecoder_loop_slots:
  fixes x :: "'a::len word"
  assumes "8 dvd LENGTH('a)" and "LENGTH('a) \<le> 64"
    and ok: "span (x # ys) < 2 ^ (LENGTH('a) - 1)" "span (x # ys) \<noteq> 0"
    and "i + n \<le> length (x # ys)"
  shows "BitPackDecoder_loop (pack_header (x # ys) @ bytes_of_array (bitpack_words (x # ys)))
      (min_of x ys) (width (x # ys)) (contiguous_pos (width (x # ys)) i) n =
    Inr (take n (drop i (x # ys)))"
  using assms(5)
proof (induction n arbitrary: i)
  case 0
  then show ?case by simp
next
  case (Suc n)
  let ?xs = "x # ys" and ?b = "width (x # ys)" and ?ws = "bitpack_words (x # ys)"
  let ?src = "pack_header ?xs @ bytes_of_array ?ws"
  have i: "i < length ?xs" using Suc.prems by simp
  have b: "0 < ?b" "?b \<le> LENGTH('a)" "?b < 64"
    using width_facts(3,4) [OF assms(2) ok(1)] ok(2) assms(2) by auto
  have rd: "read_elem ?src (2 * sizeof TYPE('a) + 1) k = Inr (?ws ! k)" if "k < length ?ws" for k
    using read_elem_append [OF assms(1) length_pack_header that, of ?xs "[]"] by simp
  have off: "offsets ?xs ! i = ?xs ! i - min_of x ys"
    using i unfolding offsets_Cons by (rule nth_map)
  have mem: "?xs ! i \<in> set ?xs" using i by (rule nth_mem)
  have "pack_load ?b (2 ^ ?b - 1) (read_elem ?src (2 * sizeof TYPE('a) + 1) :: nat \<Rightarrow> 'a word res)
      (contiguous_pos ?b i) = Inr (ucast (offsets ?xs ! i))"
  proof (rule contiguous.pack_load_slot [OF refl assms(2) b(1,2), where ws = ?ws])
    show "holds_slots ?b (contiguous_pos ?b) (offsets ?xs) ?ws"
      and "contiguous_pos ?b i + ?b \<le> length ?ws * LENGTH('a)"
      using bitpack_words_facts(2,3) [OF assms(2) _ ok] i by auto
    show "i < length (offsets ?xs)" using i by simp
    show "unat (offsets ?xs ! i) < 2 ^ ?b" unfolding off by (rule offset_small [OF assms(2) ok(1) mem])
    show "bit (2 ^ ?b - 1 :: u64) j \<longleftrightarrow> j < ?b" for j using b(3) by (intro bit_low_mask) simp
  qed (rule rd)
  moreover have "ucast (ucast (offsets ?xs ! i) :: u64) = offsets ?xs ! i"
    using assms(2) by (simp add: ucast_ucast_up)
  moreover have "sadd_res (min_of x ys) (offsets ?xs ! i) = Inr (?xs ! i)"
    unfolding off by (rule offset_facts(5) [OF ok(1) mem])
  moreover have "contiguous_pos ?b i + ?b = contiguous_pos ?b (Suc i)"
    by (simp add: contiguous_pos_def)
  moreover have "?xs ! i # take n (drop (Suc i) ?xs) = take (Suc n) (drop i ?xs)"
    using i by (simp only: take_Suc_Cons Cons_nth_drop_Suc [symmetric])
  ultimately show ?case
    using Suc b(3) by (simp add: shl_res_def del: take_Suc drop_Suc)
qed

lemma bitpack_codec:
  assumes "8 dvd LENGTH('a::len)" and "LENGTH('a) \<le> 64"
  shows "codec BitPackEncoder_Encode BitPackDecoder_Decode bitpack_ok
    (bitpack_image :: 'a word list \<Rightarrow> _)"
proof
  show "\<exists>b'. BitPackEncoder_Encode xs b = Inr b' \<and> Buffer_inv b' \<and>
      contents b' = contents b @ bitpack_image xs"
    if "bitpack_ok xs" and "Buffer_inv b" for xs :: "'a word list" and b
    by (rule BitPackEncoder_Encode_contents [OF assms(2) that])
  show "BitPackDecoder_Decode (bitpack_image xs) dst = Inr xs"
    if "bitpack_ok xs" and "length dst = length xs" for xs dst :: "'a word list"
  proof (cases xs)
    case Nil
    then show ?thesis using that(2) by (simp add: BitPackDecoder_Decode_def)
  next
    case (Cons x ys)
    have ok: "span (x # ys) < 2 ^ (LENGTH('a) - 1)" "span (x # ys) \<noteq> 0"
      using that(1) by (simp_all add: bitpack_ok_def Cons)
    have "contiguous_pos (width (x # ys)) 0 = 0" by (simp add: contiguous_pos_def)
    then show ?thesis
      using BitPackDecoder_loop_slots [OF assms ok, of 0 "length (x # ys)"] that(2)
      by (simp add: BitPackDecoder_Decode_def bitpack_image_def Cons read_pack_header [OF assms ok(1)]
          del: pack_header.simps)
  qed
qed

interpretation bitpack32: codec BitPackEncoder_Encode BitPackDecoder_Decode bitpack_ok
  "bitpack_image :: 32 word list \<Rightarrow> _"
  by (rule bitpack_codec) simp_all

interpretation bitpack64: codec BitPackEncoder_Encode BitPackDecoder_Decode bitpack_ok
  "bitpack_image :: 64 word list \<Rightarrow> _"
  by (rule bitpack_codec) simp_all

text \<open>A constant column needs no bits, so the packed vector is empty, and the loop still
  stores into its first word.\<close>

lemma BitPackEncoder_loop_empty: "BitPackEncoder_loop c 0 (c # cs) 0 [] = Inl OutOfBounds"
  by (simp add: ssub_res_def pack_store_def shl_res_def upd_res_def in_srange_def)

lemma min_of_replicate: "min_of c (replicate n c) = c"
  and max_of_replicate: "max_of c (replicate n c) = c"
  by (induction n) (simp_all add: min_of_def max_of_def smin_def smax_def)

lemma BitPackEncoder_constant:
  fixes c :: "'a::len word"
  assumes "LENGTH('a) \<le> 64"
  shows "BitPackEncoder_Encode (replicate (Suc n) c) out = Inl OutOfBounds"
proof -
  have "ssub_res (scast c :: u64) (scast c) = Inr 0" by (simp add: ssub_res_def in_srange_def)
  moreover have "bits_loop (0 :: u64) 0 = Inr 0" by (simp add: bits_loop.simps [of 0 0] shl_res_def)
  ultimately show ?thesis
    by (simp add: min_of_replicate max_of_replicate BitPackEncoder_loop_empty
        del: BitPackEncoder_loop.simps)
qed

section \<open>Facts on the frame of reference\<close>

definition wide_offsets :: "'a::len word list \<Rightarrow> u64 list" where
  "wide_offsets xs = map ucast (offsets xs)"

lemma length_wide_offsets [simp]: "length (wide_offsets xs) = length xs"
  by (simp add: wide_offsets_def)

lemma FOREncoder_loop_pack_all:
  fixes ys :: "'a::len word list"
  assumes "0 < bits" and "bits \<le> 64"
    and "\<And>y. y \<in> set ys \<Longrightarrow> ssub_res y m = Inr (y - m) \<and> 0 \<le> sint (y - m)"
  shows "FOREncoder_loop m bits (64 div bits) i ys packed =
    pack_all bits (aligned_pos bits) i (map (\<lambda>y. ucast (y - m) :: u64) ys) packed"
  using assms(3)
proof (induction ys arbitrary: i packed)
  case Nil
  then show ?case by simp
next
  case (Cons y ys)
  have "FOREncoder_loop m bits (64 div bits) (Suc i) ys =
      pack_all bits (aligned_pos bits) (Suc i) (map (\<lambda>y. ucast (y - m) :: u64) ys)"
    by (rule ext, rule Cons.IH, rule Cons.prems) simp
  moreover have "scast (y - m) = (ucast (y - m) :: u64)"
    using Cons.prems [of y] by (intro scast_nonneg) simp
  ultimately show ?case
    using Cons.prems [of y] by (simp add: pack_store_aligned [OF assms(1,2)] bind_res_assoc)
qed

definition for_words :: "'a::len word list \<Rightarrow> u64 list" where
  "for_words xs =
     (let q = 64 div width xs
      in case pack_all (width xs) (aligned_pos (width xs)) 0 (wide_offsets xs)
           (replicate ((length xs + q - 1) div q) (0 :: u64))
         of Inl _ \<Rightarrow> [] | Inr ws \<Rightarrow> ws)"

definition for_image :: "'a::len word list \<Rightarrow> byte list" where
  "for_image xs =
     (if xs = [] then []
      else pack_header xs @ (if width xs = 0 then [] else bytes_of_array (for_words xs)))"

lemma wide_offset_nth:
  fixes x :: "'a::len word"
  assumes "LENGTH('a) \<le> 64" and "span (x # ys) < 2 ^ (LENGTH('a) - 1)" and "i < length (x # ys)"
  shows "wide_offsets (x # ys) ! i = ucast ((x # ys) ! i - min_of x ys)"
    and "unat (wide_offsets (x # ys) ! i) < 2 ^ width (x # ys)"
proof -
  have "wide_offsets (x # ys) ! i = ucast (offsets (x # ys) ! i)"
    unfolding wide_offsets_def using assms(3) by (intro nth_map) simp
  also have "offsets (x # ys) ! i = (x # ys) ! i - min_of x ys"
    unfolding offsets_Cons using assms(3) by (rule nth_map)
  finally show 1: "wide_offsets (x # ys) ! i = ucast ((x # ys) ! i - min_of x ys)" .
  have "unat (ucast ((x # ys) ! i - min_of x ys) :: u64) = unat ((x # ys) ! i - min_of x ys)"
    using assms(1) by (intro unat_ucast_up) simp
  then show "unat (wide_offsets (x # ys) ! i) < 2 ^ width (x # ys)"
    unfolding 1 using offset_small [OF assms(1,2) nth_mem [OF assms(3)]] by simp
qed

lemma for_words_facts:
  fixes xs :: "'a::len word list"
  assumes xs_def: "xs = x # ys"
  assumes "LENGTH('a) \<le> 64" and "span xs < 2 ^ (LENGTH('a) - 1)" and "span xs \<noteq> 0"
  shows "pack_all (width xs) (aligned_pos (width xs)) 0 (wide_offsets xs)
      (replicate ((length xs + 64 div width xs - 1) div (64 div width xs)) 0) = Inr (for_words xs)"
    and "holds_slots (width xs) (aligned_pos (width xs)) (wide_offsets xs) (for_words xs)"
    and "i < length xs \<Longrightarrow> aligned_pos (width xs) i + width xs \<le> length (for_words xs) * 64"
    and "length (for_words xs) = (length xs + 64 div width xs - 1) div (64 div width xs)"
proof -
  let ?b = "width xs" let ?q = "64 div ?b" let ?n = "(length xs + ?q - 1) div ?q"
  have b: "0 < ?b" "?b \<le> 64"
    using width_facts(3,4) [OF assms(2,3)] assms(2,4) by auto
  have q: "0 < ?q" using b by (simp add: div_greater_zero_iff)
  have fit: "aligned_pos ?b j + ?b \<le> ?n * 64" if "j < length xs" for j
  proof -
    have "Suc (j div ?q) * 64 \<le> ?n * 64"
      using less_ceil [OF q that] by (intro mult_le_mono1) simp
    then show ?thesis using aligned_pos_facts(1) [OF b, of j] by (simp add: aligned_pos_def)
  qed
  have small: "unat v < 2 ^ ?b" if "v \<in> set (wide_offsets xs)" for v
    using that assms(2,3) wide_offset_nth(2) [of x ys] unfolding xs_def
    by (metis in_set_conv_nth length_wide_offsets)
  have "\<exists>ws. pack_all ?b (aligned_pos ?b) (length ([] :: u64 list)) (wide_offsets xs)
        (replicate ?n (0 :: u64)) = Inr ws \<and> length ws = length (replicate ?n (0 :: u64)) \<and>
      holds_slots ?b (aligned_pos ?b) ([] @ wide_offsets xs) ws"
    using b small fit by (intro aligned.pack_all_slots holds_slots_zero) simp_all
  then obtain ws :: "u64 list"
    where ws: "pack_all ?b (aligned_pos ?b) 0 (wide_offsets xs) (replicate ?n 0) = Inr ws"
    "length ws = ?n" "holds_slots ?b (aligned_pos ?b) (wide_offsets xs) ws" by auto
  then have "for_words xs = ws" by (simp add: for_words_def Let_def)
  with ws fit show "pack_all ?b (aligned_pos ?b) 0 (wide_offsets xs) (replicate ?n 0) = Inr (for_words xs)"
    and "holds_slots ?b (aligned_pos ?b) (wide_offsets xs) (for_words xs)"
    and "i < length xs \<Longrightarrow> aligned_pos ?b i + ?b \<le> length (for_words xs) * 64"
    and "length (for_words xs) = (length xs + 64 div width xs - 1) div (64 div width xs)"
    by simp_all
qed

lemma FOREncoder_Encode_contents:
  fixes xs :: "'a::len word list"
  assumes "LENGTH('a) \<le> 64" and "for_ok xs" and "Buffer_inv out"
  shows "\<exists>b. FOREncoder_Encode xs out = Inr b \<and> Buffer_inv b \<and>
    contents b = contents out @ for_image xs"
proof (cases xs)
  case Nil
  then show ?thesis using assms(3) by (simp add: for_image_def)
next
  case (Cons x ys)
  let ?b = "width (x # ys)"
  have ok: "span (x # ys) < 2 ^ (LENGTH('a) - 1)"
    using assms(2) by (simp add: for_ok_def Cons)
  show ?thesis
  proof (cases "?b = 0")
    case True
    then show ?thesis
      using assms(3) unfolding Cons FOREncoder_Encode.simps Let_def encoder_range [OF assms(1) ok]
        bind_res.simps width_facts(1) [OF assms(1) ok]
      by (simp add: for_image_def)
  next
    case False
    have b: "0 < ?b" "?b \<le> 64" using width_facts(3) [OF assms(1) ok] assms(1) False by simp_all
    have sp: "span (x # ys) \<noteq> 0" using False width_facts(4) [OF assms(1) ok] by simp
    have "FOREncoder_loop (min_of x ys) ?b (64 div ?b) 0 (x # ys) packed =
        pack_all ?b (aligned_pos ?b) 0 (wide_offsets (x # ys)) packed" for packed
    proof -
      have "0 \<le> sint (y - min_of x ys)" if "y \<in> set (x # ys)" for y
        using offset_facts(2) [OF ok that] min_of_le [OF that] by simp
      then show ?thesis
        using FOREncoder_loop_pack_all [OF b, of "x # ys" "min_of x ys" 0 packed]
          offset_facts(1) [OF ok] unfolding wide_offsets_def offsets_Cons by (simp add: comp_def)
    qed
    then show ?thesis
      using for_words_facts(1) [OF refl assms(1) ok sp] assms(3) False
      unfolding Cons FOREncoder_Encode.simps Let_def encoder_range [OF assms(1) ok]
        bind_res.simps width_facts(1) [OF assms(1) ok]
      by (simp add: for_image_def)
  qed
qed

lemma FORDecoder_loop_slots:
  fixes x :: "'a::len word"
  assumes "8 dvd LENGTH('a)" and "LENGTH('a) \<le> 64"
    and ok: "span (x # ys) < 2 ^ (LENGTH('a) - 1)" "span (x # ys) \<noteq> 0"
    and "i + n \<le> length (x # ys)"
  shows "FORDecoder_loop (pack_header (x # ys) @ bytes_of_array (for_words (x # ys)))
      (min_of x ys) (width (x # ys)) (64 div width (x # ys)) (2 ^ width (x # ys) - 1) i n =
    Inr (take n (drop i (x # ys)))"
  using assms(5)
proof (induction n arbitrary: i)
  case 0
  then show ?case by simp
next
  case (Suc n)
  let ?xs = "x # ys" and ?b = "width (x # ys)" and ?ws = "for_words (x # ys)"
  let ?src = "pack_header ?xs @ bytes_of_array ?ws"
  have i: "i < length ?xs" using Suc.prems by simp
  have b: "0 < ?b" "?b \<le> 64" "?b < 64"
    using width_facts(3,4) [OF assms(2) ok(1)] ok(2) assms(2) by auto
  have rd: "read_elem ?src (2 * sizeof TYPE('a) + 1) k = Inr (?ws ! k)" if "k < length ?ws" for k
    using read_elem_append [OF _ length_pack_header that, of ?xs "[]"] by simp
  note off = wide_offset_nth [OF assms(2) ok(1) i]
  have mem: "?xs ! i \<in> set ?xs" using i by (rule nth_mem)
  have "pack_load ?b (2 ^ ?b - 1) (read_elem ?src (2 * sizeof TYPE('a) + 1) :: nat \<Rightarrow> u64 res)
      (aligned_pos ?b i) = Inr (ucast (wide_offsets ?xs ! i))"
  proof (rule aligned.pack_load_slot [OF refl _ b(1) _ _ _ off(2), where ws = ?ws])
    show "holds_slots ?b (aligned_pos ?b) (wide_offsets ?xs) ?ws"
      and "aligned_pos ?b i + ?b \<le> length ?ws * LENGTH(64)"
      using for_words_facts(2,3) [OF refl assms(2) ok] i by auto
    show "bit (2 ^ ?b - 1 :: u64) j \<longleftrightarrow> j < ?b" for j using b(3) by (intro bit_low_mask) simp
  qed (use b i rd in simp_all)
  moreover have "ucast (wide_offsets ?xs ! i) = ?xs ! i - min_of x ys"
    unfolding off(1) using assms(2) by (simp add: ucast_ucast_up)
  moreover have "sadd_res (min_of x ys) (?xs ! i - min_of x ys) = Inr (?xs ! i)"
    by (rule offset_facts(5) [OF ok(1) mem])
  moreover have "?xs ! i # take n (drop (Suc i) ?xs) = take (Suc n) (drop i ?xs)"
    using i by (simp only: take_Suc_Cons Cons_nth_drop_Suc [symmetric])
  ultimately show ?case
    using Suc unfolding pack_load_aligned [OF b(1,2)]
    by (auto simp: bind_res_Inr_iff simp del: take_Suc drop_Suc)
qed

lemma constant_column:
  assumes "span (x # ys) = 0"
  shows "replicate (length (x # ys)) (min_of x ys) = x # ys"
proof (rule replicate_eqI [symmetric])
  show "y = min_of x ys" if "y \<in> set (x # ys)" for y
    using min_of_le [OF that] max_of_ge [OF that] assms by (intro signed_word_eqI) simp
qed simp

lemma for_codec:
  assumes "8 dvd LENGTH('a::len)" and "LENGTH('a) \<le> 64"
  shows "codec FOREncoder_Encode FORDecoder_Decode for_ok (for_image :: 'a word list \<Rightarrow> _)"
proof
  show "\<exists>b'. FOREncoder_Encode xs b = Inr b' \<and> Buffer_inv b' \<and>
      contents b' = contents b @ for_image xs"
    if "for_ok xs" and "Buffer_inv b" for xs :: "'a word list" and b
    by (rule FOREncoder_Encode_contents [OF assms(2) that])
  show "FORDecoder_Decode (for_image xs) dst = Inr xs"
    if "for_ok xs" and "length dst = length xs" for xs dst :: "'a word list"
  proof (cases xs)
    case Nil
    then show ?thesis using that(2) by (simp add: FORDecoder_Decode_def)
  next
    case (Cons x ys)
    let ?b = "width (x # ys)"
    have ok: "span (x # ys) < 2 ^ (LENGTH('a) - 1)" using that(1) by (simp add: for_ok_def Cons)
    note hd = read_pack_header [OF assms ok]
    show ?thesis
    proof (cases "?b = 0")
      case True
      then have "replicate (length (x # ys)) (min_of x ys) = x # ys"
        using width_facts(4) [OF assms(2) ok] by (intro constant_column) blast
      then show ?thesis
        using that(2) True hd(1-3) [of "[]"]
        by (auto simp: FORDecoder_Decode_def for_image_def Cons simp del: pack_header.simps)
    next
      case False
      have sp: "span (x # ys) \<noteq> 0" and "?b < 64"
        using False width_facts(3,4) [OF assms(2) ok] assms(2) by simp_all
      then show ?thesis
        using FORDecoder_loop_slots [OF assms ok, of 0 "length (x # ys)"] that(2) False
        by (simp add: FORDecoder_Decode_def for_image_def Cons hd shl_res_def Let_def
            del: pack_header.simps)
    qed
  qed
qed

interpretation for32: codec FOREncoder_Encode FORDecoder_Decode for_ok
  "for_image :: 32 word list \<Rightarrow> _"
  by (rule for_codec) simp_all

interpretation for64: codec FOREncoder_Encode FORDecoder_Decode for_ok
  "for_image :: 64 word list \<Rightarrow> _"
  by (rule for_codec) simp_all

section \<open>Properties\<close>

text \<open>C29: the number of bytes the frame-of-reference encoder appends: a header of the minimum, the
  maximum and the width, and as many 64-bit words as hold all offsets at that width, which stays
  below the width of the type.\<close>

theorem for_encoded_size:
  fixes xs :: "'a::len word list"
  assumes "LENGTH('a) \<le> 64" and "for_ok xs" and "xs \<noteq> []" and "width xs \<noteq> 0" and "Buffer_inv out"
  shows "\<exists>b. FOREncoder_Encode xs out = Inr b \<and> width xs < LENGTH('a) \<and>
    Buffer_Size b = Buffer_Size out + 2 * sizeof TYPE('a) + 1 +
      8 * ((length xs + 64 div width xs - 1) div (64 div width xs))"
proof -
  obtain b where b: "FOREncoder_Encode xs out = Inr b" "Buffer_inv b" "contents b = contents out @ for_image xs"
    using FOREncoder_Encode_contents [OF assms(1,2,5)] by blast
  obtain x ys where xs: "xs = x # ys" using assms(3) by (cases xs) auto
  have ok: "span xs < 2 ^ (LENGTH('a) - 1)" using assms(2) by (simp add: for_ok_def)
  have "length (for_words xs) = (length xs + 64 div width xs - 1) div (64 div width xs)"
    using for_words_facts(4) [OF xs assms(1) ok] width_facts(4) [OF assms(1) ok] assms(4) by simp
  then have "length (for_image xs) = 2 * sizeof TYPE('a) + 1 +
      8 * ((length xs + 64 div width xs - 1) div (64 div width xs))"
    using assms(3,4) by (simp add: for_image_def)
  then show ?thesis
    using b size_contents [OF b(2)] size_contents [OF assms(5)] width_facts(3) [OF assms(1) ok] by simp
qed

theorem for_encoded_size_witness:
  "\<exists>b. FOREncoder_Encode [5, 7, 300 :: 32 word] Buffer_empty = Inr b \<and> Buffer_Size b = 17"
proof -
  have w: "width [5, 7, 300 :: 32 word] = 9" by code_simp
  have "for_ok [5, 7, 300 :: 32 word]" by code_simp
  from for_encoded_size [OF _ this, of Buffer_empty] show ?thesis
    by (simp add: w) (simp add: Buffer_Size_def Buffer_empty_def)
qed

text \<open>a column of equal values needs no bits per value; the bit-packing encoder then allocates no
  packed word and still writes the first one, out of the bounds of its vector.\<close>

lemma bitpack_constant_column:
  "BitPackEncoder_Encode (replicate (Suc n) (c :: 32 word)) out = Inl OutOfBounds \<and>
   BitPackEncoder_Encode (replicate (Suc n) (d :: 64 word)) out = Inl OutOfBounds"
  using BitPackEncoder_constant [of n c out] BitPackEncoder_constant [of n d out] by simp

end
