(* ===== verification/PackedVectors.thy ===== *)
theory PackedVectors
  imports PackCodecs
begin

text \<open>
  The packed vectors of \<^verbatim>\<open>include/columnar/bitpack.h\<close> and \<^verbatim>\<open>include/columnar/for.h\<close>: offsets from the
  minimum of a column, packed contiguously into 64-bit words, with scalar, AVX2 and AVX-512
  decoders, and the zigzag variant. \<open>'a\<close> is the width of the column type. The offset is kept in
  the unsigned column type, so for 32-bit columns the left shift into the 64-bit word is a shift
  of a 32-bit operand; \<open>pack_store\<close> keeps this distinction.
\<close>

section \<open>Bit-packed vectors\<close>

record 'v BitPackedData =
  bpd_min_val :: 'v
  bpd_bits :: byte
  bpd_packed :: "u64 list"

text \<open>\<open>(bits == 64) ? ~0 : ((1 << bits) - 1)\<close> at the width of its operand.\<close>

definition low_mask_res :: "nat \<Rightarrow> 'u::len word res" where
  "low_mask_res bits =
     (if bits = 64 then Inr (- 1) else bind_res (shl_res 1 bits) (\<lambda>top. Inr (top - 1)))"

fun BitPack_Encode_loop ::
  "'a::len word \<Rightarrow> nat \<Rightarrow> 'a word \<Rightarrow> 'a word list \<Rightarrow> nat \<Rightarrow> u64 list \<Rightarrow> u64 list res" where
  "BitPack_Encode_loop min_val bits msk [] bit_pos packed = Inr packed"
| "BitPack_Encode_loop min_val bits msk (x # xs) bit_pos packed =
     bind_res (pack_store bits bit_pos ((x - min_val) AND msk) packed)
       (BitPack_Encode_loop min_val bits msk xs (bit_pos + bits))"

fun BitPack_Encode :: "'a::len word list \<Rightarrow> 'a word BitPackedData res" where
  "BitPack_Encode [] = Inr \<lparr>bpd_min_val = 0, bpd_bits = 0, bpd_packed = []\<rparr>"
| "BitPack_Encode (x # xs) =
     (let min_val = min_of x xs; max_val = max_of x xs; rng = max_val - min_val
      in bind_res (bits_loop_guarded rng 0) (\<lambda>bits.
           if bits = 0 then Inr \<lparr>bpd_min_val = min_val, bpd_bits = 0, bpd_packed = []\<rparr>
           else let packed = replicate ((length (x # xs) * bits + 63) div 64) 0
                in bind_res (low_mask_res bits) (\<lambda>msk.
                   bind_res (BitPack_Encode_loop min_val bits msk (x # xs) 0 packed) (\<lambda>packed.
                     Inr \<lparr>bpd_min_val = min_val, bpd_bits = of_nat bits, bpd_packed = packed\<rparr>))))"

definition BitPacked_Size :: "'a::len word BitPackedData \<Rightarrow> nat" where
  "BitPacked_Size d = length (bpd_packed d) * 8"

definition BitPack_Write :: "'a::len word BitPackedData \<Rightarrow> Buffer \<Rightarrow> Buffer" where
  "BitPack_Write d out =
     Buffer_AppendArray (bpd_packed d)
       (Buffer_AppendValue (of_nat (length (bpd_packed d)) :: u32)
         (Buffer_AppendValue (bpd_bits d) (Buffer_AppendValue (bpd_min_val d) out)))"

definition BitPack_Read :: "byte list \<Rightarrow> 'a::len word BitPackedData res" where
  "BitPack_Read src =
     bind_res (read_word src 0) (\<lambda>min_val :: 'a word.
     bind_res (read_word src (sizeof TYPE('a))) (\<lambda>bits :: byte.
     bind_res (read_word src (sizeof TYPE('a) + 1)) (\<lambda>num_words :: u32.
     bind_res (map_res (read_elem src (sizeof TYPE('a) + 5)) [0..<unat num_words]) (\<lambda>packed.
       Inr \<lparr>bpd_min_val = min_val, bpd_bits = bits, bpd_packed = packed\<rparr>))))"

text \<open>The scalar loop advances a bit position, the vectorised ones recompute it from the index.\<close>

fun unpack_loop ::
  "nat \<Rightarrow> u64 \<Rightarrow> (nat \<Rightarrow> u64 res) \<Rightarrow> 'a::len word \<Rightarrow> nat \<Rightarrow> nat \<Rightarrow> 'a word list res" where
  "unpack_loop bits msk rd base bit_pos 0 = Inr []"
| "unpack_loop bits msk rd base bit_pos (Suc n) =
     bind_res (pack_load bits msk rd bit_pos) (\<lambda>value.
     bind_res (sadd_res base (ucast value)) (\<lambda>v.
     bind_res (unpack_loop bits msk rd base (bit_pos + bits) n) (\<lambda>vs. Inr (v # vs))))"

definition unpack_at ::
  "nat \<Rightarrow> u64 \<Rightarrow> (nat \<Rightarrow> u64 res) \<Rightarrow> 'a::len word \<Rightarrow> nat \<Rightarrow> 'a word res" where
  "unpack_at bits msk rd base i =
     bind_res (pack_load bits msk rd (i * bits)) (\<lambda>value. sadd_res base (ucast value))"

definition BitPack_Decode :: "'a::len word BitPackedData \<Rightarrow> nat \<Rightarrow> 'a word list res" where
  "BitPack_Decode d count =
     (let bits = unat (bpd_bits d)
      in if count = 0 \<or> bits = 0 then Inr (replicate count (bpd_min_val d))
         else bind_res (low_mask_res bits) (\<lambda>msk :: 'a word.
                unpack_loop bits (ucast msk) (nth_res (bpd_packed d)) (bpd_min_val d) 0 count))"

text \<open>\<^verbatim>\<open>DecodeAvx512_64\<close> and the fallback of \<^verbatim>\<open>DecodeAvx512_32\<close>: the mask is 64 bits wide.\<close>

definition BitPack_Decode_indexed :: "'a::len word BitPackedData \<Rightarrow> nat \<Rightarrow> 'a word list res" where
  "BitPack_Decode_indexed d count =
     (let bits = unat (bpd_bits d)
      in if count = 0 \<or> bits = 0 then Inr (replicate count (bpd_min_val d))
         else bind_res (low_mask_res bits) (\<lambda>msk.
                map_res (unpack_at bits msk (nth_res (bpd_packed d)) (bpd_min_val d)) [0..<count]))"

definition BitPack_DecodeAvx2_32 :: "u32 BitPackedData \<Rightarrow> nat \<Rightarrow> u32 list res" where
  "BitPack_DecodeAvx2_32 d count =
     (let bits = unat (bpd_bits d)
      in if count = 0 \<or> bits = 0 then Inr (replicate count (bpd_min_val d))
         else bind_res (low_mask_res bits) (\<lambda>msk.
                let at = unpack_at bits msk (nth_res (bpd_packed d)) (bpd_min_val d)
                in block_loop 8 (\<lambda>i. map_res (\<lambda>j. at (i + j)) [0..<8]) at 0 count))"

text \<open>Sixteen 32-bit lanes loaded from a word array.\<close>

definition load_lanes :: "u64 list \<Rightarrow> nat \<Rightarrow> u32 list res" where
  "load_lanes packed k =
     map_res (\<lambda>j. bind_res (nth_res packed (k + j div 2)) (\<lambda>w. Inr (ucast (drop_bit (32 * (j mod 2)) w))))
       [0..<16]"

definition BitPack_DecodeAvx512_32 :: "u32 BitPackedData \<Rightarrow> nat \<Rightarrow> u32 list res" where
  "BitPack_DecodeAvx512_32 d count =
     (let bits = unat (bpd_bits d)
      in if count = 0 \<or> bits = 0 then Inr (replicate count (bpd_min_val d))
         else bind_res (low_mask_res bits) (\<lambda>msk.
                let at = unpack_at bits msk (nth_res (bpd_packed d)) (bpd_min_val d)
                in block_loop 16
                     (\<lambda>i. if i * bits mod 64 = 0 \<and> bits = 32
                          then bind_res (load_lanes (bpd_packed d) (i * bits div 64))
                                 (\<lambda>v. Inr (map (\<lambda>a. a + bpd_min_val d) v))
                          else map_res (\<lambda>j. at (i + j)) [0..<16]) at 0 count))"

text \<open>The same in a build without AVX-512.\<close>

definition BitPack_DecodeAvx512_32_portable :: "u32 BitPackedData \<Rightarrow> nat \<Rightarrow> u32 list res" where
  "BitPack_DecodeAvx512_32_portable d count =
     (let bits = unat (bpd_bits d)
      in if count = 0 \<or> bits = 0 then Inr (replicate count (bpd_min_val d))
         else bind_res (low_mask_res bits) (\<lambda>msk.
                map_res (unpack_at bits msk (nth_res (bpd_packed d)) (bpd_min_val d)) [0..<count]))"

section \<open>Frame-of-reference vectors\<close>

fun ForEncoder_loop ::
  "'a::len word \<Rightarrow> nat \<Rightarrow> 'a word list \<Rightarrow> nat \<Rightarrow> u64 list \<Rightarrow> u64 list res" where
  "ForEncoder_loop min_val bits [] bit_pos packed = Inr packed"
| "ForEncoder_loop min_val bits (x # xs) bit_pos packed =
     bind_res (pack_store bits bit_pos (x - min_val) packed)
       (ForEncoder_loop min_val bits xs (bit_pos + bits))"

fun ForEncoder_Encode :: "'a::len word list \<Rightarrow> Buffer \<Rightarrow> Buffer res" where
  "ForEncoder_Encode [] out = Inr out"
| "ForEncoder_Encode (x # xs) out =
     (let min_val = min_of x xs; max_val = max_of x xs; rng = max_val - min_val
      in bind_res (bits_loop_guarded rng 0) (\<lambda>bits.
           let out1 = Buffer_AppendValue (of_nat (length (x # xs)) :: u32)
                        (Buffer_AppendValue (of_nat bits :: byte) (Buffer_AppendValue min_val out))
           in if bits = 0 then Inr out1
              else let packed = replicate ((length (x # xs) * bits + 63) div 64) 0
                   in bind_res (ForEncoder_loop min_val bits (x # xs) 0 packed)
                        (\<lambda>packed. Inr (Buffer_AppendRaw packed (length packed * 8) out1))))"

text \<open>\<^verbatim>\<open>sizeof(ForHeader)\<close>: the value, one byte, and a 32-bit count at a multiple of four.\<close>

definition sizeof_ForHeader :: "'a::len itself \<Rightarrow> nat" where
  "sizeof_ForHeader T = (if sizeof T = 8 then 16 else 12)"

fun ForEncoder_EstimateSize :: "'a::len word list \<Rightarrow> nat res" where
  "ForEncoder_EstimateSize [] = Inr (sizeof_ForHeader TYPE('a))"
| "ForEncoder_EstimateSize (x # xs) =
     bind_res (bits_loop_guarded (max_of x xs - min_of x xs) 0) (\<lambda>bits.
       Inr (sizeof_ForHeader TYPE('a) + (length (x # xs) * bits + 63) div 64 * 8))"

text \<open>The header every decoder reads: base, width, count.\<close>

definition For_header :: "byte list \<Rightarrow> ('a::len word \<times> nat) res" where
  "For_header src =
     bind_res (read_word src 0) (\<lambda>base :: 'a word.
     bind_res (read_word src (sizeof TYPE('a))) (\<lambda>bits :: byte.
     bind_res (read_word src (sizeof TYPE('a) + 1)) (\<lambda>stored_count :: u32.
       Inr (base, unat bits))))"

definition ForDecoder_Decode :: "byte list \<Rightarrow> 'a::len word list \<Rightarrow> 'a word list res" where
  "ForDecoder_Decode src dst =
     (if length dst = 0 then Inr dst
      else bind_res (For_header src) (\<lambda>(base :: 'a word, bits).
             if bits = 0 then Inr (replicate (length dst) base)
             else bind_res (low_mask_res bits) (\<lambda>msk :: u64.
                    unpack_loop bits (ucast (ucast msk :: 'a word))
                      (read_elem src (sizeof TYPE('a) + 5)) base 0 (length dst))))"

definition ForDecoder_DecodeAvx2_32 :: "byte list \<Rightarrow> u32 list \<Rightarrow> u32 list res" where
  "ForDecoder_DecodeAvx2_32 src dst =
     bind_res (For_header src) (\<lambda>(base, bits).
       if bits = 0 then Inr (replicate (length dst) base)
       else bind_res (low_mask_res bits) (\<lambda>msk.
              map_res (unpack_at bits msk (read_elem src 9) base) [0..<length dst]))"

text \<open>\<^verbatim>\<open>DecodeAvx512_32\<close> in a build without AVX-512.\<close>

definition ForDecoder_DecodeAvx512_32_portable :: "byte list \<Rightarrow> u32 list \<Rightarrow> u32 list res" where
  "ForDecoder_DecodeAvx512_32_portable src dst =
     bind_res (For_header src) (\<lambda>(base, bits).
       if bits = 0 then Inr (replicate (length dst) base)
       else bind_res (low_mask_res bits) (\<lambda>msk.
              map_res (unpack_at bits msk (read_elem src 9) base) [0..<length dst]))"

text \<open>\<^verbatim>\<open>_mm512_srlv_epi32\<close> on the low 128 bits repeated four times: lane \<open>j\<close> holds word \<open>j mod 4\<close>
  shifted by \<open>j * bits\<close>, and 0 when the count is at least 32.\<close>

definition srlv_broadcast :: "nat \<Rightarrow> u32 list \<Rightarrow> u32 list" where
  "srlv_broadcast bits load =
     map (\<lambda>j. if j * bits < 32 then drop_bit (j * bits) (load ! (j mod 4)) else 0) [0..<16]"

definition ForDecoder_DecodeAvx512_32 :: "byte list \<Rightarrow> u32 list \<Rightarrow> u32 list res" where
  "ForDecoder_DecodeAvx512_32 src dst =
     bind_res (For_header src) (\<lambda>(base, bits).
       if bits = 0 then Inr (replicate (length dst) base)
       else bind_res (low_mask_res bits) (\<lambda>msk :: u64.
         let at = unpack_at bits msk (read_elem src 9) base
         in block_loop 16
              (\<lambda>i. if i * bits mod 64 + 16 * bits \<le> 512 \<and> bits \<le> 32
                   then bind_res (map_res (read_elem src (9 + i * bits div 64 * 8)) [0..<16]) (\<lambda>load.
                        if bits \<le> 16
                        then Inr (map (\<lambda>a. (a AND ucast msk) + base) (srlv_broadcast bits load))
                        else map_res (\<lambda>j. at (i + j)) [0..<16])
                   else map_res (\<lambda>j. at (i + j)) [0..<16])
              at 0 (length dst)))"

section \<open>Zigzag\<close>

definition ZigZag_Encode :: "'a::len word \<Rightarrow> 'a word" where
  "ZigZag_Encode v = push_bit 1 v XOR drop_bit (LENGTH('a) - 1) v"

definition ZigZag_Decode :: "'a::len word \<Rightarrow> 'a word" where
  "ZigZag_Decode v = drop_bit 1 v XOR (- (v AND 1))"

definition zz_min :: "'a::len word \<Rightarrow> 'a word list \<Rightarrow> 'a word" where
  "zz_min x xs = fold (\<lambda>y m. if ZigZag_Encode y < m then ZigZag_Encode y else m) xs (ZigZag_Encode x)"

definition zz_max :: "'a::len word \<Rightarrow> 'a word list \<Rightarrow> 'a word" where
  "zz_max x xs = fold (\<lambda>y m. if m < ZigZag_Encode y then ZigZag_Encode y else m) xs (ZigZag_Encode x)"

fun ForZigZagEncoder_Encode :: "'a::len word list \<Rightarrow> Buffer \<Rightarrow> Buffer res" where
  "ForZigZagEncoder_Encode [] out = Inr out"
| "ForZigZagEncoder_Encode (x # xs) out =
     (let min_zz = zz_min x xs; max_zz = zz_max x xs; min_val = ZigZag_Decode min_zz
      in bind_res (bits_loop_guarded (max_zz - min_zz) 0) (\<lambda>bits.
           let out1 = Buffer_AppendValue (of_nat (length (x # xs)) :: u32)
                        (Buffer_AppendValue (of_nat bits :: byte) (Buffer_AppendValue min_val out))
           in if bits = 0 then Inr out1
              else let packed = replicate ((length (x # xs) * bits + 63) div 64) 0
                   in bind_res (ForEncoder_loop min_zz bits (map ZigZag_Encode (x # xs)) 0 packed)
                        (\<lambda>packed. Inr (Buffer_AppendRaw packed (length packed * 8) out1))))"

fun zigzag_unpack ::
  "nat \<Rightarrow> u64 \<Rightarrow> (nat \<Rightarrow> u64 res) \<Rightarrow> 'a::len word \<Rightarrow> nat \<Rightarrow> nat \<Rightarrow> 'a word list res" where
  "zigzag_unpack bits msk rd base bit_pos 0 = Inr []"
| "zigzag_unpack bits msk rd base bit_pos (Suc n) =
     bind_res (pack_load bits msk rd bit_pos) (\<lambda>delta.
     bind_res (zigzag_unpack bits msk rd base (bit_pos + bits) n) (\<lambda>vs.
       Inr (ZigZag_Decode (ZigZag_Decode base + ucast delta) # vs)))"

definition ForZigZagDecoder_Decode :: "byte list \<Rightarrow> 'a::len word list \<Rightarrow> 'a word list res" where
  "ForZigZagDecoder_Decode src dst =
     (if length dst = 0 then Inr dst
      else bind_res (For_header src) (\<lambda>(base :: 'a word, bits).
             if bits = 0 then Inr (replicate (length dst) base)
             else bind_res (low_mask_res bits) (\<lambda>msk :: u64.
                    zigzag_unpack bits (ucast (ucast msk :: 'a word))
                      (read_elem src (sizeof TYPE('a) + 5)) base 0 (length dst))))"

section \<open>Facts on masks and loops\<close>

lemma low_mask_res_small:
  assumes "bits < LENGTH('u::len)" and "LENGTH('u) \<le> 64"
  shows "low_mask_res bits = Inr (2 ^ bits - 1 :: 'u word)"
  using assms by (simp add: low_mask_res_def shl_res_def)

lemma low_mask_res_widen:
  assumes "low_mask_res bits = Inr (m :: 'a::len word)" and "LENGTH('a) \<le> 64"
  shows "\<exists>m' :: u64. low_mask_res bits = Inr m' \<and> m = ucast m'"
proof (cases "bits = 64")
  case True
  then have "m = ucast (- 1 :: u64)"
    using assms by (simp add: low_mask_res_def bit_eq_iff bit_unsigned_iff bit_minus_1_iff possible_bit_word)
  with True show ?thesis by (simp add: low_mask_res_def)
next
  case False
  then have b: "bits < LENGTH('a)" and m: "m = 2 ^ bits - 1"
    using assms(1) by (auto simp: low_mask_res_def shl_res_def split: if_splits)
  have "m = ucast (2 ^ bits - 1 :: u64)"
    using b assms(2) by (intro bit_word_eqI) (simp add: m bit_low_mask bit_unsigned_iff)
  moreover have "low_mask_res bits = Inr (2 ^ bits - 1 :: u64)"
    using b assms(2) by (intro low_mask_res_small) simp_all
  ultimately show ?thesis by blast
qed

lemma ucast_and_truncated_mask:
  "ucast (w AND ucast (ucast m :: 'a::len word)) = (ucast (w AND m) :: 'a word)"
  for w m :: u64
  by (rule bit_word_eqI) (auto simp: bit_unsigned_iff bit_and_iff dest: bit_imp_le_length)

text \<open>Truncating the mask to the column type makes no difference after the truncation of the value.\<close>

lemma pack_load_truncated_mask:
  "bind_res (pack_load bits (ucast (ucast m :: 'a::len word)) rd p) (\<lambda>v. f (ucast v :: 'a word)) =
   bind_res (pack_load bits m rd p) (\<lambda>v. f (ucast v))"
  for m :: u64 and rd :: "nat \<Rightarrow> u64 res"
  by (simp add: pack_load_def Let_def bind_res_assoc ucast_and_truncated_mask)

lemma unpack_at_truncated_mask:
  "unpack_at bits (ucast (ucast m :: 'a::len word)) rd (base :: 'a word) = unpack_at bits m rd base"
  by (rule ext) (simp only: unpack_at_def pack_load_truncated_mask [where f = "sadd_res base"])

lemma unpack_loop_indexed:
  "unpack_loop bits msk rd base (i * bits) n = map_res (unpack_at bits msk rd base) [i..<i + n]"
proof (induction n arbitrary: i)
  case 0
  then show ?case by simp
next
  case (Suc n)
  have "i * bits + bits = Suc i * bits" by simp
  then have "unpack_loop bits msk rd base (i * bits + bits) n =
      map_res (unpack_at bits msk rd base) [Suc i..<Suc i + n]"
    using Suc [of "Suc i"] by (simp only:)
  moreover have "[i..<i + Suc n] = i # [Suc i..<Suc i + n]" by (simp add: upt_conv_Cons)
  ultimately show ?case by (simp add: unpack_at_def [of _ _ _ _ i] bind_res_assoc del: upt_Suc)
qed

lemma map_res_shift: "map_res (\<lambda>j. f (i + j)) [0..<w] = map_res f [i..<i + w]"
proof -
  have "map_res (\<lambda>j. f (i + j)) xs = map_res f (map ((+) i) xs)" for xs
    by (induction xs) simp_all
  moreover have "map ((+) i) [0..<w] = [i..<i + w]"
    by (simp add: list_eq_iff_nth_eq)
  ultimately show ?thesis by simp
qed

section \<open>The vectorised decoders\<close>

lemma BitPack_Decode_indexed_eq:
  fixes d :: "'a::len word BitPackedData"
  assumes "LENGTH('a) \<le> 64" and "BitPack_Decode d n = Inr ys"
  shows "BitPack_Decode_indexed d n = Inr ys"
proof (cases "n = 0 \<or> unat (bpd_bits d) = 0")
  case True
  then show ?thesis using assms(2) by (auto simp: BitPack_Decode_def BitPack_Decode_indexed_def Let_def)
next
  case False
  then obtain m :: "'a word" where m: "low_mask_res (unat (bpd_bits d)) = Inr m"
    and ys: "unpack_loop (unat (bpd_bits d)) (ucast m) (nth_res (bpd_packed d)) (bpd_min_val d) (0 * unat (bpd_bits d)) n =
      Inr ys"
    using assms(2) by (auto simp: BitPack_Decode_def Let_def bind_res_Inr_iff)
  obtain m' :: u64 where m': "low_mask_res (unat (bpd_bits d)) = Inr m'" "m = ucast m'"
    using low_mask_res_widen [OF m assms(1)] by blast
  show ?thesis
    using ys unfolding unpack_loop_indexed m'(2) unpack_at_truncated_mask
    using False by (simp add: BitPack_Decode_indexed_def Let_def m'(1))
qed

lemma BitPack_DecodeAvx2_indexed: "BitPack_DecodeAvx2_32 d n = BitPack_Decode_indexed d n"
  by (simp add: BitPack_DecodeAvx2_32_def BitPack_Decode_indexed_def Let_def map_res_shift
      block_loop_scalar)

lemma BitPack_DecodeAvx512_indexed:
  "unat (bpd_bits d) \<noteq> 32 \<Longrightarrow> BitPack_DecodeAvx512_32 d n = BitPack_Decode_indexed d n"
  by (simp add: BitPack_DecodeAvx512_32_def BitPack_Decode_indexed_def Let_def map_res_shift
      block_loop_scalar)

text \<open>The scalar decoder of 32-bit columns is undefined at 32 bits, so the load of whole lanes is
  outside its domain.\<close>

lemma BitPack_Decode_32_undefined:
  fixes d :: "u32 BitPackedData"
  assumes "unat (bpd_bits d) = 32" and "0 < n"
  shows "BitPack_Decode d n = Inl ShiftTooWide"
  using assms by (simp add: BitPack_Decode_def Let_def low_mask_res_def shl_res_def)

text \<open>The public decoders select by the width of the value and, for AVX-512, by the build.\<close>

definition BitPack_DecodeAvx512_Int32 :: "bool \<Rightarrow> u32 BitPackedData \<Rightarrow> nat \<Rightarrow> u32 list res" where
  "BitPack_DecodeAvx512_Int32 avx512 d count =
     (if avx512 then BitPack_DecodeAvx512_32 d count else BitPack_Decode d count)"

definition BitPack_DecodeAvx512_Int64 :: "bool \<Rightarrow> u64 BitPackedData \<Rightarrow> nat \<Rightarrow> u64 list res" where
  "BitPack_DecodeAvx512_Int64 avx512 d count =
     (if avx512 then BitPack_Decode_indexed d count else BitPack_Decode d count)"

definition BitPack_DecodeAvx2_Int32 :: "u32 BitPackedData \<Rightarrow> nat \<Rightarrow> u32 list res" where
  "BitPack_DecodeAvx2_Int32 = BitPack_DecodeAvx2_32"

definition BitPack_DecodeAvx2_Int64 :: "u64 BitPackedData \<Rightarrow> nat \<Rightarrow> u64 list res" where
  "BitPack_DecodeAvx2_Int64 = BitPack_Decode"

definition ForDecoder_DecodeAvx512_Int32 :: "bool \<Rightarrow> byte list \<Rightarrow> u32 list \<Rightarrow> u32 list res" where
  "ForDecoder_DecodeAvx512_Int32 avx512 src dst =
     (if avx512 then ForDecoder_DecodeAvx512_32 src dst else ForDecoder_Decode src dst)"

definition ForDecoder_DecodeAvx512_Int64 :: "bool \<Rightarrow> byte list \<Rightarrow> u64 list \<Rightarrow> u64 list res" where
  "ForDecoder_DecodeAvx512_Int64 avx512 src dst = ForDecoder_Decode src dst"

definition ForDecoder_DecodeAvx2_Int32 :: "byte list \<Rightarrow> u32 list \<Rightarrow> u32 list res" where
  "ForDecoder_DecodeAvx2_Int32 = ForDecoder_DecodeAvx2_32"

definition ForDecoder_DecodeAvx2_Int64 :: "byte list \<Rightarrow> u64 list \<Rightarrow> u64 list res" where
  "ForDecoder_DecodeAvx2_Int64 = ForDecoder_Decode"

lemma portable_fallbacks:
  "BitPack_DecodeAvx512_32_portable d n = BitPack_Decode_indexed d n"
  "ForDecoder_DecodeAvx512_32_portable src dst = ForDecoder_DecodeAvx2_32 src dst"
  by (simp_all only: BitPack_DecodeAvx512_32_portable_def BitPack_Decode_indexed_def
      ForDecoder_DecodeAvx512_32_portable_def ForDecoder_DecodeAvx2_32_def)

lemma ForDecoder_DecodeAvx2_eq:
  assumes "dst \<noteq> []"
  shows "ForDecoder_DecodeAvx2_32 src dst = ForDecoder_Decode src dst"
proof -
  have "unpack_loop bits (ucast (ucast msk :: u32)) rd (base :: u32) 0 n =
      map_res (unpack_at bits msk rd base) [0..<n]" for bits msk rd base n
    using unpack_loop_indexed [of bits "ucast (ucast msk :: u32)" rd base 0 n]
    by (simp add: unpack_at_truncated_mask)
  then show ?thesis
    using assms by (auto simp: ForDecoder_DecodeAvx2_32_def ForDecoder_Decode_def intro!: bind_res_cong)
qed

text \<open>The AVX-512 decoder loads 64 bytes for every 16 values, whatever their width.\<close>

lemma map_res_Inl_at:
  assumes "k < length xs" and "f (xs ! k) = Inl e" and "\<And>x e'. x \<in> set xs \<Longrightarrow> f x = Inl e' \<Longrightarrow> e' = e"
  shows "map_res f xs = Inl e"
  using assms
proof (induction xs arbitrary: k)
  case Nil
  then show ?case by simp
next
  case (Cons x xs)
  show ?case
  proof (cases "f x")
    case (Inl e')
    then show ?thesis using Cons.prems(3) [of x e'] by simp
  next
    case (Inr y)
    then have "0 < k" using Cons.prems(2) by (cases k) auto
    then have "map_res f xs = Inl e"
      using Cons.prems by (intro Cons.IH [of "k - 1"]) auto
    then show ?thesis using Inr by simp
  qed
qed

lemma ForDecoder_DecodeAvx512_overread:
  assumes "For_header src = Inr (base :: u32, bits)" and "0 < bits" and "bits \<le> 32"
    and "length src < 9 + 64" and "16 \<le> length dst"
  shows "ForDecoder_DecodeAvx512_32 src dst = Inl OutOfBounds"
proof -
  have "map_res (read_elem src 9 :: nat \<Rightarrow> u32 res) [0..<16] = Inl OutOfBounds"
    using assms(4) by (intro map_res_Inl_at [of 15])
      (auto simp: read_elem_def read_word_def split: if_splits)
  then show ?thesis
    using assms by (simp add: ForDecoder_DecodeAvx512_32_def Let_def block_loop.simps [of 16 _ _ 0]
        low_mask_res_small)
qed

section \<open>64-bit columns\<close>

lemma ForEncoder_loop_pack_all:
  "ForEncoder_loop m bits xs (contiguous_pos bits i) packed =
   pack_all bits (contiguous_pos bits) i (map (\<lambda>x. x - m) xs) packed"
proof (induction xs arbitrary: i packed)
  case Nil
  then show ?case by simp
next
  case (Cons x xs)
  have "contiguous_pos bits i + bits = contiguous_pos bits (Suc i)" by (simp add: contiguous_pos_def)
  with Cons show ?case by (simp cong: bind_res_cong)
qed

lemma BitPack_Encode_loop_pack_all:
  "BitPack_Encode_loop m bits msk xs (contiguous_pos bits i) packed =
   pack_all bits (contiguous_pos bits) i (map (\<lambda>x. (x - m) AND msk) xs) packed"
proof (induction xs arbitrary: i packed)
  case Nil
  then show ?case by simp
next
  case (Cons x xs)
  have "contiguous_pos bits i + bits = contiguous_pos bits (Suc i)" by (simp add: contiguous_pos_def)
  with Cons show ?case by (simp cong: bind_res_cong)
qed

lemma and_low_mask_id:
  fixes v :: "'u::len word"
  assumes "unat v < 2 ^ b" and "b \<le> LENGTH('u)"
  shows "v AND (2 ^ b - 1) = v"
  using assms by (auto simp: bit_eq_iff bit_and_iff bit_low_mask dest: bit_below)

lemma width_64:
  fixes x :: u64
  assumes "span (x # xs) < 2 ^ 63"
  shows "bits_loop_guarded (max_of x xs - min_of x xs) 0 = Inr (width (x # xs))"
    and "width (x # xs) < 64" and "unat (of_nat (width (x # xs)) :: byte) = width (x # xs)"
proof -
  have "max_of x xs - min_of x xs = word_of_int (span (x # xs))" by simp
  moreover have "bits_loop (word_of_int (span (x # xs)) :: u64) 0 = Inr (width (x # xs))"
    using assms by (intro width_facts(1)) simp_all
  ultimately show "bits_loop_guarded (max_of x xs - min_of x xs) 0 = Inr (width (x # xs))"
    by (simp add: bits_loop_guarded_eq)
  show w: "width (x # xs) < 64" using width_facts(3) [of "x # xs"] assms by simp
  then show "unat (of_nat (width (x # xs)) :: byte) = width (x # xs)" by (simp add: unat_of_nat)
qed

text \<open>Unpacking the words of a column yields the column, whoever reads the words.\<close>

lemma unpack_words:
  fixes x :: u64
  assumes ok: "span (x # ys) < 2 ^ 63" "span (x # ys) \<noteq> 0"
    and rd: "\<And>k. k < length (bitpack_words (x # ys)) \<Longrightarrow> rd k = Inr (bitpack_words (x # ys) ! k)"
  shows "unpack_loop (width (x # ys)) (2 ^ width (x # ys) - 1) rd (min_of x ys) 0 (length (x # ys)) =
    Inr (x # ys)"
proof -
  let ?xs = "x # ys" and ?b = "width (x # ys)" and ?ws = "bitpack_words (x # ys)"
  have ok': "span ?xs < 2 ^ (LENGTH(64) - 1)" using ok(1) by simp
  have b: "0 < ?b" "?b \<le> LENGTH(64)" using width_facts(3,4) [of ?xs] ok by auto
  have "unpack_at ?b (2 ^ ?b - 1) rd (min_of x ys) i = Inr (?xs ! i)" if i: "i < length ?xs" for i
  proof -
    have off: "offsets ?xs ! i = ?xs ! i - min_of x ys"
      using i unfolding offsets_Cons by (rule nth_map)
    note mem = nth_mem [OF i]
    have "pack_load ?b (2 ^ ?b - 1) rd (contiguous_pos ?b i) = Inr (ucast (offsets ?xs ! i))"
    proof (rule contiguous.pack_load_slot [OF refl _ b, where ws = ?ws])
      show "holds_slots ?b (contiguous_pos ?b) (offsets ?xs) ?ws"
        and "contiguous_pos ?b i + ?b \<le> length ?ws * LENGTH(64)"
        using bitpack_words_facts(2,3) [OF _ _ ok' ok(2)] i by auto
      show "i < length (offsets ?xs)" using i by simp
      show "unat (offsets ?xs ! i) < 2 ^ ?b" unfolding off by (rule offset_small [OF _ ok' mem]) simp
      show "bit (2 ^ ?b - 1 :: u64) j \<longleftrightarrow> j < ?b" for j using b(2) by (rule bit_low_mask)
    qed (simp_all add: rd)
    then show ?thesis
      using offset_facts(5) [OF ok' mem] by (simp add: unpack_at_def contiguous_pos_def off)
  qed
  then have "map_res (unpack_at ?b (2 ^ ?b - 1) rd (min_of x ys)) [0..<length ?xs] = Inr ?xs"
    by (rule map_res_upt_nth)
  then show ?thesis using unpack_loop_indexed [of ?b "2 ^ ?b - 1" rd "min_of x ys" 0 "length ?xs"] by simp
qed

lemma pack_words:
  fixes x :: u64
  assumes "span (x # ys) < 2 ^ 63" and "span (x # ys) \<noteq> 0"
  defines "n \<equiv> (length (x # ys) * width (x # ys) + 63) div 64"
  shows "ForEncoder_loop (min_of x ys) (width (x # ys)) (x # ys) 0 (replicate n 0) =
      Inr (bitpack_words (x # ys))"
    and "BitPack_Encode_loop (min_of x ys) (width (x # ys)) (2 ^ width (x # ys) - 1) (x # ys) 0
      (replicate n 0) = Inr (bitpack_words (x # ys))"
    and "length (bitpack_words (x # ys)) = n"
proof -
  let ?xs = "x # ys" and ?b = "width (x # ys)"
  have ok': "span ?xs < 2 ^ (LENGTH(64) - 1)" using assms(1) by simp
  have p: "pack_all ?b (contiguous_pos ?b) 0 (offsets ?xs) (replicate n (0 :: u64)) =
      Inr (bitpack_words ?xs)"
    using bitpack_words_facts(1) [OF _ _ ok' assms(2)] by (simp add: n_def ac_simps)
  have z: "contiguous_pos ?b 0 = 0" by (simp add: contiguous_pos_def)
  show f: "ForEncoder_loop (min_of x ys) ?b ?xs 0 (replicate n 0) = Inr (bitpack_words ?xs)"
    using p ForEncoder_loop_pack_all [of "min_of x ys" ?b ?xs 0] unfolding offsets_Cons z by simp
  have "map (\<lambda>v. (v - min_of x ys) AND (2 ^ ?b - 1)) ?xs = map (\<lambda>v. v - min_of x ys) ?xs"
    using offset_small [OF _ ok'] width_64(2) [OF assms(1)]
    by (intro map_cong refl and_low_mask_id) simp_all
  then show "BitPack_Encode_loop (min_of x ys) ?b (2 ^ ?b - 1) ?xs 0 (replicate n 0) =
      Inr (bitpack_words ?xs)"
    using p BitPack_Encode_loop_pack_all [of "min_of x ys" ?b "2 ^ ?b - 1" ?xs 0]
    unfolding offsets_Cons z by (simp only:)
  show "length (bitpack_words ?xs) = n"
    using pack_all_length [OF p] by simp
qed

lemma width_0_constant:
  fixes x :: u64
  assumes "span (x # ys) = 0"
  shows "width (x # ys) = 0" and "replicate (length (x # ys)) (min_of x ys) = x # ys"
proof -
  show "width (x # ys) = 0" using width_facts(4) [of "x # ys"] assms by simp
  have "y = min_of x ys" if "y \<in> set (x # ys)" for y
  proof -
    have "sint y = sint (min_of x ys)"
      using min_of_le [OF that] max_of_ge [OF that] assms by simp
    then show ?thesis by (simp only: sint_inj)
  qed
  then show "replicate (length (x # ys)) (min_of x ys) = x # ys"
    by (intro replicate_length_same) blast
qed

lemma BitPack_Encode_64:
  fixes x :: u64
  assumes "span (x # ys) < 2 ^ 63"
  shows "BitPack_Encode (x # ys) =
    Inr \<lparr>bpd_min_val = min_of x ys, bpd_bits = of_nat (width (x # ys)),
      bpd_packed = (if span (x # ys) = 0 then [] else bitpack_words (x # ys))\<rparr>"
proof (cases "span (x # ys) = 0")
  case True
  then show ?thesis using width_64(1) [OF assms] by (simp add: width_0_constant(1) del: span.simps)
next
  case False
  then have "width (x # ys) \<noteq> 0" using width_facts(4) [of "x # ys"] assms by simp
  then show ?thesis
    using False pack_words(2) [OF assms False] width_64(1,2) [OF assms]
    by (simp add: low_mask_res_small Let_def del: span.simps BitPack_Encode_loop.simps)
qed

lemma BitPack_round_trip_64:
  fixes xs :: "u64 list"
  assumes "span xs < 2 ^ 63"
  shows "\<exists>d. BitPack_Encode xs = Inr d \<and> BitPack_Decode d (length xs) = Inr xs \<and>
    length (bpd_packed d) \<le> length xs"
proof (cases xs)
  case Nil
  then show ?thesis by (simp add: BitPack_Decode_def)
next
  case (Cons x ys)
  have ok: "span (x # ys) < 2 ^ 63" using assms Cons by simp
  show ?thesis
  proof (cases "span (x # ys) = 0")
    case True
    then show ?thesis
      using width_0_constant [OF True]
      unfolding Cons BitPack_Encode_64 [OF ok] by (auto simp: BitPack_Decode_def simp del: span.simps)
  next
    case False
    then have w: "width (x # ys) \<noteq> 0" using width_facts(4) [of "x # ys"] ok by simp
    have "ucast (2 ^ width (x # ys) - 1 :: u64) = (2 ^ width (x # ys) - 1 :: u64)" by simp
    then have "BitPack_Decode \<lparr>bpd_min_val = min_of x ys, bpd_bits = of_nat (width (x # ys)),
        bpd_packed = bitpack_words (x # ys)\<rparr> (length (x # ys)) = Inr (x # ys)"
      using unpack_words [OF ok False, of "nth_res (bitpack_words (x # ys))"] w width_64(2,3) [OF ok]
      by (simp add: BitPack_Decode_def Let_def low_mask_res_small nth_res_def
          del: span.simps unpack_loop.simps)
    moreover have "length (bitpack_words (x # ys)) \<le> length (x # ys)"
    proof -
      have "length (x # ys) * width (x # ys) + 63 < Suc (length (x # ys)) * 64"
        using mult_le_mono2 [of "width (x # ys)" 63 "length (x # ys)"] width_64(2) [OF ok] by simp
      then have "(length (x # ys) * width (x # ys) + 63) div 64 < Suc (length (x # ys))"
        by (rule less_mult_imp_div_less)
      then show ?thesis using pack_words(3) [OF ok False] by simp
    qed
    ultimately show ?thesis
      using False unfolding Cons BitPack_Encode_64 [OF ok] by (simp del: span.simps)
  qed
qed

text \<open>Serialisation.\<close>

lemma BitPack_Write_Read:
  fixes d :: "'a::len word BitPackedData"
  assumes "8 dvd LENGTH('a)" and "length (bpd_packed d) < 2 ^ 32" and "Buffer_inv out" and "contents out = []"
  shows "BitPack_Read (contents (BitPack_Write d out)) = Inr d"
proof -
  let ?mn = "bytes_of (bpd_min_val d)" and ?b = "bytes_of (bpd_bits d)"
  let ?n = "of_nat (length (bpd_packed d)) :: u32"
  have c: "contents (BitPack_Write d out) = ?mn @ ?b @ bytes_of ?n @ bytes_of_array (bpd_packed d)"
    using assms(3,4) by (simp add: BitPack_Write_def)
  have n: "unat ?n = length (bpd_packed d)" using assms(2) by (simp add: unat_of_nat)
  have r: "read_word (?mn @ ?b @ bytes_of ?n @ bytes_of_array (bpd_packed d)) 0 = Inr (bpd_min_val d)"
    "read_word (?mn @ ?b @ bytes_of ?n @ bytes_of_array (bpd_packed d)) (sizeof TYPE('a)) = Inr (bpd_bits d)"
    using assms(1) read_word_append [of "[]" 0 "bpd_min_val d"]
      read_word_append [of ?mn "sizeof TYPE('a)" "bpd_bits d"] by simp_all
  have "read_word ((?mn @ ?b) @ bytes_of ?n @ bytes_of_array (bpd_packed d)) (sizeof TYPE('a) + 1) = Inr ?n"
    by (rule read_word_append) simp_all
  then have r2: "read_word (?mn @ ?b @ bytes_of ?n @ bytes_of_array (bpd_packed d)) (sizeof TYPE('a) + 1) =
      Inr ?n" by simp
  have "read_elem ((?mn @ ?b @ bytes_of ?n) @ bytes_of_array (bpd_packed d) @ []) (sizeof TYPE('a) + 5) i =
      Inr (bpd_packed d ! i)" if "i < length (bpd_packed d)" for i
    using that by (intro read_elem_append) simp_all
  then have "map_res (read_elem (?mn @ ?b @ bytes_of ?n @ bytes_of_array (bpd_packed d)) (sizeof TYPE('a) + 5))
      [0..<length (bpd_packed d)] = Inr (bpd_packed d)"
    by (intro map_res_upt_nth) simp
  then show ?thesis unfolding c BitPack_Read_def r bind_res.simps r2 n by simp
qed

text \<open>The frame-of-reference block of a 64-bit column.\<close>

fun for_vector_image :: "u64 list \<Rightarrow> byte list" where
  "for_vector_image [] = []"
| "for_vector_image (x # xs) =
     bytes_of (min_of x xs) @ bytes_of (of_nat (width (x # xs)) :: byte) @
     bytes_of (of_nat (length (x # xs)) :: u32) @
     (if span (x # xs) = 0 then [] else bytes_of_array (bitpack_words (x # xs)))"

lemma ForEncoder_Encode_contents:
  fixes xs :: "u64 list"
  assumes "for_ok xs" and "Buffer_inv out"
  shows "\<exists>b. ForEncoder_Encode xs out = Inr b \<and> Buffer_inv b \<and>
    contents b = contents out @ for_vector_image xs"
proof (cases xs)
  case Nil
  then show ?thesis using assms(2) by simp
next
  case (Cons x ys)
  have ok: "span (x # ys) < 2 ^ 63" using assms(1) by (simp add: for_ok_def Cons)
  show ?thesis
  proof (cases "span (x # ys) = 0")
    case True
    then show ?thesis
      using width_64(1) [OF ok] assms(2) unfolding Cons
      by (simp add: Let_def width_0_constant(1) [OF True] del: span.simps)
  next
    case False
    then have "width (x # ys) \<noteq> 0" using width_facts(4) [of "x # ys"] ok by simp
    then show ?thesis
      using width_64(1) [OF ok] assms(2) pack_words(1) [OF ok False] False unfolding Cons
      by (simp add: Let_def del: span.simps ForEncoder_loop.simps)
  qed
qed

lemma For_header_image:
  fixes x :: u64
  assumes "span (x # ys) < 2 ^ 63"
  shows "For_header (for_vector_image (x # ys)) = Inr (min_of x ys, width (x # ys))"
proof -
  let ?mn = "bytes_of (min_of x ys)" and ?b = "bytes_of (of_nat (width (x # ys)) :: byte)"
  let ?n = "of_nat (length (x # ys)) :: u32"
  obtain rest where c: "for_vector_image (x # ys) = ?mn @ ?b @ bytes_of ?n @ rest" by simp
  have "read_word (?mn @ ?b @ bytes_of ?n @ rest) 0 = Inr (min_of x ys)"
    "read_word (?mn @ ?b @ bytes_of ?n @ rest) (sizeof TYPE(64)) = Inr (of_nat (width (x # ys)) :: byte)"
    using read_word_append [of "[]" 0 "min_of x ys"]
      read_word_append [of ?mn "sizeof TYPE(64)" "of_nat (width (x # ys)) :: byte"] by simp_all
  moreover have "read_word ((?mn @ ?b) @ bytes_of ?n @ rest) (sizeof TYPE(64) + 1) = Inr ?n"
    by (rule read_word_append) simp_all
  ultimately show ?thesis unfolding c For_header_def using width_64(3) [OF assms] by simp
qed

lemma ForDecoder_Decode_image:
  fixes xs dst :: "u64 list"
  assumes "for_ok xs" and "length dst = length xs"
  shows "ForDecoder_Decode (for_vector_image xs) dst = Inr xs"
proof (cases xs)
  case Nil
  then show ?thesis using assms(2) by (simp add: ForDecoder_Decode_def)
next
  case (Cons x ys)
  have ok: "span (x # ys) < 2 ^ 63" using assms(1) by (simp add: for_ok_def Cons)
  note hd = For_header_image [OF ok]
  show ?thesis
  proof (cases "span (x # ys) = 0")
    case True
    then show ?thesis
      using hd assms(2) width_0_constant [OF True] unfolding Cons
      by (auto simp: ForDecoder_Decode_def simp del: span.simps for_vector_image.simps)
  next
    case False
    then have w: "width (x # ys) \<noteq> 0" using width_facts(4) [of "x # ys"] ok by simp
    let ?pre = "bytes_of (min_of x ys) @ bytes_of (of_nat (width (x # ys)) :: byte) @
      bytes_of (of_nat (length (x # ys)) :: u32)"
    have "read_elem (?pre @ bytes_of_array (bitpack_words (x # ys)) @ []) 13 k =
        Inr (bitpack_words (x # ys) ! k)" if "k < length (bitpack_words (x # ys))" for k
      using that by (intro read_elem_append) simp_all
    then have "read_elem (for_vector_image (x # ys)) 13 k = Inr (bitpack_words (x # ys) ! k)"
      if "k < length (bitpack_words (x # ys))" for k
      using that False by (simp del: span.simps)
    then show ?thesis
      using unpack_words [OF ok False, of "read_elem (for_vector_image (x # ys)) 13"]
        w width_64(2) [OF ok] assms(2) unfolding Cons
      by (simp add: ForDecoder_Decode_def hd low_mask_res_small
          del: span.simps unpack_loop.simps for_vector_image.simps)
  qed
qed

interpretation for_vector64: codec ForEncoder_Encode ForDecoder_Decode for_ok for_vector_image
  by unfold_locales (rule ForEncoder_Encode_contents ForDecoder_Decode_image; assumption)+

lemma ForEncoder_EstimateSize_64:
  fixes x :: u64
  assumes "for_ok (x # ys)"
  shows "ForEncoder_EstimateSize (x # ys) = Inr (length (for_vector_image (x # ys)) + 3)"
proof -
  have ok: "span (x # ys) < 2 ^ 63" using assms by (simp add: for_ok_def)
  then show ?thesis
    using width_64(1) [OF ok] pack_words(3) [OF ok] width_0_constant(1) [of x ys]
    by (cases "span (x # ys) = 0") (simp_all add: sizeof_ForHeader_def del: span.simps)
qed

section \<open>32-bit columns\<close>

text \<open>A 32-bit offset cannot be shifted into the upper half of a word: the first value whose
  slot starts there stops the encoder.\<close>

lemma pack_all_narrow:
  fixes vs :: "u32 list" and packed :: "u64 list"
  assumes "0 < bits" and "bits \<le> 32" and "32 \<le> k * bits mod 64" and "i \<le> k" and "k < i + length vs"
    and "(i + length vs) * bits \<le> length packed * 64"
  shows "pack_all bits (contiguous_pos bits) i vs packed = Inl ShiftTooWide"
  using assms(4-6)
proof (induction vs arbitrary: i packed)
  case Nil
  then show ?case by simp
next
  case (Cons v vs)
  show ?case
  proof (cases "32 \<le> i * bits mod 64")
    case True
    then show ?thesis by (simp add: contiguous_pos_def pack_store_def Let_def shl_res_def)
  next
    case False
    then have ik: "i \<noteq> k" using assms(3) by blast
    have "Suc i * bits \<le> length packed * 64"
      using Cons.prems(3) by (metis Suc_leI add_Suc_right length_Cons less_add_Suc1 mult_le_mono1 order_trans)
    then have "i * bits div 64 < length packed" using assms(1) by (intro less_mult_imp_div_less) simp
    then obtain ws where "pack_store bits (contiguous_pos bits i) v packed = Inr ws"
      and "length ws = length packed"
      using False assms(2) by (auto simp: contiguous_pos_def pack_store_def Let_def shl_res_def upd_res_def)
    then show ?thesis using Cons.IH [of "Suc i" ws] Cons.prems ik by simp
  qed
qed

lemma high_slot:
  fixes bits n :: nat
  assumes "0 < bits" and "bits \<le> 32" and "32 < n"
  shows "\<exists>k<n. 32 \<le> k * bits mod 64"
proof (intro exI conjI)
  let ?k = "(32 + bits - 1) div bits"
  have "32 \<le> ?k * bits" using assms(1) by (rule le_ceil_times)
  moreover have "?k * bits \<le> 32 + bits - 1" by (rule div_times_less_eq_dividend)
  then have "?k * bits mod 64 = ?k * bits" using assms(1,2) by (intro mod_less) linarith
  ultimately show "32 \<le> ?k * bits mod 64" by (simp only:)
  have "32 + bits - 1 < 33 * bits" using assms(1) by (cases bits) simp_all
  then have "?k < 33" by (rule less_mult_imp_div_less)
  then show "?k < n" using assms(3) by simp
qed

lemma width_32:
  fixes r :: u32
  assumes "r \<noteq> 0" and "bits_loop_guarded r 0 = Inr b"
  shows "0 < b" and "b < 32"
proof -
  have l: "bits_loop r 0 = Inr b" using assms(2) by (simp add: bits_loop_guarded_eq)
  then have "unat r < 2 ^ (LENGTH(32) - 1)"
    using bits_loop_overflow [of r 0] by (cases "2 ^ (LENGTH(32) - 1) \<le> unat r") auto
  from bits_loop_spec [of 0, OF _ this] l
  have b: "unat r < 2 ^ b" "b < 32" by auto
  then show "b < 32" by simp
  have "0 < unat r" using assms(1) by (simp add: unat_gt_0)
  then show "0 < b" using b(1) by (cases b) auto
qed

lemma extremes_differ:
  fixes x :: "'a::len word"
  assumes "y \<in> set xs" and "y \<noteq> x"
  shows "max_of x xs - min_of x xs \<noteq> 0"
proof
  assume "max_of x xs - min_of x xs = 0"
  then have "sint (max_of x xs) = sint (min_of x xs)" by simp
  then have "sint x = sint y"
    using min_of_le [of x x xs] max_of_ge [of x x xs] min_of_le [of y x xs] max_of_ge [of y x xs] assms(1)
    by simp
  then show False using assms(2) by (simp only: sint_inj)
qed

lemma pack_32_fails:
  fixes x :: u32
  assumes "y \<in> set xs" and "y \<noteq> x" and "32 < length (x # xs)"
    and "bits_loop_guarded (max_of x xs - min_of x xs) 0 = Inr b" and "length vs = length (x # xs)"
  shows "pack_all b (contiguous_pos b) 0 (vs :: u32 list)
    (replicate ((length (x # xs) * b + 63) div 64) (0 :: u64)) = Inl ShiftTooWide"
proof -
  have b: "0 < b" "b \<le> 32" using width_32 [OF extremes_differ [OF assms(1,2)] assms(4)] by simp_all
  obtain k where "k < length (x # xs)" "32 \<le> k * b mod 64" using high_slot [OF b assms(3)] by blast
  moreover have "length (x # xs) * b \<le> (length (x # xs) * b + 63) div 64 * 64"
    using le_ceil_times [of 64 "length (x # xs) * b"] by simp
  ultimately show ?thesis
    using b assms(5) by (intro pack_all_narrow [of b k]) (simp_all del: length_Cons)
qed

lemma bits_loop_guarded_error:
  fixes r :: "'u::len word"
  assumes "LENGTH('u) \<le> 64" and "bits_loop_guarded r 0 = Inl e"
  shows "e = ShiftTooWide"
proof -
  have l: "bits_loop r 0 = Inl e" using assms by (simp add: bits_loop_guarded_eq)
  show ?thesis
  proof (cases "2 ^ (LENGTH('u) - 1) \<le> unat r")
    case True
    then show ?thesis using bits_loop_overflow [OF True, of 0] l by simp
  next
    case False
    then show ?thesis using bits_loop_spec [of 0 r] l by auto
  qed
qed

lemma encode_32_fails:
  fixes xs :: "u32 list"
  assumes "32 < length xs" and "y \<in> set xs" and "y \<noteq> hd xs"
  shows "BitPack_Encode xs = Inl ShiftTooWide" and "ForEncoder_Encode xs out = Inl ShiftTooWide"
proof -
  obtain x ys where xs: "xs = x # ys" using assms(1) by (cases xs) auto
  have y: "y \<in> set ys" "y \<noteq> x" using assms(2,3) by (auto simp: xs)
  have len: "32 < length (x # ys)" using assms(1) by (simp add: xs)
  let ?l = "bits_loop_guarded (max_of x ys - min_of x ys) 0"
  have z: "contiguous_pos b 0 = 0" for b by (simp add: contiguous_pos_def)
  show "BitPack_Encode xs = Inl ShiftTooWide"
  proof (cases ?l)
    case (Inl e)
    then show ?thesis using bits_loop_guarded_error [OF _ Inl] by (simp add: xs Let_def)
  next
    case (Inr b)
    note b = width_32 [OF extremes_differ [OF y] Inr]
    have "BitPack_Encode_loop (min_of x ys) b (2 ^ b - 1) (x # ys) 0
        (replicate ((length (x # ys) * b + 63) div 64) 0) = Inl ShiftTooWide"
      using BitPack_Encode_loop_pack_all [of "min_of x ys" b "2 ^ b - 1" "x # ys" 0]
        pack_32_fails [OF y len Inr] unfolding z by (simp only: length_map)
    then show ?thesis
      using Inr b by (simp add: xs Let_def low_mask_res_small del: BitPack_Encode_loop.simps)
  qed
  show "ForEncoder_Encode xs out = Inl ShiftTooWide"
  proof (cases ?l)
    case (Inl e)
    then show ?thesis using bits_loop_guarded_error [OF _ Inl] by (simp add: xs Let_def)
  next
    case (Inr b)
    note b = width_32 [OF extremes_differ [OF y] Inr]
    have "ForEncoder_loop (min_of x ys) b (x # ys) 0
        (replicate ((length (x # ys) * b + 63) div 64) 0) = Inl ShiftTooWide"
      using ForEncoder_loop_pack_all [of "min_of x ys" b "x # ys" 0]
        pack_32_fails [OF y len Inr] unfolding z by (simp only: length_map)
    then show ?thesis using Inr b by (simp add: xs Let_def del: ForEncoder_loop.simps)
  qed
qed

section \<open>Facts on zigzag\<close>

lemma bit_ZigZag_Encode:
  fixes v :: "'a::len word"
  assumes "2 \<le> LENGTH('a)"
  shows "bit (ZigZag_Encode v) n \<longleftrightarrow>
    n < LENGTH('a) \<and> (if n = 0 then bit v (LENGTH('a) - 1) else bit v (n - 1))"
proof -
  have "\<not> bit v (LENGTH('a) - 1 + n)" if "n \<noteq> 0"
    using that by (auto dest: bit_imp_le_length)
  then show ?thesis
    using assms unfolding ZigZag_Encode_def bit_xor_iff bit_push_bit_iff bit_drop_bit_eq
    by (auto simp: possible_bit_word Suc_le_eq ac_simps)
qed

lemma bit_ZigZag_Decode:
  fixes v :: "'a::len word"
  shows "bit (ZigZag_Decode v) n \<longleftrightarrow> n < LENGTH('a) \<and> (bit v (Suc n) \<noteq> bit v 0)"
proof -
  have "- (v AND 1) = (if bit v 0 then - 1 else 0)"
    by (simp add: and_one_eq mod_2_eq_odd bit_0)
  then show ?thesis
    by (auto simp: ZigZag_Decode_def bit_xor_iff bit_drop_bit_eq bit_minus_1_iff possible_bit_word
        dest: bit_imp_le_length)
qed

lemma zigzag_cycle:
  fixes v :: "'a::len word"
  assumes "2 \<le> LENGTH('a)"
  shows "ZigZag_Decode (ZigZag_Encode v) = v \<longleftrightarrow> \<not> bit v (LENGTH('a) - 1)"
proof
  assume eq: "ZigZag_Decode (ZigZag_Encode v) = v"
  have "bit (ZigZag_Decode (ZigZag_Encode v)) 0 \<longleftrightarrow> bit v 0 \<noteq> bit v (LENGTH('a) - 1)"
    using assms by (simp add: bit_ZigZag_Decode bit_ZigZag_Encode [OF assms])
  then show "\<not> bit v (LENGTH('a) - 1)" unfolding eq by blast
next
  assume s: "\<not> bit v (LENGTH('a) - 1)"
  show "ZigZag_Decode (ZigZag_Encode v) = v"
  proof (rule bit_word_eqI)
    fix n assume "n < LENGTH('a)"
    then show "bit (ZigZag_Decode (ZigZag_Encode v)) n = bit v n"
      using s by (cases "Suc n < LENGTH('a)")
        (auto simp: bit_ZigZag_Decode bit_ZigZag_Encode [OF assms] not_less dest!: antisym [of "LENGTH('a)"])
  qed
qed

lemma sign_bit: "bit v (LENGTH('a) - 1) \<longleftrightarrow> sint v < 0" for v :: "'a::len word"
  by (simp add: bit_last_iff)

section \<open>Properties\<close>

text \<open>C32: A 64-bit column whose span is below \<open>2 ^ 63\<close> is packed without undefined behaviour; the
  packed vector survives being written to a buffer and read back, and the scalar decoder and the
  indexed decoder of the AVX-512 build return the column from what was read.\<close>

theorem packed_vector_round_trip:
  fixes xs :: "64 word list"
  assumes "span xs < 2 ^ 63" and "length xs < 2 ^ 32"
  shows "\<exists>d. BitPack_Encode xs = Inr d \<and>
    BitPack_Read (contents (BitPack_Write d Buffer_empty)) = Inr d \<and>
    BitPack_Decode d (length xs) = Inr xs \<and> BitPack_Decode_indexed d (length xs) = Inr xs"
proof -
  obtain d where d: "BitPack_Encode xs = Inr d" "BitPack_Decode d (length xs) = Inr xs"
    "length (bpd_packed d) \<le> length xs"
    using BitPack_round_trip_64 [OF assms(1)] by blast
  have "BitPack_Read (contents (BitPack_Write d Buffer_empty)) = Inr d"
    using d(3) assms(2) by (intro BitPack_Write_Read) simp_all
  with d(1,2) BitPack_Decode_indexed_eq [OF _ d(2)] show ?thesis by simp
qed

theorem packed_vector_round_trip_witness:
  "\<exists>d. BitPack_Encode [5, 7, - 2 :: 64 word] = Inr d \<and>
    BitPack_Read (contents (BitPack_Write d Buffer_empty)) = Inr d \<and>
    BitPack_Decode d 3 = Inr [5, 7, - 2] \<and> BitPack_Decode_indexed d 3 = Inr [5, 7, - 2]"
proof -
  have "span [5, 7, - 2 :: 64 word] < 2 ^ 63"
    by (simp add: min_of_def max_of_def smin_def smax_def sless_sint)
  moreover have "length [5, 7, - 2 :: 64 word] < 2 ^ 32" by simp
  ultimately show ?thesis using packed_vector_round_trip [of "[5, 7, - 2]"]
    by (simp only: list.size One_nat_def numeral_3_eq_3 plus_1_eq_Suc add_Suc add_0 add_Suc_right add_0_right)
qed

text \<open>Wherever the scalar decoder of a 32-bit packed vector is defined, the vector decoders return the same values.\<close>

lemma packed32_simd:
  fixes d :: "32 word BitPackedData"
  assumes "BitPack_Decode d n = Inr ys" and "dst \<noteq> []"
  shows "BitPack_DecodeAvx2_32 d n = Inr ys \<and> BitPack_DecodeAvx512_32 d n = Inr ys \<and>
    ForDecoder_DecodeAvx2_32 src dst = ForDecoder_Decode src dst"
proof (intro conjI)
  have i: "BitPack_Decode_indexed d n = Inr ys" by (rule BitPack_Decode_indexed_eq [OF _ assms(1)]) simp
  then show "BitPack_DecodeAvx2_32 d n = Inr ys" by (simp add: BitPack_DecodeAvx2_indexed)
  show "BitPack_DecodeAvx512_32 d n = Inr ys"
  proof (cases "unat (bpd_bits d) = 32 \<and> 0 < n")
    case True
    then show ?thesis using assms(1) BitPack_Decode_32_undefined [of d n] by simp
  next
    case False
    then show ?thesis
      using i BitPack_DecodeAvx512_indexed [of d n]
      by (cases "n = 0") (auto simp: BitPack_DecodeAvx512_32_def BitPack_Decode_indexed_def)
  qed
  show "ForDecoder_DecodeAvx2_32 src dst = ForDecoder_Decode src dst"
    by (rule ForDecoder_DecodeAvx2_eq [OF assms(2)])
qed

text \<open>C33: wherever the scalar decoder of a packed vector is defined, the public AVX2 and AVX-512 decoders return the
  same values, for 32-bit and 64-bit columns and in both builds; and the AVX2 decoder of a frame-of-reference
  block on a non-empty destination, the AVX-512 decoder of a 64-bit block and that of a 32-bit block in the portable
  build equal the scalar one. The AVX-512 build of the 32-bit block decoder does not: it reads past short blocks.\<close>

theorem packed_simd_equivalent:
  fixes d :: "u32 BitPackedData" and e :: "u64 BitPackedData"
  assumes "BitPack_Decode d n = Inr ys" and "BitPack_Decode e m = Inr zs" and "dst \<noteq> []"
  shows "BitPack_DecodeAvx2_Int32 d n = Inr ys \<and> BitPack_DecodeAvx512_Int32 vec d n = Inr ys \<and>
    BitPack_DecodeAvx2_Int64 e m = Inr zs \<and> BitPack_DecodeAvx512_Int64 vec e m = Inr zs \<and>
    ForDecoder_DecodeAvx2_Int32 src dst = ForDecoder_Decode src dst \<and>
    ForDecoder_DecodeAvx2_Int64 src dst' = ForDecoder_Decode src dst' \<and>
    ForDecoder_DecodeAvx512_Int64 vec src dst' = ForDecoder_Decode src dst' \<and>
    ForDecoder_DecodeAvx512_Int32 False src dst'' = ForDecoder_Decode src dst''"
  using packed32_simd [OF assms(1,3), of src] BitPack_Decode_indexed_eq [OF _ assms(2)] assms(1,2)
  by (simp add: BitPack_DecodeAvx2_Int32_def BitPack_DecodeAvx512_Int32_def BitPack_DecodeAvx2_Int64_def
      BitPack_DecodeAvx512_Int64_def ForDecoder_DecodeAvx2_Int32_def ForDecoder_DecodeAvx2_Int64_def
      ForDecoder_DecodeAvx512_Int64_def ForDecoder_DecodeAvx512_Int32_def)

theorem packed_simd_equivalent_witness:
  "BitPack_DecodeAvx2_Int32 \<lparr>bpd_min_val = 3, bpd_bits = 2, bpd_packed = [9]\<rparr> 2 = Inr [4, 5] \<and>
   BitPack_DecodeAvx512_Int32 True \<lparr>bpd_min_val = 3, bpd_bits = 2, bpd_packed = [9]\<rparr> 2 = Inr [4, 5] \<and>
   BitPack_DecodeAvx512_Int64 True \<lparr>bpd_min_val = 3, bpd_bits = 2, bpd_packed = [9]\<rparr> 2 = Inr [4, 5] \<and>
   ForDecoder_DecodeAvx2_Int32 [7, 0, 0, 0, 0, 1, 0, 0, 0] [0] = ForDecoder_Decode [7, 0, 0, 0, 0, 1, 0, 0, 0] [0]"
proof -
  have "BitPack_Decode \<lparr>bpd_min_val = 3 :: 32 word, bpd_bits = 2, bpd_packed = [9]\<rparr> 2 = Inr [4, 5]"
    "BitPack_Decode \<lparr>bpd_min_val = 3 :: 64 word, bpd_bits = 2, bpd_packed = [9]\<rparr> 2 = Inr [4, 5]"
    by code_simp+
  from packed_simd_equivalent [OF this, where dst = "[0]" and src = "[7, 0, 0, 0, 0, 1, 0, 0, 0]" and vec = True]
  show ?thesis by simp
qed

text \<open>C34: A frame-of-reference block of a 64-bit column whose span is below \<open>2 ^ 63\<close> decodes to the
  column, and the size estimate exceeds the bytes appended by exactly the three bytes of padding
  in \<^verbatim>\<open>ForHeader\<close>.\<close>

theorem for_vector_round_trip:
  fixes xs dst :: "64 word list"
  assumes "for_ok xs" and "length dst = length xs" and "xs \<noteq> []"
  shows "\<exists>b. ForEncoder_Encode xs Buffer_empty = Inr b \<and>
    ForDecoder_Decode (contents b) dst = Inr xs \<and>
    ForEncoder_EstimateSize xs = Inr (Buffer_Size b + 3)"
proof -
  obtain b where b: "ForEncoder_Encode xs Buffer_empty = Inr b" "Buffer_inv b"
    "contents b = for_vector_image xs"
    using for_vector64.encode_appends [OF assms(1) inv_empty_buffer] by auto
  moreover have "ForEncoder_EstimateSize xs = Inr (length (for_vector_image xs) + 3)"
    using ForEncoder_EstimateSize_64 assms(1,3) by (cases xs) auto
  ultimately show ?thesis
    using for_vector64.decode_image [OF assms(1,2)] size_contents [OF b(2)] by simp
qed

theorem for_vector_round_trip_witness:
  "\<exists>b. ForEncoder_Encode [100, 103, - 1 :: 64 word] Buffer_empty = Inr b \<and>
    ForDecoder_Decode (contents b) [0, 0, 0] = Inr [100, 103, - 1 :: 64 word] \<and>
    ForEncoder_EstimateSize [100, 103, - 1 :: 64 word] = Inr (Buffer_Size b + 3)"
proof -
  have "for_ok [100, 103, - 1 :: 64 word]"
    by (simp add: for_ok_def min_of_def max_of_def smin_def smax_def sless_sint)
  from for_vector_round_trip [OF this, of "[0, 0, 0]"] show ?thesis
    by (simp del: ForEncoder_Encode.simps ForEncoder_EstimateSize.simps)
qed

text \<open>Packing a 32-bit column of more than 32 values that are not all equal reaches a shift of
  a 32-bit value by 32 or more, in the packed vectors and in the frame-of-reference blocks.\<close>

lemma packed_narrow_columns_fail:
  fixes xs :: "32 word list"
  assumes "32 < length xs" and "y \<in> set xs" and "y \<noteq> hd xs"
  shows "BitPack_Encode xs = Inl ShiftTooWide \<and> ForEncoder_Encode xs out = Inl ShiftTooWide"
  using encode_32_fails [OF assms] by blast

text \<open>Zigzag coding restores exactly the non-negative values: the sign is spread by a logical
  shift instead of an arithmetic one.\<close>

lemma zigzag_round_trip_iff:
  fixes v :: "'a::len word"
  assumes "2 \<le> LENGTH('a)"
  shows "ZigZag_Decode (ZigZag_Encode v) = v \<longleftrightarrow> 0 \<le> sint v"
  unfolding zigzag_cycle [OF assms] sign_bit by (rule not_less)

end
