(* ===== verification/DataTypes.thy ===== *)
theory DataTypes
  imports Prelude
begin

text \<open>
  The vocabulary of \<^verbatim>\<open>include/columnar/types.h\<close>: the enumerations, the type predicates, string
  views, the per-column statistics and the coarse zone-map entry, with the meaning of a
  comparison predicate that the pruning components (zone maps, Bloom filters, scanner) are
  measured against.
\<close>

section \<open>Enumerations and type predicates\<close>

datatype DataType = Boolean | Int32 | Int64 | Float | Double | Varchar

datatype EncodingType = Plain | Dictionary | RLE | BitPack | FOR | ZSTD | LZ4 | Delta

datatype PredicateType =
    Equal | NotEqual | LessThan | LessEqual | GreaterThan | GreaterEqual
  | IsNull | IsNotNull | In | NotIn | AndPred | OrPred | NotPred

fun TypeSize :: "DataType \<Rightarrow> nat" where
  "TypeSize Boolean = 1"
| "TypeSize Int32 = 4"
| "TypeSize Int64 = 8"
| "TypeSize Float = 4"
| "TypeSize Double = 8"
| "TypeSize Varchar = 16"

definition IsFixedSize :: "DataType \<Rightarrow> bool" where
  "IsFixedSize t \<longleftrightarrow> t \<noteq> Varchar"

definition IsInteger :: "DataType \<Rightarrow> bool" where
  "IsInteger t \<longleftrightarrow> t = Int32 \<or> t = Int64"

definition IsFloatingPoint :: "DataType \<Rightarrow> bool" where
  "IsFloatingPoint t \<longleftrightarrow> t = Float \<or> t = Double"

definition IsNumeric :: "DataType \<Rightarrow> bool" where
  "IsNumeric t \<longleftrightarrow> IsInteger t \<or> IsFloatingPoint t"

definition IsSigned :: "DataType \<Rightarrow> bool" where
  "IsSigned t \<longleftrightarrow> t = Int32 \<or> t = Int64 \<or> t = Float \<or> t = Double"

definition kBlockSize :: nat where "kBlockSize = 8192"
definition kSegmentRows :: nat where "kSegmentRows = 65536"
definition kBloomFilterBits :: nat where "kBloomFilterBits = 2 ^ 20"
definition kBloomHashFunctions :: nat where "kBloomHashFunctions = 7"
definition kDeltaFlushThreshold :: nat where "kDeltaFlushThreshold = 100000"
definition kZoneMapBlockRows :: nat where "kZoneMapBlockRows = 65536"

section \<open>String views\<close>

text \<open>A view is the bytes it points at; \<^verbatim>\<open>memcmp\<close> compares them for equality and
  \<^verbatim>\<open>std::string_view\<close> orders them lexicographically as unsigned bytes.\<close>

record VarcharView =
  vv_data :: "byte list"
  vv_length :: nat

definition VarcharView_view :: "VarcharView \<Rightarrow> byte list" where
  "VarcharView_view v = take (vv_length v) (vv_data v)"

definition VarcharView_eq :: "VarcharView \<Rightarrow> VarcharView \<Rightarrow> bool" where
  "VarcharView_eq a b \<longleftrightarrow> vv_length a = vv_length b \<and>
     take (vv_length a) (vv_data a) = take (vv_length a) (vv_data b)"

fun bytes_less :: "byte list \<Rightarrow> byte list \<Rightarrow> bool" where
  "bytes_less [] [] = False"
| "bytes_less [] (y # ys) = True"
| "bytes_less (x # xs) [] = False"
| "bytes_less (x # xs) (y # ys) = (x < y \<or> x = y \<and> bytes_less xs ys)"

definition VarcharView_less :: "VarcharView \<Rightarrow> VarcharView \<Rightarrow> bool" where
  "VarcharView_less a b \<longleftrightarrow> bytes_less (VarcharView_view a) (VarcharView_view b)"

section \<open>Column statistics\<close>

text \<open>The floating-point bounds are bit patterns; the string bounds are never set by the code
  and are left out.\<close>

record ColumnStats =
  cs_type :: DataType
  null_count :: u64
  distinct_count :: u64
  total_count :: u64
  min_int :: u64
  max_int :: u64
  min_fp :: u64
  max_fp :: u64
  has_min_max :: bool

definition ColumnStats_default :: ColumnStats where
  "ColumnStats_default =
     \<lparr>cs_type = Int32, null_count = 0, distinct_count = 0, total_count = 0,
      min_int = 0, max_int = 0, min_fp = 0, max_fp = 0, has_min_max = False\<rparr>"

definition ColumnStats_counts :: "DataType \<Rightarrow> u64 \<Rightarrow> u64 \<Rightarrow> u64 \<Rightarrow> bool \<Rightarrow> ColumnStats" where
  "ColumnStats_counts t nc dc tc hmm =
     ColumnStats_default\<lparr>cs_type := t, null_count := nc, distinct_count := dc, total_count := tc, has_min_max := hmm\<rparr>"

definition ColumnStats_bounds :: "DataType \<Rightarrow> u64 \<Rightarrow> u64 \<Rightarrow> u64 \<Rightarrow> u64 \<Rightarrow> u64 \<Rightarrow> ColumnStats" where
  "ColumnStats_bounds t nc dc tc min_v max_v =
     ColumnStats_default\<lparr>cs_type := t, null_count := nc, distinct_count := dc, total_count := tc,
       min_int := min_v, max_int := max_v, has_min_max := True\<rparr>"

text \<open>The copy constructor starts from the member defaults and copies the bounds of the
  kind the type has; the assignment operator writes the same members over the old ones.\<close>

definition ColumnStats_assign :: "ColumnStats \<Rightarrow> ColumnStats \<Rightarrow> ColumnStats" where
  "ColumnStats_assign self other =
     (let s = self\<lparr>cs_type := cs_type other, null_count := null_count other,
                   distinct_count := distinct_count other, total_count := total_count other,
                   has_min_max := has_min_max other\<rparr>
      in if has_min_max s \<and> IsInteger (cs_type s)
         then s\<lparr>min_int := min_int other, max_int := max_int other\<rparr>
         else if has_min_max s \<and> IsFloatingPoint (cs_type s)
         then s\<lparr>min_fp := min_fp other, max_fp := max_fp other\<rparr>
         else s)"

definition ColumnStats_copy :: "ColumnStats \<Rightarrow> ColumnStats" where
  "ColumnStats_copy other = ColumnStats_assign ColumnStats_default other"

text \<open>\<^verbatim>\<open>UpdateMinMax<T>\<close> for the integer types; the value is already widened to 64 bits.\<close>

definition UpdateMinMax :: "u64 \<Rightarrow> ColumnStats \<Rightarrow> ColumnStats" where
  "UpdateMinMax v s =
     (if \<not> has_min_max s then s\<lparr>has_min_max := True, min_int := v\<rparr>
      else s\<lparr>min_int := smin (min_int s) v, max_int := smax (max_int s) v\<rparr>)"

section \<open>The coarse zone-map entry\<close>

text \<open>The meaning of a comparison predicate on integers.\<close>

fun cmp_holds :: "PredicateType \<Rightarrow> int \<Rightarrow> int \<Rightarrow> bool" where
  "cmp_holds Equal v c = (v = c)"
| "cmp_holds NotEqual v c = (v \<noteq> c)"
| "cmp_holds LessThan v c = (v < c)"
| "cmp_holds LessEqual v c = (v \<le> c)"
| "cmp_holds GreaterThan v c = (v > c)"
| "cmp_holds GreaterEqual v c = (v \<ge> c)"
| "cmp_holds _ v c = True"

text \<open>The interval test all three pruning paths of the code write out.\<close>

fun range_can_match :: "PredicateType \<Rightarrow> int \<Rightarrow> int \<Rightarrow> int \<Rightarrow> bool" where
  "range_can_match Equal lo hi c = (lo \<le> c \<and> c \<le> hi)"
| "range_can_match NotEqual lo hi c = (\<not> (lo = c \<and> hi = c))"
| "range_can_match LessThan lo hi c = (lo < c)"
| "range_can_match LessEqual lo hi c = (lo \<le> c)"
| "range_can_match GreaterThan lo hi c = (hi > c)"
| "range_can_match GreaterEqual lo hi c = (hi \<ge> c)"
| "range_can_match _ lo hi c = True"

record CoarseZoneMapEntry =
  cz_min_int :: u64
  cz_max_int :: u64
  cz_null_count :: u32
  cz_row_count :: u32
  cz_has_nulls :: bool

text \<open>\<^verbatim>\<open>ZoneMapEntry::CanMatch<T>\<close> of \<^verbatim>\<open>types.h\<close> for the integer types.\<close>

definition Coarse_CanMatch :: "CoarseZoneMapEntry \<Rightarrow> PredicateType \<Rightarrow> u64 \<Rightarrow> bool" where
  "Coarse_CanMatch e pred value =
     (if cz_row_count e = 0 then False
      else if pred = IsNull then cz_has_nulls e
      else if pred = IsNotNull then cz_row_count e > cz_null_count e
      else range_can_match pred (sint (cz_min_int e)) (sint (cz_max_int e)) (sint value))"

section \<open>The contract of a block summary\<close>

text \<open>
  What a scan relies on when it skips a block: a summary \<open>s\<close> that covers the values of a block
  answers \<open>can_match\<close> with true whenever a value of the block satisfies the query. The scan that
  consults the summaries then returns what the full scan returns.
\<close>

locale block_summary =
  fixes can_match :: "'s \<Rightarrow> 'q \<Rightarrow> bool"
    and covers :: "'s \<Rightarrow> 'v set \<Rightarrow> bool"
    and sat :: "'q \<Rightarrow> 'v \<Rightarrow> bool"
  assumes sound: "covers s V \<Longrightarrow> v \<in> V \<Longrightarrow> sat q v \<Longrightarrow> can_match s q"
begin

lemma pruned_block: "covers s (set b) \<Longrightarrow> \<not> can_match s q \<Longrightarrow> filter (sat q) b = []"
  using sound by (auto simp: filter_empty_conv)

lemma pruned_scan:
  assumes "list_all2 (\<lambda>s b. covers s (set b)) ss bs"
  shows "concat (map (\<lambda>(s, b). if can_match s q then filter (sat q) b else []) (zip ss bs)) =
    filter (sat q) (concat bs)"
  using assms
proof (induction rule: list_all2_induct)
  case (Cons s ss b bs)
  then show ?case using pruned_block [of s b q] by auto
qed simp

end

section \<open>Facts\<close>

text \<open>An interval test never rules out a value of the interval that satisfies the predicate.\<close>

lemma range_can_match_sound:
  "lo \<le> v \<Longrightarrow> v \<le> hi \<Longrightarrow> cmp_holds p v c \<Longrightarrow> range_can_match p lo hi c"
  by (cases p) auto

lemma bytes_less_irrefl: "\<not> bytes_less xs xs"
  by (induction xs) auto

lemma bytes_less_trans: "bytes_less xs ys \<Longrightarrow> bytes_less ys zs \<Longrightarrow> bytes_less xs zs"
proof (induction xs ys arbitrary: zs rule: bytes_less.induct)
  case (4 x xs y ys)
  then show ?case by (cases zs) auto
next
  case (2 y ys)
  then show ?case by (cases zs) auto
qed auto

lemma bytes_less_total: "xs \<noteq> ys \<Longrightarrow> bytes_less xs ys \<or> bytes_less ys xs"
  by (induction xs ys rule: bytes_less.induct) auto

text \<open>Folding \<^const>\<open>UpdateMinMax\<close> over a column: once the flag is set, both bounds follow.\<close>

lemma fold_UpdateMinMax_set:
  "has_min_max s \<Longrightarrow>
     has_min_max (fold UpdateMinMax vs s) \<and>
     sint (min_int (fold UpdateMinMax vs s)) = Min (insert (sint (min_int s)) (sint ` set vs)) \<and>
     sint (max_int (fold UpdateMinMax vs s)) = Max (insert (sint (max_int s)) (sint ` set vs))"
proof (induction vs arbitrary: s)
  case Nil
  then show ?case by simp
next
  case (Cons v vs)
  let ?s = "UpdateMinMax v s"
  have s: "has_min_max ?s" "sint (min_int ?s) = min (sint (min_int s)) (sint v)"
    "sint (max_int ?s) = max (sint (max_int s)) (sint v)"
    using Cons.prems by (simp_all add: UpdateMinMax_def sint_smin sint_smax)
  have 1: "Min (insert (min a b) A) = Min (insert a (insert b A))"
    and 2: "Max (insert (max a b) A) = Max (insert a (insert b A))"
    if "finite A" for a b :: int and A
    using that by (cases "A = {}"; simp add: ac_simps)+
  show ?case
    using Cons.IH [OF s(1)] by (simp add: s 1 2 insert_commute)
qed

text \<open>The coarse entry is a block summary for the comparison predicates.\<close>

fun is_cmp :: "PredicateType \<Rightarrow> bool" where
  "is_cmp p = (p \<noteq> IsNull \<and> p \<noteq> IsNotNull)"

fun int_query :: "PredicateType \<times> u64 \<Rightarrow> u64 \<Rightarrow> bool" where
  "int_query (p, c) v = (is_cmp p \<and> cmp_holds p (sint v) (sint c))"

definition Coarse_covers :: "CoarseZoneMapEntry \<Rightarrow> u64 set \<Rightarrow> bool" where
  "Coarse_covers e V \<longleftrightarrow>
     (\<forall>v \<in> V. cz_row_count e \<noteq> 0 \<and> sint (cz_min_int e) \<le> sint v \<and> sint v \<le> sint (cz_max_int e))"

interpretation coarse: block_summary "\<lambda>e (p, c). Coarse_CanMatch e p c" Coarse_covers int_query
proof
  show "(\<lambda>(p, c). Coarse_CanMatch s p c) q" if "Coarse_covers s V" "v \<in> V" "int_query q v" for s V v q
    using that by (cases q) (auto simp: Coarse_covers_def Coarse_CanMatch_def
        intro: range_can_match_sound [where v = "sint v"])
qed

end
