(* ===== verification/Floats.thy ===== *)
theory Floats
  imports Prelude
begin

text \<open>
  The comparisons of \<^verbatim>\<open>float\<close> and \<^verbatim>\<open>double\<close> the code uses, on IEEE 754 bit patterns, and the
  widening conversion from \<^verbatim>\<open>float\<close> to \<^verbatim>\<open>double\<close>. Every pattern that is not a NaN has an integer
  key, its magnitude with the sign of the number, and comparing two such numbers is comparing
  their keys (the two zeros share the key 0). The statistics and the pruning of floating-point
  columns need nothing else; the aggregation of integer columns adds doubles that are exact integers,
  and \<open>FloatArith\<close> holds the arithmetic in full.
\<close>

section \<open>Comparison\<close>

definition fp_neg :: "'a::len word \<Rightarrow> bool" where
  "fp_neg w \<longleftrightarrow> bit w (LENGTH('a) - 1)"

definition fp_mag :: "'a::len word \<Rightarrow> nat" where
  "fp_mag w = take_bit (LENGTH('a) - 1) (unat w)"

definition fp_mant_bits :: "'a::len itself \<Rightarrow> nat" where
  "fp_mant_bits T = (if LENGTH('a) = 32 then 23 else 52)"

definition fp_nan :: "'a::len word \<Rightarrow> bool" where
  "fp_nan w \<longleftrightarrow> fp_mag w > 2 ^ (LENGTH('a) - 1) - 2 ^ fp_mant_bits TYPE('a)"

definition fp_key :: "'a::len word \<Rightarrow> int" where
  "fp_key w = (if fp_neg w then - int (fp_mag w) else int (fp_mag w))"

definition fp_less :: "'a::len word \<Rightarrow> 'a word \<Rightarrow> bool" where
  "fp_less a b \<longleftrightarrow> \<not> fp_nan a \<and> \<not> fp_nan b \<and> fp_key a < fp_key b"

definition fp_le :: "'a::len word \<Rightarrow> 'a word \<Rightarrow> bool" where
  "fp_le a b \<longleftrightarrow> \<not> fp_nan a \<and> \<not> fp_nan b \<and> fp_key a \<le> fp_key b"

definition fp_eq :: "'a::len word \<Rightarrow> 'a word \<Rightarrow> bool" where
  "fp_eq a b \<longleftrightarrow> \<not> fp_nan a \<and> \<not> fp_nan b \<and> fp_key a = fp_key b"

section \<open>Widening\<close>

fun top_bit :: "nat \<Rightarrow> nat" where
  "top_bit m = (if m < 2 then 0 else Suc (top_bit (m div 2)))"

declare top_bit.simps [simp del]

text \<open>Zero, a subnormal number (normalised in the wider format), a normal number, and infinity
  or a NaN (made quiet).\<close>

definition widen_mag :: "nat \<Rightarrow> nat" where
  "widen_mag m =
     (if m = 0 then 0
      else if m < 2 ^ 23 then (let k = top_bit m in (874 + k) * 2 ^ 52 + (m - 2 ^ k) * 2 ^ (52 - k))
      else if m < 2 ^ 31 - 2 ^ 23 then m * 2 ^ 29 + 896 * 2 ^ 52
      else if m = 2 ^ 31 - 2 ^ 23 then 2 ^ 63 - 2 ^ 52
      else (m * 2 ^ 29 + 1792 * 2 ^ 52) OR 2 ^ 51)"

definition double_of_float :: "u32 \<Rightarrow> u64" where
  "double_of_float w = (of_nat (widen_mag (fp_mag w)) OR (if fp_neg w then push_bit 63 1 else 0))"

section \<open>Conversions from and to integers, and addition\<close>

text \<open>A finite double is an integral number of units, \<open>2 ^ -1074\<close> each. The magnitude of a pattern
  below \<open>2 ^ 53\<close> is its number of units.\<close>

definition dbl_finite :: "u64 \<Rightarrow> bool" where
  "dbl_finite w \<longleftrightarrow> fp_mag w < 2047 * 2 ^ 52"

definition units_of_mag :: "nat \<Rightarrow> nat" where
  "units_of_mag m = (if m < 2 ^ 53 then m else (2 ^ 52 + m mod 2 ^ 52) * 2 ^ (m div 2 ^ 52 - 1))"

definition dbl_units :: "u64 \<Rightarrow> int" where
  "dbl_units w = (if fp_neg w then - int (units_of_mag (fp_mag w)) else int (units_of_mag (fp_mag w)))"

text \<open>Truncation toward zero; the conversion is undefined outside the range of the integer type.\<close>

definition int_of_double :: "u64 \<Rightarrow> u64 res" where
  "int_of_double w =
     (let n = int (units_of_mag (fp_mag w) div 2 ^ 1074); k = (if fp_neg w then - n else n)
      in if dbl_finite w \<and> in_srange TYPE(64) k then Inr (word_of_int k) else Inl OutOfRange)"

definition int_of_float :: "u32 \<Rightarrow> u64 res" where
  "int_of_float w = int_of_double (double_of_float w)"

text \<open>Rounding to nearest, ties to even.\<close>

definition round_div :: "nat \<Rightarrow> nat \<Rightarrow> nat" where
  "round_div n d =
     (let q = n div d; r = n mod d
      in if 2 * r > d \<or> 2 * r = d \<and> odd q then q + 1 else q)"

definition mag_of_units :: "nat \<Rightarrow> nat" where
  "mag_of_units n =
     (if n < 2 ^ 53 then n
      else let s = top_bit n - 52 in min (s * 2 ^ 52 + round_div n (2 ^ s)) (2047 * 2 ^ 52))"

definition double_of_units :: "int \<Rightarrow> u64" where
  "double_of_units k =
     (of_nat (mag_of_units (nat \<bar>k\<bar>)) OR (if k < 0 then push_bit 63 1 else 0))"

definition double_of_int :: "int \<Rightarrow> u64" where
  "double_of_int n = double_of_units (n * 2 ^ 1074)"

text \<open>The sum of two finite doubles, a reference for the addition of \<open>FloatArith\<close>; the sum of two negative
  zeros keeps the sign.\<close>

definition double_add :: "u64 \<Rightarrow> u64 \<Rightarrow> u64 res" where
  "double_add a b =
     (if \<not> dbl_finite a \<or> \<not> dbl_finite b then Inl Unmodelled
      else if a = push_bit 63 1 \<and> b = push_bit 63 1 then Inr a
      else Inr (double_of_units (dbl_units a + dbl_units b)))"

section \<open>Facts\<close>

lemma fp_less_irrefl [simp]: "\<not> fp_less a a"
  by (simp add: fp_less_def)

lemma fp_less_trans: "fp_less a b \<Longrightarrow> fp_less b c \<Longrightarrow> fp_less a c"
  by (simp add: fp_less_def)

lemma fp_trichotomy: "\<not> fp_nan a \<Longrightarrow> \<not> fp_nan b \<Longrightarrow> fp_less a b \<or> fp_eq a b \<or> fp_less b a"
  by (auto simp: fp_less_def fp_eq_def)

lemma fp_le_iff: "fp_le a b \<longleftrightarrow> fp_less a b \<or> fp_eq a b"
  by (auto simp: fp_le_def fp_less_def fp_eq_def)

lemma fp_nan_unordered: "fp_nan a \<Longrightarrow> \<not> fp_le a b \<and> \<not> fp_le b a \<and> \<not> fp_eq a b"
  by (simp add: fp_le_def fp_eq_def)

lemma top_bit_bounds: "m \<noteq> 0 \<Longrightarrow> 2 ^ top_bit m \<le> m \<and> m < 2 ^ Suc (top_bit m)"
proof (induction m rule: top_bit.induct)
  case (1 m)
  then show ?case by (cases "m < 2") (auto simp: top_bit.simps [of m])
qed

lemma top_bit_mono: "m \<le> n \<Longrightarrow> top_bit m \<le> top_bit n"
proof (cases "m = 0")
  case False
  assume "m \<le> n"
  with False have "(2 :: nat) ^ top_bit m < 2 ^ Suc (top_bit n)"
    using top_bit_bounds [of m] top_bit_bounds [of n] by linarith
  then have "top_bit m < Suc (top_bit n)" by (rule power_less_imp_less_exp [rotated]) simp
  then show ?thesis by simp
qed (simp add: top_bit.simps)

lemma top_bit_less: "m \<noteq> 0 \<Longrightarrow> m < 2 ^ n \<Longrightarrow> top_bit m < n"
proof -
  assume "m \<noteq> 0" and "m < 2 ^ n"
  then have "(2 :: nat) ^ top_bit m < 2 ^ n" using top_bit_bounds [of m] by linarith
  then show ?thesis by (rule power_less_imp_less_exp [rotated]) simp
qed

lemma widen_mag_subnormal:
  assumes "m \<noteq> 0" and "m < 2 ^ 23"
  shows "(874 + top_bit m) * 2 ^ 52 \<le> widen_mag m" and "widen_mag m < (875 + top_bit m) * 2 ^ 52"
proof -
  let ?k = "top_bit m"
  have k: "?k < 23" using top_bit_less [OF assms] .
  have "m - 2 ^ ?k < 2 ^ ?k" using top_bit_bounds [OF assms(1)] by auto
  then have "(m - 2 ^ ?k) * 2 ^ (52 - ?k) < 2 ^ ?k * 2 ^ (52 - ?k)" by simp
  also have "(2 :: nat) ^ ?k * 2 ^ (52 - ?k) = 2 ^ 52" using k by (simp flip: power_add)
  finally show "widen_mag m < (875 + ?k) * 2 ^ 52"
    and "(874 + ?k) * 2 ^ 52 \<le> widen_mag m"
    using assms by (simp_all add: widen_mag_def Let_def)
qed

text \<open>Widening keeps the order of magnitudes and stays below the NaNs.\<close>

lemma widen_mag_mono:
  assumes "m < n" and "n \<le> 2 ^ 31 - 2 ^ 23"
  shows "widen_mag m < widen_mag n"
proof -
  consider "m = 0" "n < 2 ^ 23" | "m \<noteq> 0" "n < 2 ^ 23" "top_bit m = top_bit n"
    | "m \<noteq> 0" "n < 2 ^ 23" "top_bit m < top_bit n" | "m < 2 ^ 23" "2 ^ 23 \<le> n" | "2 ^ 23 \<le> m"
    using top_bit_mono [of m n] assms(1) by linarith
  then show ?thesis
  proof cases
    case 1
    have "widen_mag m = 0" using 1 by (simp add: widen_mag_def)
    moreover have "0 < (874 + top_bit n) * 2 ^ 52" by simp
    ultimately show ?thesis using widen_mag_subnormal(1) [of n] 1 assms(1) by linarith
  next
    case 2
    have "m - 2 ^ top_bit n < n - 2 ^ top_bit n"
      using assms(1) top_bit_bounds [of m] 2 by (intro diff_less_mono) simp_all
    then show ?thesis using 2 assms(1) by (simp add: widen_mag_def Let_def)
  next
    case 3
    have "(875 + top_bit m) * 2 ^ 52 \<le> (874 + top_bit n) * (2 :: nat) ^ 52"
      using 3 by (intro mult_le_mono1) simp
    then show ?thesis
      using widen_mag_subnormal(2) [of m] widen_mag_subnormal(1) [of n] 3 assms(1) by linarith
  next
    case 4
    have "widen_mag m < 897 * 2 ^ 52"
    proof (cases "m = 0")
      case True
      then show ?thesis by (simp add: widen_mag_def)
    next
      case False
      then have "(875 + top_bit m) * 2 ^ 52 \<le> 897 * (2 :: nat) ^ 52"
        using top_bit_less [of m 23] 4 by (intro mult_le_mono1) simp
      then show ?thesis using widen_mag_subnormal(2) [of m] False 4 by linarith
    qed
    moreover have "897 * 2 ^ 52 \<le> widen_mag n" using 4 assms(2) by (auto simp: widen_mag_def)
    ultimately show ?thesis by linarith
  next
    case 5
    then show ?thesis using assms by (auto simp: widen_mag_def)
  qed
qed

lemma widen_mag_le:
  assumes "m \<le> 2 ^ 31 - 2 ^ 23"
  shows "widen_mag m \<le> 2 ^ 63 - 2 ^ 52"
proof -
  have top: "widen_mag (2 ^ 31 - 2 ^ 23) = 2 ^ 63 - 2 ^ 52" by (simp add: widen_mag_def)
  show ?thesis
  proof (cases "m = 2 ^ 31 - 2 ^ 23")
    case False
    then show ?thesis using widen_mag_mono [of m "2 ^ 31 - 2 ^ 23"] assms unfolding top by linarith
  qed (simp add: widen_mag_def)
qed

lemma fp_mag_unat: "fp_mag w = unat (take_bit (LENGTH('a) - 1) (w :: 'a::len word))"
  by (simp add: fp_mag_def unsigned_take_bit_eq)

text \<open>A bit pattern from its magnitude and its sign.\<close>

lemma double_pattern:
  assumes "m < 2 ^ 63"
  shows "fp_mag ((of_nat m :: u64) OR (if b then push_bit 63 1 else 0)) = m"
    and "fp_neg ((of_nat m :: u64) OR (if b then push_bit 63 1 else 0)) = b"
proof -
  let ?w = "of_nat m :: u64" and ?s = "if b then push_bit 63 1 else 0 :: u64"
  have t: "take_bit 63 ?w = ?w"
    using assms by (simp add: take_bit_of_nat take_bit_nat_eq_self flip: of_nat_take_bit)
  moreover have "take_bit 63 ?s = 0" by (simp add: take_bit_push_bit)
  ultimately have "take_bit 63 (?w OR ?s) = ?w" by (simp only: take_bit_or or.right_neutral)
  then show "fp_mag (?w OR ?s) = m" using assms by (simp add: fp_mag_unat unat_of_nat)
  have "\<not> bit ?w 63" using t by (metis bit_take_bit_iff less_irrefl)
  then show "fp_neg (?w OR ?s) = b" by (simp add: fp_neg_def bit_or_iff bit_push_bit_iff del: push_bit_of_1)
qed

lemma double_of_float_facts:
  assumes "\<not> fp_nan f"
  shows "fp_mag (double_of_float f) = widen_mag (fp_mag f)"
    and "fp_neg (double_of_float f) \<longleftrightarrow> fp_neg f"
    and "\<not> fp_nan (double_of_float f)"
proof -
  have le: "widen_mag (fp_mag f) \<le> 2 ^ 63 - 2 ^ 52"
    using assms by (intro widen_mag_le) (simp add: fp_nan_def fp_mant_bits_def)
  then have lim: "widen_mag (fp_mag f) < 2 ^ 63" by simp
  show m: "fp_mag (double_of_float f) = widen_mag (fp_mag f)" and "fp_neg (double_of_float f) \<longleftrightarrow> fp_neg f"
    unfolding double_of_float_def by (rule double_pattern [OF lim])+
  show "\<not> fp_nan (double_of_float f)"
    using le by (simp add: fp_nan_def fp_mant_bits_def m)
qed

text \<open>The conversion keeps the order of the numbers.\<close>

lemma double_of_float_less:
  assumes "\<not> fp_nan a" and "\<not> fp_nan b"
  shows "fp_less (double_of_float a) (double_of_float b) \<longleftrightarrow> fp_less a b"
proof -
  have le: "fp_mag a \<le> 2 ^ 31 - 2 ^ 23" "fp_mag b \<le> 2 ^ 31 - 2 ^ 23"
    using assms by (simp_all add: fp_nan_def fp_mant_bits_def)
  have "widen_mag (fp_mag a) < widen_mag (fp_mag b) \<longleftrightarrow> fp_mag a < fp_mag b"
    and "widen_mag (fp_mag b) < widen_mag (fp_mag a) \<longleftrightarrow> fp_mag b < fp_mag a"
    using widen_mag_mono le by (metis less_asym nat_neq_iff)+
  moreover have "0 < widen_mag m \<longleftrightarrow> 0 < m" if "m \<le> 2 ^ 31 - 2 ^ 23" for m
    using widen_mag_mono [OF _ that, of 0] by (cases "m = 0") (auto simp: widen_mag_def)
  ultimately show ?thesis
    using assms le by (cases "fp_neg a"; cases "fp_neg b") (auto simp: fp_less_def fp_key_def double_of_float_facts)
qed

section \<open>Facts on exact conversions\<close>

lemma top_bit_unique: "2 ^ k \<le> m \<Longrightarrow> m < 2 ^ Suc k \<Longrightarrow> top_bit m = k"
proof -
  assume m: "2 ^ k \<le> m" "m < 2 ^ Suc k"
  then have "m \<noteq> 0" by (metis not_less_zero order.strict_iff_not power_eq_0_iff zero_neq_numeral le_zero_eq)
  from top_bit_bounds [OF this] top_bit_less [OF this m(2)] m(1)
  have "(2 :: nat) ^ k < 2 ^ Suc (top_bit m)" by linarith
  then have "k < Suc (top_bit m)" by (rule power_less_imp_less_exp [rotated]) simp
  with top_bit_less [OF \<open>m \<noteq> 0\<close> m(2)] show ?thesis by simp
qed

text \<open>A number of units with 53 significant bits is a double.\<close>

lemma mag_of_units_exact:
  assumes q: "2 ^ 52 \<le> q" "q < 2 ^ 53" and s: "0 < s" "s \<le> 2045"
  shows "mag_of_units (q * 2 ^ s) = s * 2 ^ 52 + q" and "units_of_mag (s * 2 ^ 52 + q) = q * 2 ^ s"
proof -
  have "2 ^ (52 + s) \<le> q * 2 ^ s" "q * 2 ^ s < 2 ^ Suc (52 + s)"
    using q by (simp_all add: power_add)
  then have t: "top_bit (q * 2 ^ s) = 52 + s" by (rule top_bit_unique)
  have "\<not> q * 2 ^ s < 2 ^ 53"
  proof -
    have "(2 :: nat) ^ 52 * 2 ^ 1 \<le> q * 2 ^ s" using q(1) s(1) by (intro mult_le_mono power_increasing) auto
    then show ?thesis by simp
  qed
  moreover have "round_div (q * 2 ^ s) (2 ^ s) = q" by (simp add: round_div_def)
  moreover have "s * 2 ^ 52 + q \<le> 2047 * 2 ^ 52"
    using mult_le_mono1 [OF s(2), of "2 ^ 52"] q(2) by simp
  ultimately show "mag_of_units (q * 2 ^ s) = s * 2 ^ 52 + q" by (simp add: mag_of_units_def t Let_def)
  define d where "d = q - 2 ^ 52"
  have d: "s * 2 ^ 52 + q = d + (s + 1) * 2 ^ 52" "d < 2 ^ 52" "q = 2 ^ 52 + d" using q by (simp_all add: d_def)
  have "(d + (s + 1) * 2 ^ 52) div 2 ^ 52 = s + 1" using d(2) by (subst div_mult_self1) simp_all
  moreover have "(d + (s + 1) * 2 ^ 52) mod 2 ^ 52 = d" using d(2) by (subst mod_mult_self1) simp
  moreover have "\<not> s * 2 ^ 52 + q < 2 ^ 53" using q(1) mult_le_mono1 [of 1 s "2 ^ 52"] s(1) by simp
  ultimately show "units_of_mag (s * 2 ^ 52 + q) = q * 2 ^ s" unfolding d(1) units_of_mag_def d(3) by simp
qed

lemma int_mag_exact:
  assumes "m < 2 ^ 53"
  shows "units_of_mag (mag_of_units (m * 2 ^ 1074)) = m * 2 ^ 1074" and "mag_of_units (m * 2 ^ 1074) < 2047 * 2 ^ 52"
    and "0 < mag_of_units (m * 2 ^ 1074) \<longleftrightarrow> 0 < m"
proof -
  have "units_of_mag (mag_of_units (m * 2 ^ 1074)) = m * 2 ^ 1074 \<and> mag_of_units (m * 2 ^ 1074) < 2047 * 2 ^ 52 \<and>
    (0 < mag_of_units (m * 2 ^ 1074) \<longleftrightarrow> 0 < m)"
  proof (cases "m = 0")
    case True
    then show ?thesis by (simp add: mag_of_units_def units_of_mag_def)
  next
    case False
    define t where "t = top_bit m"
    have t: "2 ^ t \<le> m" "m < 2 ^ Suc t" "t \<le> 52"
      using top_bit_bounds [OF False] top_bit_less [OF False assms] by (simp_all add: t_def)
    let ?q = "m * 2 ^ (52 - t)" and ?s = "1022 + t"
    have p: "(2 :: nat) ^ t * 2 ^ (52 - t) = 2 ^ 52" "(2 :: nat) ^ Suc t * 2 ^ (52 - t) = 2 ^ 53"
      using t(3) by (simp_all flip: power_add power_Suc)
    have q: "2 ^ 52 \<le> ?q" "?q < 2 ^ 53"
      unfolding p [symmetric] using t by (simp_all only: mult_le_mono1 mult_less_cancel2) simp_all
    have e: "m * 2 ^ 1074 = ?q * 2 ^ ?s" using t(3) by (simp add: mult.assoc flip: power_add)
    have "?s * 2 ^ 52 + ?q < 2047 * 2 ^ 52" using q(2) mult_le_mono1 [of ?s 1074 "2 ^ 52"] t(3) by simp
    moreover have "0 < ?s" "?s \<le> 2045" using t(3) by simp_all
    ultimately show ?thesis unfolding e using mag_of_units_exact [OF q, of ?s] False by auto
  qed
  then show "units_of_mag (mag_of_units (m * 2 ^ 1074)) = m * 2 ^ 1074" and "mag_of_units (m * 2 ^ 1074) < 2047 * 2 ^ 52"
    and "0 < mag_of_units (m * 2 ^ 1074) \<longleftrightarrow> 0 < m" by blast+
qed

lemma double_of_int_exact:
  assumes "\<bar>n\<bar> < 2 ^ 53"
  shows "dbl_finite (double_of_int n)" and "dbl_units (double_of_int n) = n * 2 ^ 1074"
    and "double_of_int n \<noteq> push_bit 63 1"
proof -
  define m where "m = nat \<bar>n\<bar>"
  have m: "m < 2 ^ 53" "\<bar>n\<bar> = int m" using assms by (simp_all add: m_def)
  have "nat \<bar>n * 2 ^ 1074\<bar> = m * 2 ^ 1074" by (simp only: abs_mult m(2) power_abs abs_numeral) (simp add: nat_mult_distrib nat_power_eq)
  then have d: "double_of_int n = of_nat (mag_of_units (m * 2 ^ 1074)) OR (if n < 0 then push_bit 63 1 else 0)"
    by (simp only: double_of_int_def double_of_units_def) (simp add: mult_less_0_iff)
  note e = int_mag_exact [OF m(1)]
  have lim: "mag_of_units (m * 2 ^ 1074) < 2 ^ 63" using e(2) by (rule less_trans) simp
  note p = double_pattern [OF lim, of "n < 0", folded d]
  show "dbl_finite (double_of_int n)" unfolding dbl_finite_def p(1) by (rule e(2))
  have "int (units_of_mag (mag_of_units (m * 2 ^ 1074))) = int m * 2 ^ 1074" unfolding e(1) by (simp only: of_nat_mult of_nat_power of_nat_numeral)
  then show "dbl_units (double_of_int n) = n * 2 ^ 1074"
    unfolding dbl_units_def p m(2) [symmetric] by (simp only: abs_if mult_minus_left) simp
  show "double_of_int n \<noteq> push_bit 63 1"
  proof
    assume z: "double_of_int n = push_bit 63 1"
    have "fp_mag (push_bit 63 1 :: u64) = 0" "fp_neg (push_bit 63 1 :: u64)"
      using double_pattern [of 0 True] by simp_all
    then have "mag_of_units (m * 2 ^ 1074) = 0" "n < 0" using p z by simp_all
    then show False using e(3) m(2) by simp
  qed
qed

lemma double_add_ints:
  assumes "\<bar>a\<bar> < 2 ^ 53" and "\<bar>b\<bar> < 2 ^ 53"
  shows "double_add (double_of_int a) (double_of_int b) = Inr (double_of_int (a + b))"
  unfolding double_add_def using double_of_int_exact [OF assms(1)] double_of_int_exact [OF assms(2)]
  by (simp only: distrib_right [symmetric] double_of_int_def [symmetric, of "a + b"]) simp

end
