(* ===== verification/VectorKernels.thy ===== *)
theory VectorKernels
  imports DataTypes Floats BitPacking
begin

text \<open>
  \<^verbatim>\<open>VectorTraits\<close> and \<^verbatim>\<open>VectorOps\<close> of \<^verbatim>\<open>include/columnar/column/column.h\<close>: the vectorised kernels on
  columns. The traits of a type are a record, once for the AVX-512 build, where a vector has 16
  or 8 lanes and a comparison returns a bit mask, and once for the portable build, where a vector
  is one value and a comparison returns all ones or zero. The comparison kernels are generic in
  the value type; addition, subtraction, multiplication and the reductions are here those of the
  integer types, where the vector operations wrap around and the scalar ones must not overflow; those of
  the floating-point types are in \<open>ArithKernels\<close>.
\<close>

section \<open>Traits\<close>

text \<open>The comparisons of a value type: \<^verbatim>\<open>==\<close>, \<^verbatim>\<open><\<close> and \<^verbatim>\<open><=\<close>.\<close>

record 'v Comparisons =
  eq_op :: "'v \<Rightarrow> 'v \<Rightarrow> bool"
  lt_op :: "'v \<Rightarrow> 'v \<Rightarrow> bool"
  le_op :: "'v \<Rightarrow> 'v \<Rightarrow> bool"

definition int_cmp :: "'a::len word Comparisons" where
  "int_cmp = \<lparr>eq_op = (=), lt_op = (<s), le_op = (\<le>s)\<rparr>"

definition fp_cmp :: "'a::len word Comparisons" where
  "fp_cmp = \<lparr>eq_op = fp_eq, lt_op = fp_less, le_op = fp_le\<rparr>"

record 'v VectorTraits =
  Width :: nat
  CmpEq :: "'v list \<Rightarrow> 'v list \<Rightarrow> u32"
  CmpLt :: "'v list \<Rightarrow> 'v list \<Rightarrow> u32"
  CmpLe :: "'v list \<Rightarrow> 'v list \<Rightarrow> u32"

text \<open>\<^verbatim>\<open>_mm512_cmp*_mask\<close>: bit \<open>j\<close> is the comparison of lane \<open>j\<close>.\<close>

definition lane_mask :: "('v \<Rightarrow> 'v \<Rightarrow> bool) \<Rightarrow> 'v list \<Rightarrow> 'v list \<Rightarrow> u32" where
  "lane_mask f a b = horner_sum of_bool 2 (map2 f a b)"

definition Traits_avx512 :: "nat \<Rightarrow> 'v Comparisons \<Rightarrow> 'v VectorTraits" where
  "Traits_avx512 w c = \<lparr>Width = w, CmpEq = lane_mask (eq_op c), CmpLt = lane_mask (lt_op c),
     CmpLe = lane_mask (le_op c)\<rparr>"

definition all_ones :: "('v \<Rightarrow> 'v \<Rightarrow> bool) \<Rightarrow> 'v list \<Rightarrow> 'v list \<Rightarrow> u32" where
  "all_ones f a b = (if f (hd a) (hd b) then - 1 else 0)"

definition Traits_portable :: "'v Comparisons \<Rightarrow> 'v VectorTraits" where
  "Traits_portable c = \<lparr>Width = 1, CmpEq = all_ones (eq_op c), CmpLt = all_ones (lt_op c),
     CmpLe = all_ones (le_op c)\<rparr>"

text \<open>The specialisations.\<close>

definition Traits_Int32_avx512 :: "u32 VectorTraits" where
  "Traits_Int32_avx512 = Traits_avx512 16 int_cmp"

definition Traits_Int32_portable :: "u32 VectorTraits" where
  "Traits_Int32_portable = Traits_portable int_cmp"

definition Traits_Int64_avx512 :: "u64 VectorTraits" where
  "Traits_Int64_avx512 = Traits_avx512 8 int_cmp"

definition Traits_Int64_portable :: "u64 VectorTraits" where
  "Traits_Int64_portable = Traits_portable int_cmp"

definition Traits_Float_avx512 :: "u32 VectorTraits" where
  "Traits_Float_avx512 = Traits_avx512 16 fp_cmp"

definition Traits_Float_portable :: "u32 VectorTraits" where
  "Traits_Float_portable = Traits_portable fp_cmp"

definition Traits_Double_avx512 :: "u64 VectorTraits" where
  "Traits_Double_avx512 = Traits_avx512 8 fp_cmp"

definition Traits_Double_portable :: "u64 VectorTraits" where
  "Traits_Double_portable = Traits_portable fp_cmp"

lemmas traits_defs = Traits_Int32_avx512_def Traits_Int32_portable_def Traits_Int64_avx512_def
  Traits_Int64_portable_def Traits_Float_avx512_def Traits_Float_portable_def
  Traits_Double_avx512_def Traits_Double_portable_def

definition Load :: "nat \<Rightarrow> 'v list \<Rightarrow> nat \<Rightarrow> 'v list" where
  "Load w data i = take w (drop i data)"

definition Set1 :: "nat \<Rightarrow> 'v \<Rightarrow> 'v list" where
  "Set1 w v = replicate w v"

section \<open>Filter\<close>

text \<open>The comparison of one row, and the mask of one vector; a predicate with no case of its own
  never matches in the scalar loop and compares for equality in the vector loop.\<close>

fun scalar_match :: "'v Comparisons \<Rightarrow> PredicateType \<Rightarrow> 'v \<Rightarrow> 'v \<Rightarrow> bool" where
  "scalar_match c Equal x v = eq_op c x v"
| "scalar_match c LessThan x v = lt_op c x v"
| "scalar_match c LessEqual x v = le_op c x v"
| "scalar_match c GreaterThan x v = lt_op c v x"
| "scalar_match c GreaterEqual x v = le_op c v x"
| "scalar_match c NotEqual x v = (\<not> eq_op c x v)"
| "scalar_match c _ x v = False"

fun vector_match :: "'v VectorTraits \<Rightarrow> PredicateType \<Rightarrow> 'v list \<Rightarrow> 'v list \<Rightarrow> u32" where
  "vector_match tr LessThan vdata vval = CmpLt tr vdata vval"
| "vector_match tr LessEqual vdata vval = CmpLe tr vdata vval"
| "vector_match tr GreaterThan vdata vval = CmpLt tr vval vdata"
| "vector_match tr GreaterEqual vdata vval = CmpLe tr vval vdata"
| "vector_match tr NotEqual vdata vval = NOT (CmpEq tr vdata vval)"
| "vector_match tr _ vdata vval = CmpEq tr vdata vval"

definition VectorOps_Filter ::
  "'v VectorTraits \<Rightarrow> 'v Comparisons \<Rightarrow> PredicateType \<Rightarrow> 'v list \<Rightarrow> 'v \<Rightarrow> bool list res" where
  "VectorOps_Filter tr c pred data value =
     (let vval = Set1 (Width tr) value
      in block_loop (Width tr)
           (\<lambda>i. let m = vector_match tr pred (Load (Width tr) data i) vval
                in Inr (map (\<lambda>j. bit m j) [0..<Width tr]))
           (\<lambda>i. Inr (scalar_match c pred (data ! i) value))
           0 (length data))"

text \<open>\<^verbatim>\<open>SimdPredicateEvaluator\<close> of \<^verbatim>\<open>include/columnar/predicate.h\<close> works on raw arrays: the mask of the first
  \<open>count\<close> elements.\<close>

definition EvaluateVector ::
  "'v VectorTraits \<Rightarrow> 'v Comparisons \<Rightarrow> PredicateType \<Rightarrow> 'v list \<Rightarrow> 'v \<Rightarrow> nat \<Rightarrow> bool list res" where
  "EvaluateVector tr c pred data v count =
     (if length data < count then Inl OutOfBounds
      else let w = Width tr; vval = Set1 w v
           in Inr (concat (map (\<lambda>b. let m = vector_match tr pred (Load w data (b * w)) vval
                                  in map (\<lambda>j. bit m j) [0..<w]) [0..<count div w]) @
                   map (\<lambda>i. scalar_match c pred (data ! i) v) [count - count mod w..<count]))"

definition EvaluateAnd :: "bool list \<Rightarrow> bool list \<Rightarrow> nat \<Rightarrow> bool list" where
  "EvaluateAnd mask1 mask2 count = map (\<lambda>i. mask1 ! i \<and> mask2 ! i) [0..<count]"

definition EvaluateOr :: "bool list \<Rightarrow> bool list \<Rightarrow> nat \<Rightarrow> bool list" where
  "EvaluateOr mask1 mask2 count = map (\<lambda>i. mask1 ! i \<or> mask2 ! i) [0..<count]"

definition EvaluateNot :: "bool list \<Rightarrow> nat \<Rightarrow> bool list" where
  "EvaluateNot m count = map (\<lambda>i. \<not> m ! i) [0..<count]"

section \<open>Arithmetic on integers\<close>

definition smul_res :: "'a::len word \<Rightarrow> 'a word \<Rightarrow> 'a word res" where
  "smul_res a b =
     (if in_srange TYPE('a) (sint a * sint b) then Inr (a * b) else Inl SignedOverflow)"

text \<open>The vector operation: lanes wrap in the AVX-512 build, and one checked operation in the
  portable build (\<open>w = 1\<close>).\<close>

definition VectorOps_binary ::
  "nat \<Rightarrow> (nat \<Rightarrow> 'v list \<Rightarrow> 'v list \<Rightarrow> 'v list res) \<Rightarrow> ('v \<Rightarrow> 'v \<Rightarrow> 'v res) \<Rightarrow> 'v list \<Rightarrow> 'v list \<Rightarrow> 'v list res" where
  "VectorOps_binary w vop sop a b =
     block_loop w (\<lambda>i. vop w (Load w a i) (Load w b i))
       (\<lambda>i. sop (a ! i) (b ! i)) 0 (length a)"

definition lanes :: "('v \<Rightarrow> 'v \<Rightarrow> 'v) \<Rightarrow> ('v \<Rightarrow> 'v \<Rightarrow> 'v res) \<Rightarrow> nat \<Rightarrow> 'v list \<Rightarrow> 'v list \<Rightarrow> 'v list res" where
  "lanes wrap sop w va vb =
     (if w = 1 then map_res (\<lambda>(x, y). sop x y) (zip va vb) else Inr (map2 wrap va vb))"

definition VectorOps_Add :: "nat \<Rightarrow> 'a::len word list \<Rightarrow> 'a word list \<Rightarrow> 'a word list res" where
  "VectorOps_Add w = VectorOps_binary w (lanes (+) sadd_res) sadd_res"

definition VectorOps_Sub :: "nat \<Rightarrow> 'a::len word list \<Rightarrow> 'a word list \<Rightarrow> 'a word list res" where
  "VectorOps_Sub w = VectorOps_binary w (lanes (-) ssub_res) ssub_res"

definition VectorOps_Mul :: "nat \<Rightarrow> 'a::len word list \<Rightarrow> 'a word list \<Rightarrow> 'a word list res" where
  "VectorOps_Mul w = VectorOps_binary w (lanes (*) smul_res) smul_res"

section \<open>Reductions on integers\<close>

text \<open>\<^verbatim>\<open>for (; i + w <= n; i += w) body(i); for (; i < n; ++i) tail(i);\<close> on an accumulator.\<close>

function block_fold ::
  "nat \<Rightarrow> ('v list \<Rightarrow> 's \<Rightarrow> 's res) \<Rightarrow> ('v \<Rightarrow> 's \<Rightarrow> 's res) \<Rightarrow> 'v list \<Rightarrow> nat \<Rightarrow> 's \<Rightarrow> 's res" where
  "block_fold w body tail data i s =
     (if 0 < w \<and> i + w \<le> length data
      then bind_res (body (Load w data i) s) (block_fold w body tail data (i + w))
      else fold_res tail (drop i data) s)"
  by pat_completeness auto
termination
  by (relation "measure (\<lambda>(w, body, tail, data, i, s). length data - i)") auto

declare block_fold.simps [simp del]

definition VectorOps_Sum :: "nat \<Rightarrow> 'a::len word list \<Rightarrow> 'a word res" where
  "VectorOps_Sum w data =
     block_fold w (fold_res (\<lambda>x sum. sadd_res sum x)) (\<lambda>x sum. sadd_res sum x) data 0 0"

definition VectorOps_Min :: "nat \<Rightarrow> 'a::len word list \<Rightarrow> 'a word res" where
  "VectorOps_Min w data =
     bind_res (nth_res data 0)
       (block_fold w (fold_res (\<lambda>x m. Inr (smin m x))) (\<lambda>x m. Inr (smin m x)) data 0)"

definition VectorOps_Max :: "nat \<Rightarrow> 'a::len word list \<Rightarrow> 'a word res" where
  "VectorOps_Max w data =
     bind_res (nth_res data 0)
       (block_fold w (fold_res (\<lambda>x m. Inr (smax m x))) (\<lambda>x m. Inr (smax m x)) data 0)"

section \<open>The contract of vector traits\<close>

text \<open>What the filter relies on: reading bit \<open>j\<close> of a comparison of two vectors of the trait's
  width gives the scalar comparison of lane \<open>j\<close>. Both builds provide it.\<close>

locale vector_traits =
  fixes tr :: "'v VectorTraits" and c :: "'v Comparisons"
  assumes eq_lane: "length a = Width tr \<Longrightarrow> length b = Width tr \<Longrightarrow> j < Width tr \<Longrightarrow>
      bit (CmpEq tr a b) j \<longleftrightarrow> eq_op c (a ! j) (b ! j)"
    and lt_lane: "length a = Width tr \<Longrightarrow> length b = Width tr \<Longrightarrow> j < Width tr \<Longrightarrow>
      bit (CmpLt tr a b) j \<longleftrightarrow> lt_op c (a ! j) (b ! j)"
    and le_lane: "length a = Width tr \<Longrightarrow> length b = Width tr \<Longrightarrow> j < Width tr \<Longrightarrow>
      bit (CmpLe tr a b) j \<longleftrightarrow> le_op c (a ! j) (b ! j)"
    and width_le: "Width tr \<le> 32"
begin

lemma match_lane:
  assumes "length a = Width tr" and "j < Width tr"
    and "pred \<in> {Equal, NotEqual, LessThan, LessEqual, GreaterThan, GreaterEqual}"
  shows "bit (vector_match tr pred a (Set1 (Width tr) v)) j \<longleftrightarrow> scalar_match c pred (a ! j) v"
  using assms width_le by (cases pred) (auto simp: Set1_def eq_lane lt_lane le_lane bit_not_iff)

lemma filter_scalar:
  assumes "pred \<in> {Equal, NotEqual, LessThan, LessEqual, GreaterThan, GreaterEqual}"
  shows "VectorOps_Filter tr c pred data v = Inr (map (\<lambda>x. scalar_match c pred x v) data)"
proof -
  let ?tail = "\<lambda>i. Inr (scalar_match c pred (data ! i) v)"
  have "Inr (map (bit (vector_match tr pred (Load (Width tr) data i) (Set1 (Width tr) v))) [0..<Width tr]) =
      map_res ?tail [i..<i + Width tr]" if "i + Width tr \<le> length data" for i
  proof -
    have "map_res ?tail [i..<i + Width tr] =
        Inr (map (\<lambda>i. scalar_match c pred (data ! i) v) [i..<i + Width tr])"
      by (rule map_res_Inr) simp
    moreover have "map (bit (vector_match tr pred (Load (Width tr) data i) (Set1 (Width tr) v))) [0..<Width tr] =
        map (\<lambda>i. scalar_match c pred (data ! i) v) [i..<i + Width tr]"
      using that assms by (simp add: list_eq_iff_nth_eq match_lane Load_def)
    ultimately show ?thesis by simp
  qed
  then have "VectorOps_Filter tr c pred data v = map_res ?tail [0..<length data]"
    unfolding VectorOps_Filter_def Let_def by (intro block_loop_scalar)
  also have "\<dots> = Inr (map (\<lambda>x. scalar_match c pred x v) data)"
    using map_res_upt_nth [of "map (\<lambda>x. scalar_match c pred x v) data"] by simp
  finally show ?thesis .
qed

lemma evaluate_scalar:
  assumes "pred \<in> {Equal, NotEqual, LessThan, LessEqual, GreaterThan, GreaterEqual}" and "count \<le> length data"
    and "0 < Width tr"
  shows "EvaluateVector tr c pred data v count = Inr (map (\<lambda>x. scalar_match c pred x v) (take count data))"
proof -
  let ?w = "Width tr" and ?g = "\<lambda>i. scalar_match c pred (data ! i) v"
  have block: "map (bit (vector_match tr pred (Load ?w data (b * ?w)) (Set1 ?w v))) [0..<?w] = map ?g [b * ?w..<b * ?w + ?w]"
    if "b < count div ?w" for b
  proof -
    have "Suc b * ?w \<le> count div ?w * ?w" using that by (intro mult_le_mono1) simp
    also have "\<dots> \<le> count" by (rule div_times_less_eq_dividend)
    finally have "b * ?w + ?w \<le> length data" using assms(2) by simp
    then show ?thesis using assms(1) by (intro nth_equalityI) (simp_all add: match_lane Load_def)
  qed
  have flat: "concat (map (\<lambda>b. map ?g [b * ?w..<b * ?w + ?w]) [0..<n]) = map ?g [0..<n * ?w]" for n
  proof (induction n)
    case (Suc n)
    have "[0..<Suc n * ?w] = [0..<n * ?w] @ [n * ?w..<n * ?w + ?w]"
      using upt_add_eq_append [of 0 "n * ?w" ?w] by (simp add: add.commute)
    with Suc show ?case by simp
  qed simp
  have eq: "map (\<lambda>b. map (bit (vector_match tr pred (Load ?w data (b * ?w)) (Set1 ?w v))) [0..<?w]) [0..<count div ?w] =
      map (\<lambda>b. map ?g [b * ?w..<b * ?w + ?w]) [0..<count div ?w]"
    using block by simp
  have full: "count - count mod ?w = count div ?w * ?w" by (simp add: minus_mod_eq_div_mult)
  have join: "map ?g [0..<count div ?w * ?w] @ map ?g [count div ?w * ?w..<count] = map ?g [0..<count]"
    using upt_add_eq_append [of 0 "count div ?w * ?w" "count - count div ?w * ?w"] by (simp flip: map_append)
  have all: "map ?g [0..<count] = map (\<lambda>x. scalar_match c pred x v) (take count data)"
    using assms(2) by (intro nth_equalityI) simp_all
  show ?thesis
    using assms(2) unfolding EvaluateVector_def Let_def eq flat full join all by simp
qed

end

section \<open>Facts\<close>

lemma bit_lane_mask:
  "j < 32 \<Longrightarrow> j < length a \<Longrightarrow> j < length b \<Longrightarrow> bit (lane_mask f a b) j \<longleftrightarrow> f (a ! j) (b ! j)"
  by (simp add: lane_mask_def bit_horner_sum_bit_word_iff)

interpretation avx512_16: vector_traits "Traits_avx512 16 c" c for c :: "'v Comparisons"
  by unfold_locales (simp_all add: Traits_avx512_def bit_lane_mask)

interpretation avx512_8: vector_traits "Traits_avx512 8 c" c for c :: "'v Comparisons"
  by unfold_locales (simp_all add: Traits_avx512_def bit_lane_mask)

interpretation portable: vector_traits "Traits_portable c" c for c :: "'v Comparisons"
  by unfold_locales (simp_all add: Traits_portable_def all_ones_def hd_conv_nth flip: length_0_conv)

text \<open>The evaluator in every build. With any other predicate type its full vectors compare for equality and the
  remaining elements never match.\<close>

lemma evaluate_builds:
  assumes "pred \<in> {Equal, NotEqual, LessThan, LessEqual, GreaterThan, GreaterEqual}" and "count \<le> length data"
  shows "EvaluateVector (Traits_avx512 16 c) c pred data v count = Inr (map (\<lambda>x. scalar_match c pred x v) (take count data))"
    and "EvaluateVector (Traits_avx512 8 c) c pred data v count = Inr (map (\<lambda>x. scalar_match c pred x v) (take count data))"
    and "EvaluateVector (Traits_portable c) c pred data v count = Inr (map (\<lambda>x. scalar_match c pred x v) (take count data))"
  using avx512_16.evaluate_scalar [OF assms] avx512_8.evaluate_scalar [OF assms] portable.evaluate_scalar [OF assms]
  by (simp_all add: Traits_avx512_def Traits_portable_def)

lemma evaluate_other_predicate:
  "EvaluateVector (Traits_avx512 8 c) c IsNull (replicate 9 v) v 9 = Inr (replicate 8 (eq_op c v v) @ [False])"
proof -
  have "map (\<lambda>j. bit (lane_mask (eq_op c) (replicate 8 v) (replicate 8 v)) j) [0..<8] = replicate 8 (eq_op c v v)"
    by (rule nth_equalityI) (simp_all add: bit_lane_mask)
  moreover have "[9 - 9 mod 8..<9] = [8 :: nat]" "[0..<9 div 8] = [0 :: nat]" by (simp_all add: upt_rec)
  ultimately show ?thesis
    by (simp add: EvaluateVector_def Traits_avx512_def Load_def Set1_def Let_def del: upt_Suc upt_rec_numeral)
qed

lemma scalar_match_int:
  "pred \<in> {Equal, NotEqual, LessThan, LessEqual, GreaterThan, GreaterEqual} \<Longrightarrow>
   scalar_match int_cmp pred x v \<longleftrightarrow> cmp_holds pred (sint x) (sint v)"
  by (cases pred) (auto simp: int_cmp_def sless_sint sle_sint sint_inj)

text \<open>Where no scalar operation overflows, the vector build agrees with the portable one.\<close>

lemma map_res_all: "map_res f xs = Inr ys \<Longrightarrow> x \<in> set xs \<Longrightarrow> \<exists>y. f x = Inr y"
  by (induction xs arbitrary: ys) (auto simp: bind_res_Inr_iff)

lemma binary_scalar:
  assumes "length b = length a" and "\<And>x y z. sop x y = Inr z \<Longrightarrow> z = wrap x y"
    and "map_res (\<lambda>(x, y). sop x y) (zip a b) = Inr zs"
  shows "VectorOps_binary w (lanes wrap sop) sop a b = Inr zs"
proof -
  let ?tail = "\<lambda>i. sop (a ! i) (b ! i)"
  have defd: "\<exists>z. ?tail i = Inr z" if "i < length a" for i
    using map_res_all [OF assms(3), of "(a ! i, b ! i)"] that assms(1)
    by (auto simp: set_zip)
  have tail: "?tail i = Inr (wrap (a ! i) (b ! i))" if "i < length a" for i
    using defd [OF that] assms(2) by blast
  have res: "map_res ?tail [i..<k] = Inr (map (\<lambda>i. wrap (a ! i) (b ! i)) [i..<k])" if "k \<le> length a" for i k
    using that by (intro map_res_Inr tail) simp
  have slice: "map2 wrap (Load w a i) (Load w b i) = map (\<lambda>i. wrap (a ! i) (b ! i)) [i..<i + w]"
    if "i + w \<le> length a" for i
    using that assms(1) by (simp add: list_eq_iff_nth_eq Load_def)
  have "lanes wrap sop w (Load w a i) (Load w b i) = map_res ?tail [i..<i + w]" if "i + w \<le> length a" for i
  proof (cases "w = 1")
    case True
    then have "Load w a i = [a ! i]" "Load w b i = [b ! i]"
      using that assms(1) by (simp_all add: Load_def take_Suc_conv_app_nth hd_drop_conv_nth take_Suc)
    with True show ?thesis by (simp add: lanes_def)
  next
    case False
    then show ?thesis by (simp add: lanes_def res that slice)
  qed
  then have "VectorOps_binary w (lanes wrap sop) sop a b = map_res ?tail [0..<length a]"
    unfolding VectorOps_binary_def by (intro block_loop_scalar)
  also have "\<dots> = Inr (map2 wrap a b)"
  proof -
    have "map (\<lambda>i. wrap (a ! i) (b ! i)) [0..<length a] = map2 wrap a b"
      by (rule nth_equalityI) (simp_all add: assms(1))
    then show ?thesis by (simp only: res [OF le_refl])
  qed
  also have "map2 wrap a b = zs"
  proof -
    have "map_res (\<lambda>(x, y). sop x y) (zip a b) = Inr (map (\<lambda>(x, y). wrap x y) (zip a b))"
      using tail assms(1) by (intro map_res_Inr) (auto simp: in_set_conv_nth)
    then show ?thesis using assms(3) by simp
  qed
  finally show ?thesis .
qed

lemma block_fold_scalar:
  "block_fold w (fold_res tail) tail data i s = fold_res tail (drop i data) s"
proof (induction "length data - i" arbitrary: i s rule: less_induct)
  case less
  show ?case
  proof (cases "0 < w \<and> i + w \<le> length data")
    case True
    then have "block_fold w (fold_res tail) tail data (i + w) = fold_res tail (drop (i + w) data)"
      using less by (intro ext) auto
    moreover have "drop i data = Load w data i @ drop (i + w) data"
      by (simp add: Load_def) (metis add.commute append_take_drop_id drop_drop)
    ultimately show ?thesis
      using True by (simp add: block_fold.simps [of w _ _ data i] fold_res_append)
  next
    case False
    then show ?thesis by (auto simp: block_fold.simps [of w _ _ data i])
  qed
qed

lemma fold_res_total: "fold_res (\<lambda>x m. Inr (f m x)) xs s = Inr (fold (\<lambda>x m. f m x) xs s)"
  by (induction xs arbitrary: s) simp_all

lemma Sum_prefixes:
  fixes xs :: "'a::len word list"
  assumes "\<And>k. k \<le> length xs \<Longrightarrow> in_srange TYPE('a) (sint s + sum_list (map sint (take k xs)))"
  shows "\<exists>t. fold_res (\<lambda>x sum. sadd_res sum x) xs s = Inr t \<and> sint t = sint s + sum_list (map sint xs)"
  using assms
proof (induction xs arbitrary: s)
  case Nil
  then show ?case by simp
next
  case (Cons x xs)
  have r: "in_srange TYPE('a) (sint s + sint x)" using Cons.prems [of 1] by simp
  note a = sint_add_in_range [OF r]
  have "in_srange TYPE('a) (sint (s + x) + sum_list (map sint (take k xs)))" if "k \<le> length xs" for k
    using Cons.prems [of "Suc k"] that by (simp add: a add.assoc)
  from Cons.IH [OF this] show ?case using r by (simp add: sadd_res_def a add.assoc)
qed

lemma Sum_fold: "VectorOps_Sum w data = fold_res (\<lambda>x sum. sadd_res sum x) data 0"
  by (simp add: VectorOps_Sum_def block_fold_scalar)

lemma Min_fold: "VectorOps_Min w (x # xs) = Inr (min_of x (x # xs))"
  and Max_fold: "VectorOps_Max w (x # xs) = Inr (max_of x (x # xs))"
  by (simp_all add: VectorOps_Min_def VectorOps_Max_def block_fold_scalar nth_res_def fold_res_total
      min_of_def max_of_def del: fold_simps fold_res.simps)

lemmas filter_builds = avx512_16.filter_scalar avx512_8.filter_scalar portable.filter_scalar

section \<open>Properties\<close>

text \<open>C37: The vectorised filter returns for each row the scalar comparison with the constant, for
  every comparison predicate, in the AVX-512 and in the portable build: on integers the comparison
  of the signed values, on floating-point columns the IEEE comparison.\<close>

theorem vector_filter_correct:
  assumes "pred \<in> {Equal, NotEqual, LessThan, LessEqual, GreaterThan, GreaterEqual}"
  shows "(\<forall>tr \<in> {Traits_Int32_avx512, Traits_Int32_portable}.
      VectorOps_Filter tr int_cmp pred xs k = Inr (map (\<lambda>x. cmp_holds pred (sint x) (sint k)) xs)) \<and>
    (\<forall>tr \<in> {Traits_Int64_avx512, Traits_Int64_portable}.
      VectorOps_Filter tr int_cmp pred ys l = Inr (map (\<lambda>x. cmp_holds pred (sint x) (sint l)) ys)) \<and>
    (\<forall>tr \<in> {Traits_Float_avx512, Traits_Float_portable}.
      VectorOps_Filter tr fp_cmp pred xs k = Inr (map (\<lambda>x. scalar_match fp_cmp pred x k) xs)) \<and>
    (\<forall>tr \<in> {Traits_Double_avx512, Traits_Double_portable}.
      VectorOps_Filter tr fp_cmp pred ys l = Inr (map (\<lambda>x. scalar_match fp_cmp pred x l) ys))"
  by (intro conjI ballI; elim insertE emptyE)
    (simp_all only: traits_defs filter_builds [OF assms] scalar_match_int [OF assms])

theorem vector_filter_correct_witness:
  "VectorOps_Filter Traits_Int32_avx512 int_cmp LessEqual [1, - 1] 0 = Inr [False, True]"
proof -
  have "LessEqual \<in> {Equal, NotEqual, LessThan, LessEqual, GreaterThan, GreaterEqual}" by simp
  from vector_filter_correct [OF this, of "[1, - 1]" 0 "[]" 0] show ?thesis by simp
qed



end
