(* ===== verification/BasicCodecs.thy ===== *)
theory BasicCodecs
  imports DataTypes ByteBuffer
begin

text \<open>
  The byte-aligned codecs: \<^verbatim>\<open>PlainEncoder\<close>, \<^verbatim>\<open>RLEEncoder\<close>, \<^verbatim>\<open>DeltaEncoder\<close> and their decoders
  (\<^verbatim>\<open>include/columnar/encoding/encoding.h\<close>), and the run vector of \<^verbatim>\<open>include/columnar/rle.h\<close> with its
  scalar and vectorised decoders and its filter on compressed data. The template parameter is
  the word type: \<^verbatim>\<open>Int32\<close> is \<open>32 word\<close>, \<^verbatim>\<open>Int64\<close> is \<open>64 word\<close>. A decoder's destination array is its
  list argument, whose length is the \<^verbatim>\<open>count\<close> of the call.
\<close>

section \<open>Plain\<close>

definition PlainEncoder_Encode :: "'a::len word list \<Rightarrow> Buffer \<Rightarrow> Buffer res" where
  "PlainEncoder_Encode xs out = Inr (Buffer_AppendArray xs out)"

definition PlainDecoder_Decode :: "byte list \<Rightarrow> 'a::len word list \<Rightarrow> 'a word list res" where
  "PlainDecoder_Decode src dst = map_res (read_elem src 0) [0..<length dst]"

section \<open>Run lengths\<close>

fun RLEEncoder_loop :: "'a::len word list \<Rightarrow> 'a word \<Rightarrow> u32 \<Rightarrow> Buffer \<Rightarrow> Buffer" where
  "RLEEncoder_loop [] current run_length out =
     Buffer_AppendValue run_length (Buffer_AppendValue current out)"
| "RLEEncoder_loop (x # xs) current run_length out =
     (if x = current \<and> run_length < - 1
      then RLEEncoder_loop xs current (run_length + 1) out
      else RLEEncoder_loop xs x 1
             (Buffer_AppendValue run_length (Buffer_AppendValue current out)))"

fun RLEEncoder_Encode :: "'a::len word list \<Rightarrow> Buffer \<Rightarrow> Buffer res" where
  "RLEEncoder_Encode [] out = Inr out"
| "RLEEncoder_Encode (x # xs) out = Inr (RLEEncoder_loop xs x 1 out)"

function RLEDecoder_loop ::
  "byte list \<Rightarrow> nat \<Rightarrow> 'a::len word list \<Rightarrow> nat \<Rightarrow> 'a word list res" where
  "RLEDecoder_loop src src_offset dst dst_offset =
     (if dst_offset < length dst \<and> src_offset + sizeof TYPE('a) + 4 \<le> length src
      then bind_res (read_word src src_offset :: 'a word res) (\<lambda>value.
           bind_res (read_word src (src_offset + sizeof TYPE('a))) (\<lambda>run_length :: u32.
             (let to_write = min (unat run_length) (length dst - dst_offset)
              in RLEDecoder_loop src (src_offset + sizeof TYPE('a) + 4)
                   (blit dst dst_offset (replicate to_write value)) (dst_offset + to_write))))
      else Inr dst)"
  by pat_completeness auto
termination
  by (relation "measure (\<lambda>(src, src_offset, dst, dst_offset). length src - src_offset)") auto

definition RLEDecoder_Decode :: "byte list \<Rightarrow> 'a::len word list \<Rightarrow> 'a word list res" where
  "RLEDecoder_Decode src dst = RLEDecoder_loop src 0 dst 0"

section \<open>Differences\<close>

fun DeltaEncoder_loop :: "'a::len word list \<Rightarrow> 'a word \<Rightarrow> Buffer \<Rightarrow> Buffer res" where
  "DeltaEncoder_loop [] prev out = Inr out"
| "DeltaEncoder_loop (x # xs) prev out =
     bind_res (ssub_res x prev) (\<lambda>delta. DeltaEncoder_loop xs x (Buffer_AppendValue delta out))"

fun DeltaEncoder_Encode :: "'a::len word list \<Rightarrow> Buffer \<Rightarrow> Buffer res" where
  "DeltaEncoder_Encode [] out = Inr out"
| "DeltaEncoder_Encode (x # xs) out = DeltaEncoder_loop xs x (Buffer_AppendValue x out)"

definition DeltaDecoder_step ::
  "byte list \<Rightarrow> nat \<Rightarrow> 'a::len word list \<Rightarrow> 'a word list res" where
  "DeltaDecoder_step src i dst =
     bind_res (nth_res dst (i - 1)) (\<lambda>prev.
     bind_res (read_elem src 0 i) (\<lambda>delta.
     bind_res (sadd_res prev delta) (\<lambda>v. upd_res dst i (\<lambda>_. v))))"

definition DeltaDecoder_Decode :: "byte list \<Rightarrow> 'a::len word list \<Rightarrow> 'a word list res" where
  "DeltaDecoder_Decode src dst =
     (if length dst = 0 then Inr dst
      else bind_res (read_elem src 0 0) (\<lambda>v.
           fold_res (DeltaDecoder_step src) [1..<length dst] (dst[0 := v])))"

section \<open>The run vector\<close>

record 'a RlePair =
  rp_value :: 'a
  rp_count :: u32

fun RleEncoder_loop :: "'a list \<Rightarrow> 'a \<Rightarrow> u32 \<Rightarrow> 'a RlePair list \<Rightarrow> 'a RlePair list" where
  "RleEncoder_loop [] current run_length runs =
     runs @ [\<lparr>rp_value = current, rp_count = run_length\<rparr>]"
| "RleEncoder_loop (x # xs) current run_length runs =
     (if x = current \<and> run_length < - 1
      then RleEncoder_loop xs current (run_length + 1) runs
      else RleEncoder_loop xs x 1 (runs @ [\<lparr>rp_value = current, rp_count = run_length\<rparr>]))"

text \<open>\<^verbatim>\<open>RleEncoder::Encode\<close> replaces the member \<^verbatim>\<open>runs_\<close>, except for an empty input, which returns
  before the vector is cleared.\<close>

fun RleEncoder_Encode :: "'a list \<Rightarrow> 'a RlePair list \<Rightarrow> 'a RlePair list" where
  "RleEncoder_Encode [] runs = runs"
| "RleEncoder_Encode (x # xs) runs = RleEncoder_loop xs x 1 []"

definition RleEncoder_Write :: "'a::len word RlePair list \<Rightarrow> Buffer \<Rightarrow> Buffer" where
  "RleEncoder_Write runs out =
     fold (\<lambda>run b. Buffer_AppendValue (rp_count run) (Buffer_AppendValue (rp_value run) b)) runs
       (Buffer_AppendValue (of_nat (length runs) :: u32) out)"

definition RleEncoder_EstimateSize :: "'a::len word RlePair list \<Rightarrow> nat" where
  "RleEncoder_EstimateSize runs = 4 + length runs * (sizeof TYPE('a) + 4)"

fun RleEncoder_Read_loop :: "byte list \<Rightarrow> nat \<Rightarrow> nat \<Rightarrow> 'a::len word RlePair list res" where
  "RleEncoder_Read_loop src ptr 0 = Inr []"
| "RleEncoder_Read_loop src ptr (Suc n) =
     bind_res (read_word src ptr :: 'a word res) (\<lambda>v.
     bind_res (read_word src (ptr + sizeof TYPE('a))) (\<lambda>c.
     bind_res (RleEncoder_Read_loop src (ptr + sizeof TYPE('a) + 4) n) (\<lambda>rs.
       Inr (\<lparr>rp_value = v, rp_count = c\<rparr> # rs))))"

definition RleEncoder_Read :: "byte list \<Rightarrow> 'a::len word RlePair list res" where
  "RleEncoder_Read src =
     bind_res (read_word src 0) (\<lambda>num_runs :: u32. RleEncoder_Read_loop src 4 (unat num_runs))"

fun RleDecoder_Decode :: "'a RlePair list \<Rightarrow> nat \<Rightarrow> 'a list \<Rightarrow> 'a list" where
  "RleDecoder_Decode [] out_pos out = out"
| "RleDecoder_Decode (run # runs) out_pos out =
     (if out_pos < length out
      then let to_write = min (unat (rp_count run)) (length out - out_pos)
           in RleDecoder_Decode runs (out_pos + to_write)
                (blit out out_pos (replicate to_write (rp_value run)))
      else out)"

text \<open>The vectorised writes of one run: \<^verbatim>\<open>to_write & ~(lanes-1)\<close> elements in stores of \<open>lanes\<close>
  copies, the rest one by one.\<close>

fun simd_fill :: "nat \<Rightarrow> 'a \<Rightarrow> nat \<Rightarrow> nat \<Rightarrow> 'a list \<Rightarrow> 'a list" where
  "simd_fill lanes v pos 0 out = out"
| "simd_fill lanes v pos (Suc n) out =
     simd_fill lanes v (pos + lanes) n (blit out pos (replicate lanes v))"

fun scalar_fill :: "'a \<Rightarrow> nat \<Rightarrow> nat \<Rightarrow> 'a list \<Rightarrow> 'a list" where
  "scalar_fill v pos 0 out = out"
| "scalar_fill v pos (Suc n) out = scalar_fill v (Suc pos) n (out[pos := v])"

fun RleDecoder_DecodeSimd :: "nat \<Rightarrow> 'a RlePair list \<Rightarrow> nat \<Rightarrow> 'a list \<Rightarrow> 'a list" where
  "RleDecoder_DecodeSimd lanes [] out_pos out = out"
| "RleDecoder_DecodeSimd lanes (run # runs) out_pos out =
     (if out_pos < length out
      then let to_write = min (unat (rp_count run)) (length out - out_pos);
               simd_writes = to_write div lanes * lanes;
               out1 = simd_fill lanes (rp_value run) out_pos (to_write div lanes) out;
               out2 = scalar_fill (rp_value run) (out_pos + simd_writes)
                        (to_write - simd_writes) out1
           in RleDecoder_DecodeSimd lanes runs (out_pos + to_write) out2
      else out)"

text \<open>The vectorised entry points; \<open>avx512f\<close> is the macro \<^verbatim>\<open>__AVX512F__\<close> of the build.\<close>

definition RleDecoder_DecodeAvx512 ::
  "bool \<Rightarrow> 'a::len word RlePair list \<Rightarrow> 'a word list \<Rightarrow> 'a word list" where
  "RleDecoder_DecodeAvx512 avx512f runs out =
     (if avx512f
      then if sizeof TYPE('a) = 4 then RleDecoder_DecodeSimd 16 runs 0 out
           else if sizeof TYPE('a) = 8 then RleDecoder_DecodeSimd 8 runs 0 out
           else out
      else RleDecoder_Decode runs 0 out)"

definition RleDecoder_DecodeAvx2 :: "'a::len word RlePair list \<Rightarrow> 'a word list \<Rightarrow> 'a word list" where
  "RleDecoder_DecodeAvx2 runs out =
     (if sizeof TYPE('a) = 4 then RleDecoder_DecodeSimd 8 runs 0 out
      else RleDecoder_Decode runs 0 out)"

text \<open>\<^verbatim>\<open>RleDecoder::Filter<Pred>\<close>: the comparison is made once per run; a predicate that is no
  comparison leaves \<^verbatim>\<open>match\<close> false.\<close>

fun rle_match :: "PredicateType \<Rightarrow> 'a::len word \<Rightarrow> 'a word \<Rightarrow> bool" where
  "rle_match Equal v c = (v = c)"
| "rle_match NotEqual v c = (v \<noteq> c)"
| "rle_match LessThan v c = (v <s c)"
| "rle_match LessEqual v c = (v \<le>s c)"
| "rle_match GreaterThan v c = (c <s v)"
| "rle_match GreaterEqual v c = (c \<le>s v)"
| "rle_match _ v c = False"

fun RleDecoder_Filter ::
  "PredicateType \<Rightarrow> 'a::len word RlePair list \<Rightarrow> 'a word \<Rightarrow> nat \<Rightarrow> bool list \<Rightarrow> bool list" where
  "RleDecoder_Filter Pred [] value out_pos msk = msk"
| "RleDecoder_Filter Pred (run # runs) value out_pos msk =
     (if out_pos < length msk
      then let to_write = min (unat (rp_count run)) (length msk - out_pos)
           in RleDecoder_Filter Pred runs value (out_pos + to_write)
                (scalar_fill (rle_match Pred (rp_value run) value) out_pos to_write msk)
      else msk)"

section \<open>Facts on block writes\<close>

lemma length_blit [simp]: "off + length src \<le> length xs \<Longrightarrow> length (blit xs off src) = length xs"
  by (simp add: blit_def)

lemma blit_Nil [simp]: "off \<le> length xs \<Longrightarrow> blit xs off [] = xs"
  by (simp add: blit_def)

lemma blit_blit:
  "off + length a + length b \<le> length xs \<Longrightarrow>
     blit (blit xs off a) (off + length a) b = blit xs off (a @ b)"
  by (simp add: blit_def ac_simps)

lemma blit_all: "length src = length xs \<Longrightarrow> blit xs 0 src = src"
  by (simp add: blit_def)

lemma simd_fill_blit:
  "pos + n * lanes \<le> length out \<Longrightarrow>
     simd_fill lanes v pos n out = blit out pos (replicate (n * lanes) v)"
proof (induction n arbitrary: pos out)
  case 0
  then show ?case by simp
next
  case (Suc n)
  then have "simd_fill lanes v pos (Suc n) out =
      blit (blit out pos (replicate lanes v)) (pos + lanes) (replicate (n * lanes) v)"
    by simp
  also have "\<dots> = blit out pos (replicate (Suc n * lanes) v)"
    using Suc.prems blit_blit [of pos "replicate lanes v" "replicate (n * lanes) v" out]
    by (simp add: replicate_add)
  finally show ?case .
qed

lemma scalar_fill_blit:
  "pos + n \<le> length out \<Longrightarrow> scalar_fill v pos n out = blit out pos (replicate n v)"
proof (induction n arbitrary: pos out)
  case 0
  then show ?case by simp
next
  case (Suc n)
  have upd: "out[pos := v] = blit out pos [v]"
    using Suc.prems by (simp add: blit_def upd_conv_take_nth_drop)
  show ?case
    using Suc.prems Suc.IH [of "Suc pos" "out[pos := v]"]
      blit_blit [of pos "[v]" "replicate n v" out] by (simp add: upd)
qed

lemma simd_then_scalar:
  assumes "pos + w \<le> length out"
  shows "scalar_fill v (pos + w div lanes * lanes) (w - w div lanes * lanes)
      (simd_fill lanes v pos (w div lanes) out) = blit out pos (replicate w v)"
proof -
  define k where "k = w div lanes * lanes"
  have k: "k \<le> w" unfolding k_def by (rule div_times_less_eq_dividend)
  then have "simd_fill lanes v pos (w div lanes) out = blit out pos (replicate k v)"
    using assms simd_fill_blit [of pos "w div lanes" lanes out v] by (simp flip: k_def)
  moreover have "scalar_fill v (pos + k) (w - k) (blit out pos (replicate k v)) =
      blit (blit out pos (replicate k v)) (pos + k) (replicate (w - k) v)"
    using k assms by (intro scalar_fill_blit) simp
  moreover have "\<dots> = blit out pos (replicate w v)"
    using k assms blit_blit [of pos "replicate k v" "replicate (w - k) v" out]
    by (simp flip: replicate_add)
  ultimately show ?thesis unfolding k_def by simp
qed

section \<open>Facts on runs\<close>

text \<open>The values a run vector stands for, and the bytes it is written as.\<close>

definition expand :: "'a RlePair list \<Rightarrow> 'a list" where
  "expand runs = concat (map (\<lambda>r. replicate (unat (rp_count r)) (rp_value r)) runs)"

definition run_bytes :: "'a::len word RlePair list \<Rightarrow> byte list" where
  "run_bytes runs = concat (map (\<lambda>r. bytes_of (rp_value r) @ bytes_of (rp_count r)) runs)"

lemma expand_simps [simp]:
  "expand [] = []"
  "expand (r # rs) = replicate (unat (rp_count r)) (rp_value r) @ expand rs"
  "expand (rs @ ss) = expand rs @ expand ss"
  by (simp_all add: expand_def)

lemma run_bytes_simps [simp]:
  "run_bytes [] = []"
  "run_bytes (r # rs) = bytes_of (rp_value r) @ bytes_of (rp_count r) @ run_bytes rs"
  "run_bytes (rs @ ss) = run_bytes rs @ run_bytes ss"
  by (simp_all add: run_bytes_def)

lemma length_run_bytes [simp]:
  "length (run_bytes (rs :: 'a::len word RlePair list)) = length rs * (sizeof TYPE('a) + 4)"
  by (induction rs) simp_all

lemma unat_Suc_below_max: "(n :: u32) < - 1 \<Longrightarrow> unat (n + 1) = Suc (unat n)"
  by (metis add.commute unatSuc add_eq_0_iff2 less_irrefl)

lemma expand_RleEncoder_loop:
  "expand (RleEncoder_loop xs current n runs) = expand runs @ replicate (unat n) current @ xs"
proof (induction xs arbitrary: current n runs)
  case Nil
  then show ?case by simp
next
  case (Cons x xs)
  then show ?case
    by (auto simp: unat_Suc_below_max replicate_app_Cons_same)
qed

lemma RleEncoder_loop_acc:
  "RleEncoder_loop xs current n runs = runs @ RleEncoder_loop xs current n []"
proof (induction xs arbitrary: current n runs)
  case (Cons x xs)
  let ?r = "\<lparr>rp_value = current, rp_count = n\<rparr>"
  have "RleEncoder_loop xs x 1 (runs @ [?r]) = runs @ RleEncoder_loop xs x 1 [?r]"
    by (metis Cons append_assoc)
  then show ?case using Cons [of current "n + 1" runs] by simp
qed simp

lemma RleEncoder_loop_counts:
  "0 < n \<Longrightarrow> \<forall>r \<in> set runs. 0 < rp_count r \<Longrightarrow>
     \<forall>r \<in> set (RleEncoder_loop xs current n runs). 0 < rp_count r"
proof (induction xs arbitrary: current n runs)
  case Nil
  then show ?case by auto
next
  case (Cons x xs)
  have "0 < n + 1" if "n < - 1"
    using unat_Suc_below_max [OF that] by (simp add: word_gt_0_no word_less_nat_alt)
  moreover have "\<forall>r \<in> set (RleEncoder_loop xs x 1 (runs @ [\<lparr>rp_value = current, rp_count = n\<rparr>])).
      0 < rp_count r"
    using Cons.prems by (intro Cons.IH) simp_all
  ultimately show ?case using Cons.prems Cons.IH [of "n + 1"] by simp
qed

text \<open>One step of any run decoder, and the closed form of the scalar decoder: as much of the
  expansion as fits, written from the current position on.\<close>

lemma blit_run:
  assumes "d < length out"
  shows "blit (blit out d (replicate (min c (length out - d)) v)) (d + min c (length out - d))
      (take (length out - (d + min c (length out - d))) e) =
    blit out d (take (length out - d) (replicate c v @ e))"
proof -
  let ?w = "min c (length out - d)"
  have "take (length out - d) (replicate c v @ e) =
      replicate ?w v @ take (length out - (d + ?w)) e"
    by (simp add: min.commute) (cases "c \<le> length out - d"; simp add: min_def)
  then show ?thesis
    using assms blit_blit [of d "replicate ?w v" "take (length out - (d + ?w)) e" out] by simp
qed

lemma RleDecoder_Decode_eq:
  "d \<le> length out \<Longrightarrow> RleDecoder_Decode runs d out = blit out d (take (length out - d) (expand runs))"
proof (induction runs arbitrary: d out)
  case Nil
  then show ?case by simp
next
  case (Cons r runs)
  show ?case
  proof (cases "d < length out")
    case True
    then show ?thesis
      using Cons.IH [of "d + min (unat (rp_count r)) (length out - d)"
          "blit out d (replicate (min (unat (rp_count r)) (length out - d)) (rp_value r))"]
      by (simp add: Let_def blit_run)
  next
    case False
    then show ?thesis using Cons.prems by simp
  qed
qed

lemma RleDecoder_Filter_eq:
  "d \<le> length msk \<Longrightarrow> RleDecoder_Filter Pred runs c d msk =
     blit msk d (take (length msk - d) (map (\<lambda>v. rle_match Pred v c) (expand runs)))"
proof (induction runs arbitrary: d msk)
  case Nil
  then show ?case by simp
next
  case (Cons r runs)
  show ?case
  proof (cases "d < length msk")
    case True
    let ?w = "min (unat (rp_count r)) (length msk - d)"
    show ?thesis
      using True Cons.IH [of "d + ?w" "blit msk d (replicate ?w (rle_match Pred (rp_value r) c))"]
      by (simp add: Let_def blit_run scalar_fill_blit)
  next
    case False
    then show ?thesis using Cons.prems by simp
  qed
qed

lemma RleDecoder_DecodeSimd_eq:
  "0 < lanes \<Longrightarrow> d \<le> length out \<Longrightarrow>
     RleDecoder_DecodeSimd lanes runs d out = RleDecoder_Decode runs d out"
proof (induction runs arbitrary: d out)
  case Nil
  then show ?case by simp
next
  case (Cons r runs)
  show ?case
  proof (cases "d < length out")
    case True
    let ?w = "min (unat (rp_count r)) (length out - d)" and ?v = "rp_value r"
    have fits: "d + ?w \<le> length out" using True by auto
    show ?thesis
      using True fits Cons.prems(1) Cons.IH [of "d + ?w" "blit out d (replicate ?w ?v)"]
      by (simp add: Let_def simd_then_scalar [OF fits])
  next
    case False
    then show ?thesis by simp
  qed
qed

section \<open>Facts on the run-length codec\<close>

declare RLEDecoder_loop.simps [simp del]

definition rle_runs :: "'a list \<Rightarrow> 'a RlePair list" where
  "rle_runs xs = RleEncoder_Encode xs []"

lemma expand_rle_runs [simp]: "expand (rle_runs xs) = xs"
  by (cases xs) (simp_all add: rle_runs_def expand_RleEncoder_loop)

lemma RLEEncoder_loop_contents:
  "Buffer_inv out \<Longrightarrow> Buffer_inv (RLEEncoder_loop xs current n out) \<and>
     contents (RLEEncoder_loop xs current n out) =
     contents out @ run_bytes (RleEncoder_loop xs current n [])"
proof (induction xs arbitrary: current n out)
  case Nil
  then show ?case by simp
next
  case (Cons x xs)
  then show ?case
    using RleEncoder_loop_acc [of xs x 1 "[\<lparr>rp_value = current, rp_count = n\<rparr>]"] by simp
qed

lemma RLEEncoder_Encode_contents:
  "Buffer_inv out \<Longrightarrow> \<exists>b. RLEEncoder_Encode xs out = Inr b \<and> Buffer_inv b \<and>
     contents b = contents out @ run_bytes (rle_runs xs)"
  by (cases xs) (simp_all add: rle_runs_def RLEEncoder_loop_contents)

text \<open>The decoder of the serialised runs is the decoder of the run vector.\<close>

lemma RLEDecoder_loop_runs:
  fixes dst :: "'a::len word list"
  assumes "8 dvd LENGTH('a)"
  shows "RLEDecoder_loop (pre @ run_bytes runs) (length pre) dst d =
    Inr (RleDecoder_Decode runs d dst)"
proof (induction runs arbitrary: pre dst d)
  case Nil
  then show ?case by (simp add: RLEDecoder_loop.simps)
next
  case (Cons r runs)
  let ?src = "pre @ run_bytes (r # runs)" and ?pre = "pre @ bytes_of (rp_value r)"
  let ?pre2 = "?pre @ bytes_of (rp_count r)"
  have v: "read_word ?src (length pre) = Inr (rp_value r)"
    using assms by simp
  have c: "read_word ?src (length pre + sizeof TYPE('a)) = Inr (rp_count r)"
    using read_word_append [of ?pre "length pre + sizeof TYPE('a)" "rp_count r" "run_bytes runs"]
    by simp
  have IH: "RLEDecoder_loop ?src (length pre + sizeof TYPE('a) + 4) dst' d' =
      Inr (RleDecoder_Decode runs d' dst')" for dst' d'
    using Cons [of ?pre2 dst' d'] by (simp add: add.assoc)
  show ?case
    by (subst RLEDecoder_loop.simps) (simp only: v c IH bind_res.simps Let_def RleDecoder_Decode.simps,
        simp)
qed

lemma rle_codec:
  assumes "8 dvd LENGTH('a::len)"
  shows "codec RLEEncoder_Encode RLEDecoder_Decode (\<lambda>_. True)
    (\<lambda>xs :: 'a word list. run_bytes (rle_runs xs))"
proof
  show "\<exists>b'. RLEEncoder_Encode xs b = Inr b' \<and> Buffer_inv b' \<and>
      contents b' = contents b @ run_bytes (rle_runs xs)"
    if "Buffer_inv b" for xs :: "'a word list" and b
    using that by (rule RLEEncoder_Encode_contents)
  show "RLEDecoder_Decode (run_bytes (rle_runs xs)) dst = Inr xs"
    if "length dst = length xs" for xs dst :: "'a word list"
    using that RLEDecoder_loop_runs [OF assms, of "[]" "rle_runs xs" dst 0]
    by (simp add: RLEDecoder_Decode_def RleDecoder_Decode_eq blit_all)
qed

section \<open>Facts on the difference codec\<close>

fun diffs :: "'a::len word \<Rightarrow> 'a word list \<Rightarrow> 'a word list" where
  "diffs prev [] = []"
| "diffs prev (x # xs) = (x - prev) # diffs x xs"

text \<open>No difference of neighbours overflows: the domain of the codec.\<close>

fun delta_ok :: "'a::len word list \<Rightarrow> bool" where
  "delta_ok [] = True"
| "delta_ok [x] = True"
| "delta_ok (x # y # zs) = (in_srange TYPE('a) (sint y - sint x) \<and> delta_ok (y # zs))"

fun delta_words :: "'a::len word list \<Rightarrow> 'a word list" where
  "delta_words [] = []"
| "delta_words (x # xs) = x # diffs x xs"

lemma length_diffs [simp]: "length (diffs p xs) = length xs"
  by (induction p xs rule: diffs.induct) simp_all

lemma length_delta_words [simp]: "length (delta_words xs) = length xs"
  by (cases xs) simp_all

lemma diffs_nth: "i < length xs \<Longrightarrow> diffs p xs ! i = xs ! i - (p # xs) ! i"
proof (induction p xs arbitrary: i rule: diffs.induct)
  case (2 prev x xs)
  then show ?case by (cases i) simp_all
qed simp

lemma delta_words_nth:
  "0 < i \<Longrightarrow> i < length xs \<Longrightarrow> delta_words xs ! i = xs ! i - xs ! (i - 1)"
  by (cases xs; cases i) (simp_all add: diffs_nth)

lemma delta_ok_nth:
  fixes xs :: "'a::len word list"
  shows "delta_ok xs \<Longrightarrow> 0 < i \<Longrightarrow> i < length xs \<Longrightarrow>
    in_srange TYPE('a) (sint (xs ! i) - sint (xs ! (i - 1)))"
proof (induction xs arbitrary: i rule: delta_ok.induct)
  case (3 x y zs)
  show ?case
  proof (cases "i = 1")
    case False
    with 3 have "in_srange TYPE('a) (sint ((y # zs) ! (i - 1)) - sint ((y # zs) ! (i - 1 - 1)))"
      by (intro 3) auto
    with 3 False show ?thesis by (cases i) (auto simp: nth_Cons')
  qed (use 3 in simp)
qed simp_all

lemma DeltaEncoder_loop_contents:
  "Buffer_inv out \<Longrightarrow> delta_ok (prev # xs) \<Longrightarrow>
     \<exists>b. DeltaEncoder_loop xs prev out = Inr b \<and> Buffer_inv b \<and>
         contents b = contents out @ bytes_of_array (diffs prev xs)"
proof (induction xs arbitrary: prev out)
  case Nil
  then show ?case by simp
next
  case (Cons x xs)
  then show ?case using Cons.IH [of "Buffer_AppendValue (x - prev) out" x] by (simp add: ssub_res_def)
qed

lemma DeltaEncoder_Encode_contents:
  "Buffer_inv out \<Longrightarrow> delta_ok xs \<Longrightarrow>
     \<exists>b. DeltaEncoder_Encode xs out = Inr b \<and> Buffer_inv b \<and>
         contents b = contents out @ bytes_of_array (delta_words xs)"
proof (cases xs)
  case (Cons x ys)
  assume "Buffer_inv out" "delta_ok xs"
  then show ?thesis
    using DeltaEncoder_loop_contents [of "Buffer_AppendValue x out" x ys] by (simp add: Cons)
qed simp

lemma DeltaDecoder_step_ok:
  fixes xs :: "'a::len word list"
  assumes "8 dvd LENGTH('a)" and "delta_ok xs" and "length dst = length xs"
    and "0 < k" and "k < length xs"
  shows "DeltaDecoder_step (bytes_of_array (delta_words xs)) k (take k xs @ drop k dst) =
    Inr (take (Suc k) xs @ drop (Suc k) dst)"
proof -
  have rd: "read_elem (bytes_of_array (delta_words xs)) 0 k = Inr (xs ! k - xs ! (k - 1))"
    using assms read_elem_append [of "[]" 0 k "delta_words xs" "[]"] by (simp add: delta_words_nth)
  have "sint (xs ! k - xs ! (k - 1)) = sint (xs ! k) - sint (xs ! (k - 1))"
    using assms by (intro sint_sub_in_range delta_ok_nth)
  then have "sadd_res (xs ! (k - 1)) (xs ! k - xs ! (k - 1)) = Inr (xs ! k)"
    by (simp add: sadd_res_def)
  moreover have "(take k xs @ drop k dst)[k := xs ! k] = take (Suc k) xs @ drop (Suc k) dst"
    using assms by (simp add: list_update_append take_Suc_conv_app_nth Cons_nth_drop_Suc [symmetric])
  ultimately show ?thesis
    using assms by (simp add: DeltaDecoder_step_def rd res_simps nth_append)
qed

lemma DeltaDecoder_fold:
  fixes xs :: "'a::len word list"
  assumes "8 dvd LENGTH('a)" and "delta_ok xs" and "length dst = length xs"
    and "0 < k" and "k \<le> length xs"
  shows "fold_res (DeltaDecoder_step (bytes_of_array (delta_words xs))) [1..<k] (dst[0 := xs ! 0]) =
    Inr (take k xs @ drop k dst)"
  using assms(4,5)
proof (induction k rule: nat_induct_non_zero)
  case 1
  then show ?case using assms(3) by (cases xs; cases dst) simp_all
next
  case (Suc k)
  then show ?case
    using DeltaDecoder_step_ok [OF assms(1-3), of k] by (simp add: fold_res_append)
qed

lemma delta_codec:
  assumes "8 dvd LENGTH('a::len)"
  shows "codec DeltaEncoder_Encode DeltaDecoder_Decode delta_ok
    (\<lambda>xs :: 'a word list. bytes_of_array (delta_words xs))"
proof
  show "\<exists>b'. DeltaEncoder_Encode xs b = Inr b' \<and> Buffer_inv b' \<and>
      contents b' = contents b @ bytes_of_array (delta_words xs)"
    if "delta_ok xs" and "Buffer_inv b" for xs :: "'a word list" and b
    using that(2,1) by (rule DeltaEncoder_Encode_contents)
  show "DeltaDecoder_Decode (bytes_of_array (delta_words xs)) dst = Inr xs"
    if "delta_ok xs" and "length dst = length xs" for xs dst :: "'a word list"
  proof (cases "xs = []")
    case True
    then show ?thesis using that by (simp add: DeltaDecoder_Decode_def)
  next
    case False
    then have "read_elem (bytes_of_array (delta_words xs)) 0 0 = Inr (xs ! 0)"
      using assms read_elem_append [of "[]" 0 0 "delta_words xs" "[]"] by (cases xs) simp_all
    then show ?thesis
      using that False DeltaDecoder_fold [OF assms that, of "length xs"]
      by (simp add: DeltaDecoder_Decode_def)
  qed
qed

lemma plain_codec:
  assumes "8 dvd LENGTH('a::len)"
  shows "codec PlainEncoder_Encode PlainDecoder_Decode (\<lambda>_. True) (bytes_of_array :: 'a word list \<Rightarrow> _)"
proof
  show "PlainDecoder_Decode (bytes_of_array xs) dst = Inr xs"
    if "length dst = length xs" for xs dst :: "'a word list"
    using that assms read_elem_append [of "[]" 0 _ xs "[]"]
    by (simp add: PlainDecoder_Decode_def map_res_upt_nth)
qed (simp add: PlainEncoder_Encode_def)

interpretation plain32: codec PlainEncoder_Encode PlainDecoder_Decode "\<lambda>_. True"
  "bytes_of_array :: 32 word list \<Rightarrow> _"
  by (rule plain_codec) simp

interpretation plain64: codec PlainEncoder_Encode PlainDecoder_Decode "\<lambda>_. True"
  "bytes_of_array :: 64 word list \<Rightarrow> _"
  by (rule plain_codec) simp

interpretation rle32: codec RLEEncoder_Encode RLEDecoder_Decode "\<lambda>_. True"
  "\<lambda>xs :: 32 word list. run_bytes (rle_runs xs)"
  by (rule rle_codec) simp

interpretation rle64: codec RLEEncoder_Encode RLEDecoder_Decode "\<lambda>_. True"
  "\<lambda>xs :: 64 word list. run_bytes (rle_runs xs)"
  by (rule rle_codec) simp

interpretation delta32: codec DeltaEncoder_Encode DeltaDecoder_Decode delta_ok
  "\<lambda>xs :: 32 word list. bytes_of_array (delta_words xs)"
  by (rule delta_codec) simp

interpretation delta64: codec DeltaEncoder_Encode DeltaDecoder_Decode delta_ok
  "\<lambda>xs :: 64 word list. bytes_of_array (delta_words xs)"
  by (rule delta_codec) simp

section \<open>Facts on the serialised run vector\<close>

definition rle_image :: "'a::len word RlePair list \<Rightarrow> byte list" where
  "rle_image runs = bytes_of (of_nat (length runs) :: u32) @ run_bytes runs"

lemma RleEncoder_Write_contents:
  fixes runs :: "'a::len word RlePair list"
  assumes "Buffer_inv b"
  shows "Buffer_inv (RleEncoder_Write runs b) \<and> contents (RleEncoder_Write runs b) = contents b @ rle_image runs"
proof -
  let ?f = "\<lambda>run b. Buffer_AppendValue (rp_count run) (Buffer_AppendValue (rp_value run) b)"
  have "Buffer_inv (fold ?f rs b) \<and> contents (fold ?f rs b) = contents b @ run_bytes rs"
    if "Buffer_inv b" for rs :: "'a word RlePair list" and b
    using that by (induction rs arbitrary: b) simp_all
  with assms show ?thesis by (simp add: RleEncoder_Write_def rle_image_def)
qed

lemma RleEncoder_Read_loop_bytes:
  fixes runs :: "'a::len word RlePair list"
  assumes "8 dvd LENGTH('a)" and "length pre = p"
  shows "RleEncoder_Read_loop (pre @ run_bytes runs @ rest) p (length runs) = Inr runs"
  using assms(2)
proof (induction runs arbitrary: pre p)
  case (Cons r runs)
  let ?v = "bytes_of (rp_value r)" and ?c = "bytes_of (rp_count r)"
  have "RleEncoder_Read_loop ((pre @ ?v @ ?c) @ run_bytes runs @ rest) (p + sizeof TYPE('a) + 4) (length runs) = Inr runs"
    using Cons.prems by (intro Cons.IH) simp
  moreover have "read_word (pre @ ?v @ ?c @ run_bytes runs @ rest) p = Inr (rp_value r)"
    using Cons.prems assms(1) by simp
  moreover have "read_word (pre @ ?v @ ?c @ run_bytes runs @ rest) (p + sizeof TYPE('a)) = Inr (rp_count r)"
    using Cons.prems read_word_append [of "pre @ ?v" "p + sizeof TYPE('a)" "rp_count r"] by simp
  ultimately show ?case by simp
qed simp

lemma RleEncoder_Read_image:
  fixes runs :: "'a::len word RlePair list"
  assumes "8 dvd LENGTH('a)" and "length runs < 2 ^ 32"
  shows "RleEncoder_Read (rle_image runs @ rest) = Inr runs"
proof -
  let ?n = "of_nat (length runs) :: u32"
  have "read_word (rle_image runs @ rest) 0 = Inr ?n"
    using read_word_append [of "[]" 0 ?n] by (simp add: rle_image_def)
  moreover have "RleEncoder_Read_loop (rle_image runs @ rest) 4 (length runs) = Inr runs"
    using RleEncoder_Read_loop_bytes [OF assms(1), of "bytes_of ?n" 4 runs rest] by (simp add: rle_image_def)
  ultimately show ?thesis using assms(2) by (simp add: RleEncoder_Read_def unat_of_nat)
qed

section \<open>Properties\<close>

text \<open>C28: filtering run by run on the compressed column gives, at every row, the comparison of the
  value at that row with the constant.\<close>

theorem rle_filter_correct:
  assumes "length msk = length (x # xs)"
  shows "RleDecoder_Filter Pred (RleEncoder_Encode (x # xs) runs) c 0 msk =
    map (\<lambda>v. rle_match Pred v c) (x # xs)"
  using assms by (simp add: RleDecoder_Filter_eq expand_RleEncoder_loop blit_all)

theorem rle_filter_correct_witness:
  "RleDecoder_Filter LessThan (RleEncoder_Encode [3, 3, - 1 :: 32 word] []) 3 0 [True, True, True] =
    [False, False, True]"
  by (subst rle_filter_correct) (simp_all add: sless_sint)

text \<open>the AVX2 and AVX-512 run decoders write the same destination as the scalar decoder, at
  both element widths and whether or not the build has AVX-512.\<close>

lemma rle_simd_equivalent:
  fixes runs32 :: "32 word RlePair list" and runs64 :: "64 word RlePair list"
  shows "RleDecoder_DecodeAvx2 runs32 out32 = RleDecoder_Decode runs32 0 out32 \<and>
    RleDecoder_DecodeAvx2 runs64 out64 = RleDecoder_Decode runs64 0 out64 \<and>
    RleDecoder_DecodeAvx512 avx512f runs32 out32 = RleDecoder_Decode runs32 0 out32 \<and>
    RleDecoder_DecodeAvx512 avx512f runs64 out64 = RleDecoder_Decode runs64 0 out64"
  by (simp add: RleDecoder_DecodeAvx2_def RleDecoder_DecodeAvx512_def RleDecoder_DecodeSimd_eq)

text \<open>encoding a column into runs, writing the runs, reading them back and decoding gives the
  column again, and the estimate of the size is the number of bytes written.\<close>

lemma rle_vector_round_trip:
  fixes xs :: "'a::len word list"
  assumes "8 dvd LENGTH('a)" and "runs = RleEncoder_Encode (x # xs) old" and "length runs < 2 ^ 32"
    and "Buffer_inv b" and "contents b = []" and "length out = length (x # xs)"
  shows "RleEncoder_Read (contents (RleEncoder_Write runs b)) = Inr runs \<and>
    RleDecoder_Decode runs 0 out = x # xs \<and>
    Buffer_Size (RleEncoder_Write runs b) = RleEncoder_EstimateSize runs"
proof -
  note w = RleEncoder_Write_contents [OF assms(4), of runs]
  have "RleEncoder_Read (contents (RleEncoder_Write runs b)) = Inr runs"
    using RleEncoder_Read_image [OF assms(1,3), of "[]"] w assms(5) by simp
  moreover have "Buffer_Size (RleEncoder_Write runs b) = RleEncoder_EstimateSize runs"
    using w assms(5) size_contents [of "RleEncoder_Write runs b"]
    by (simp add: RleEncoder_EstimateSize_def rle_image_def)
  moreover have "RleDecoder_Decode runs 0 out = x # xs"
    using assms(2,6) by (simp add: RleDecoder_Decode_eq expand_RleEncoder_loop blit_all)
  ultimately show ?thesis by blast
qed

end
