(* ===== verification/DictCodecs.thy ===== *)
theory DictCodecs
  imports ByteBuffer DataTypes
begin

text \<open>
  Dictionary encoding: \<^verbatim>\<open>DictEncoder\<close> and \<^verbatim>\<open>DictDecoder\<close> of \<^verbatim>\<open>include/columnar/encoding/encoding.h\<close>,
  and the in-memory dictionary of \<^verbatim>\<open>include/columnar/dictionary.h\<close> with its gather-based decoders and
  its serialised form.
\<close>

section \<open>The codec of the factory\<close>

text \<open>\<^verbatim>\<open>std::sort\<close> followed by \<^verbatim>\<open>std::unique\<close>, and \<^verbatim>\<open>std::lower_bound\<close> on the sorted result.\<close>

definition sorted_unique :: "'a::len word list \<Rightarrow> 'a word list" where
  "sorted_unique xs = remdups_adj (sort_key sint xs)"

definition lower_bound :: "'a::len word list \<Rightarrow> 'a word \<Rightarrow> nat" where
  "lower_bound dict v = length (takeWhile (\<lambda>d. d <s v) dict)"

text \<open>\<^verbatim>\<open>while ((1U << b) < n && b < 32) ++b\<close>: the shift is evaluated before the bound.\<close>

function index_bits_loop :: "u32 \<Rightarrow> nat \<Rightarrow> nat res" where
  "index_bits_loop n b =
     (if b < 32 then if push_bit b 1 < n then index_bits_loop n (Suc b) else Inr b
      else Inl ShiftTooWide)"
  by pat_completeness auto
termination
  by (relation "measure (\<lambda>(n, b). 32 - b)") auto

declare index_bits_loop.simps [simp del]

definition DictEncoder_indices :: "'a::len word list \<Rightarrow> 'a word list \<Rightarrow> 'i::len word list" where
  "DictEncoder_indices dict xs = map (\<lambda>x. of_nat (lower_bound dict x)) xs"

definition DictEncoder_Encode :: "'a::len word list \<Rightarrow> Buffer \<Rightarrow> Buffer res" where
  "DictEncoder_Encode xs out =
     (if xs = [] then Inr out
      else let dict = sorted_unique xs;
               dict_size = of_nat (length dict) :: u32;
               out1 = Buffer_AppendArray dict (Buffer_AppendValue dict_size out)
           in bind_res (index_bits_loop dict_size 0) (\<lambda>index_bits.
                (let out2 = Buffer_AppendValue (of_nat index_bits :: byte) out1
                 in if index_bits \<le> 8
                    then Inr (Buffer_AppendRaw (DictEncoder_indices dict xs :: byte list) (length xs) out2)
                    else if index_bits \<le> 16
                    then Inr (Buffer_AppendRaw (DictEncoder_indices dict xs :: 16 word list) (length xs) out2)
                    else Inr (Buffer_AppendRaw (DictEncoder_indices dict xs :: u32 list) (length xs) out2))))"

definition DictDecoder_loop :: "'i::len itself \<Rightarrow> byte list \<Rightarrow> nat \<Rightarrow> nat \<Rightarrow> 'a::len word list res" where
  "DictDecoder_loop T src off count =
     map_res (\<lambda>i. bind_res (read_elem src off i :: 'i word res) (\<lambda>k. read_elem src 4 (unat k))) [0..<count]"

definition DictDecoder_Decode :: "byte list \<Rightarrow> 'a::len word list \<Rightarrow> 'a word list res" where
  "DictDecoder_Decode src dst =
     (let count = length dst
      in if count = 0 then Inr dst
         else bind_res (read_word src 0) (\<lambda>dict_size :: u32.
              (let off = 4 + unat dict_size * sizeof TYPE('a)
               in bind_res (read_word src off) (\<lambda>index_bits :: byte.
                    if index_bits = 0
                    then bind_res (read_elem src 4 0) (\<lambda>v. Inr (replicate count v))
                    else if index_bits \<le> 8 then DictDecoder_loop TYPE(8) src (off + 1) count
                    else if index_bits \<le> 16 then DictDecoder_loop TYPE(16) src (off + 1) count
                    else DictDecoder_loop TYPE(32) src (off + 1) count))))"

section \<open>The in-memory dictionary\<close>

record 'a Dict =
  dictionary :: "'a list"
  indices :: "u32 list"
  value_to_id :: "'a \<Rightarrow> u32 option"

definition Dict_empty :: "'a Dict" where
  "Dict_empty = \<lparr>dictionary = [], indices = [], value_to_id = (\<lambda>_. None)\<rparr>"

text \<open>One iteration: the id of the value, assigned on first sight.\<close>

definition Build_value :: "'a \<Rightarrow> 'a Dict \<Rightarrow> u32 \<times> 'a Dict" where
  "Build_value v d =
     (case value_to_id d v of
        Some i \<Rightarrow> (i, d)
      | None \<Rightarrow> (let i = of_nat (length (dictionary d))
                 in (i, d\<lparr>value_to_id := (value_to_id d)(v \<mapsto> i), dictionary := dictionary d @ [v]\<rparr>)))"

fun Build_loop :: "'a list \<Rightarrow> 'a Dict \<Rightarrow> u32 list \<times> 'a Dict" where
  "Build_loop [] d = ([], d)"
| "Build_loop (v # vs) d =
     (let (i, d1) = Build_value v d; (is, d2) = Build_loop vs d1 in (i # is, d2))"

definition Dict_Build :: "'a list \<Rightarrow> 'a Dict \<Rightarrow> 'a Dict" where
  "Dict_Build values d = (let (is, d1) = Build_loop values d in d1\<lparr>indices := is\<rparr>)"

text \<open>\<^verbatim>\<open>value_to_id_[dictionary_[i]] = i\<close> for each \<^verbatim>\<open>i\<close>, over the map as it was.\<close>

definition assign_ids :: "'a list \<Rightarrow> ('a \<Rightarrow> u32 option) \<Rightarrow> 'a \<Rightarrow> u32 option" where
  "assign_ids dict m = fold (\<lambda>i m. m(dict ! i \<mapsto> of_nat i)) [0..<length dict] m"

text \<open>\<^verbatim>\<open>operator[]\<close> creates a zero id for a value that has none.\<close>

definition Dict_BuildSorted :: "'a::len word list \<Rightarrow> 'a word Dict \<Rightarrow> 'a word Dict" where
  "Dict_BuildSorted values d =
     (let dict = sorted_unique values;
          m = assign_ids dict (value_to_id d)
      in d\<lparr>dictionary := dict,
           indices := map (\<lambda>v. case m v of Some i \<Rightarrow> i | None \<Rightarrow> 0) values,
           value_to_id := fold (\<lambda>v m. if m v = None then m(v \<mapsto> 0) else m) values m\<rparr>)"

definition Dict_Encode :: "'a list \<Rightarrow> 'a Dict \<Rightarrow> u32 list res" where
  "Dict_Encode values d =
     map_res (\<lambda>v. case value_to_id d v of Some i \<Rightarrow> Inr i | None \<Rightarrow> Inl OutOfRange) values"

definition Dict_Decode :: "'a list \<Rightarrow> u32 list \<Rightarrow> 'a list res" where
  "Dict_Decode dict idx = map_res (\<lambda>i. nth_res dict (unat i)) idx"

definition Dict_EstimateSize :: "'a::len word Dict \<Rightarrow> nat" where
  "Dict_EstimateSize d = length (dictionary d) * sizeof TYPE('a) + length (indices d) * 4"

definition Dict_DictionarySize :: "'a Dict \<Rightarrow> nat" where
  "Dict_DictionarySize d = length (dictionary d)"

definition Dict_Cardinality :: "'a Dict \<Rightarrow> nat" where
  "Dict_Cardinality d = length (dictionary d)"

section \<open>Gathers\<close>

text \<open>A gather with 32-bit indices, which are signed.\<close>

definition gather32 :: "'a list \<Rightarrow> u32 list \<Rightarrow> 'a list res" where
  "gather32 dict idx =
     map_res (\<lambda>i. if sint i < 0 then Inl OutOfBounds else nth_res dict (nat (sint i))) idx"

text \<open>A gather with 64-bit indices over a vector loaded from an array of 32-bit indices: lane \<open>k\<close>
  joins the entries \<open>2k\<close> and \<open>2k+1\<close> behind the load address.\<close>

definition gather64 :: "'a list \<Rightarrow> u32 list \<Rightarrow> nat \<Rightarrow> nat \<Rightarrow> 'a list res" where
  "gather64 dict idx pos lanes =
     map_res (\<lambda>k. bind_res (nth_res idx (pos + 2 * k)) (\<lambda>lo.
       bind_res (nth_res idx (pos + 2 * k + 1)) (\<lambda>hi.
         (let i = ucast lo OR push_bit 32 (ucast hi) :: u64
          in if sint i < 0 then Inl OutOfBounds else nth_res dict (unat i))))) [0..<lanes]"

function gather_loop ::
  "(nat \<Rightarrow> 'a list res) \<Rightarrow> nat \<Rightarrow> 'a list \<Rightarrow> u32 list \<Rightarrow> nat \<Rightarrow> 'a list res" where
  "gather_loop gather lanes dict idx i =
     (if 0 < lanes \<and> i + lanes \<le> length idx
      then bind_res (gather i) (\<lambda>vs.
           bind_res (gather_loop gather lanes dict idx (i + lanes)) (\<lambda>ws. Inr (vs @ ws)))
      else Dict_Decode dict (drop i idx))"
  by pat_completeness auto
termination
  by (relation "measure (\<lambda>(gather, lanes, dict, idx, i). length idx - i)") auto

declare gather_loop.simps [simp del]

text \<open>The two vectorised decoders, by the width of the value type.\<close>

definition Dict_DecodeAvx2 :: "'a::len word list \<Rightarrow> u32 list \<Rightarrow> 'a word list res" where
  "Dict_DecodeAvx2 dict idx =
     (if sizeof TYPE('a) = 4 then gather_loop (\<lambda>i. gather32 dict (take 8 (drop i idx))) 8 dict idx 0
      else if sizeof TYPE('a) = 8 then gather_loop (\<lambda>i. gather64 dict idx i 4) 4 dict idx 0
      else Dict_Decode dict idx)"

definition Dict_DecodeAvx512 :: "bool \<Rightarrow> 'a::len word list \<Rightarrow> u32 list \<Rightarrow> 'a word list res" where
  "Dict_DecodeAvx512 avx512f dict idx =
     (if \<not> avx512f then Dict_Decode dict idx
      else if sizeof TYPE('a) = 4 then gather_loop (\<lambda>i. gather32 dict (take 16 (drop i idx))) 16 dict idx 0
      else if sizeof TYPE('a) = 8 then gather_loop (\<lambda>i. gather64 dict idx i 8) 8 dict idx 0
      else Dict_Decode dict idx)"

text \<open>\<^verbatim>\<open>DictionaryDecoder\<close> holds a dictionary alone; its decoders are those of the dictionary.\<close>

definition DictionaryDecoder_Decode :: "'a list \<Rightarrow> u32 list \<Rightarrow> 'a list res" where
  "DictionaryDecoder_Decode dict idx = map_res (\<lambda>i. nth_res dict (unat i)) idx"

definition DictionaryDecoder_DecodeAvx2 :: "'a::len word list \<Rightarrow> u32 list \<Rightarrow> 'a word list res" where
  "DictionaryDecoder_DecodeAvx2 dict idx =
     (if sizeof TYPE('a) = 4 then gather_loop (\<lambda>i. gather32 dict (take 8 (drop i idx))) 8 dict idx 0
      else if sizeof TYPE('a) = 8 then gather_loop (\<lambda>i. gather64 dict idx i 4) 4 dict idx 0
      else DictionaryDecoder_Decode dict idx)"

definition DictionaryDecoder_DecodeAvx512 :: "bool \<Rightarrow> 'a::len word list \<Rightarrow> u32 list \<Rightarrow> 'a word list res" where
  "DictionaryDecoder_DecodeAvx512 avx512f dict idx =
     (if \<not> avx512f then DictionaryDecoder_Decode dict idx
      else if sizeof TYPE('a) = 4 then gather_loop (\<lambda>i. gather32 dict (take 16 (drop i idx))) 16 dict idx 0
      else if sizeof TYPE('a) = 8 then gather_loop (\<lambda>i. gather64 dict idx i 8) 8 dict idx 0
      else DictionaryDecoder_Decode dict idx)"

section \<open>Serialised form\<close>

definition Dict_Write :: "'a::len word Dict \<Rightarrow> Buffer \<Rightarrow> Buffer res" where
  "Dict_Write d out =
     (let dict_size = of_nat (length (dictionary d)) :: u32;
          out1 = Buffer_AppendArray (dictionary d) (Buffer_AppendValue dict_size out)
      in bind_res (index_bits_loop dict_size 0) (\<lambda>index_bits.
           (let out2 = Buffer_AppendValue (of_nat index_bits :: byte) out1
            in Inr (if index_bits \<le> 8 then Buffer_AppendArray (map ucast (indices d) :: byte list) out2
                    else if index_bits \<le> 16
                    then Buffer_AppendArray (map ucast (indices d) :: 16 word list) out2
                    else Buffer_AppendArray (indices d) out2))))"

text \<open>The number of indices is what is left of \<^verbatim>\<open>size\<close> bytes.\<close>

definition Read_indices :: "'i::len itself \<Rightarrow> byte list \<Rightarrow> nat \<Rightarrow> u32 list res" where
  "Read_indices T src off =
     map_res (\<lambda>i. bind_res (read_elem src off i) (\<lambda>k :: 'i word. Inr (ucast k)))
       [0..<(length src - off) div sizeof TYPE('i)]"

definition Dict_Read :: "byte list \<Rightarrow> 'a::len word Dict res" where
  "Dict_Read src =
     bind_res (read_word src 0) (\<lambda>dict_size :: u32.
     bind_res (map_res (read_elem src 4) [0..<unat dict_size]) (\<lambda>dict.
       (let off = 4 + unat dict_size * sizeof TYPE('a)
        in bind_res (read_word src off) (\<lambda>index_bits :: byte.
           bind_res (if index_bits \<le> 8 then Read_indices TYPE(8) src (off + 1)
                     else if index_bits \<le> 16 then Read_indices TYPE(16) src (off + 1)
                     else Read_indices TYPE(32) src (off + 1)) (\<lambda>is.
             Inr \<lparr>dictionary = dict, indices = is, value_to_id = assign_ids dict (\<lambda>_. None)\<rparr>)))))"

section \<open>Facts on sorted dictionaries\<close>

lemma remdups_adj_strict:
  "sorted (map sint xs) \<Longrightarrow> sorted_wrt (\<lambda>a b. sint a < sint b) (remdups_adj (xs :: 'a::len word list))"
proof (induction xs rule: remdups_adj.induct)
  case (3 x y xs)
  show ?case
  proof (cases "x = y")
    case False
    then have "sint x \<noteq> sint y" by (auto intro: signed_word_eqI)
    with 3 False show ?thesis by force
  qed (use 3 in simp)
qed simp_all

lemma sorted_unique_strict: "sorted_wrt (\<lambda>a b. sint a < sint b) (sorted_unique xs)"
  unfolding sorted_unique_def by (rule remdups_adj_strict) simp

lemma set_sorted_unique [simp]: "set (sorted_unique xs) = set xs"
  by (simp add: sorted_unique_def)

lemma sorted_unique_Nil [simp]: "sorted_unique xs = [] \<longleftrightarrow> xs = []"
  by (metis set_empty set_sorted_unique)

lemma distinct_sorted_unique: "distinct (sorted_unique xs)"
proof -
  have "sorted_wrt (\<noteq>) (sorted_unique xs)"
    by (rule sorted_wrt_mono_rel [OF _ sorted_unique_strict]) auto
  then show ?thesis by (simp add: distinct_conv_nth sorted_wrt_iff_nth_less nat_neq_iff) metis
qed

lemma length_sorted_unique: "length (sorted_unique xs) = card (set xs)"
  using distinct_card [OF distinct_sorted_unique, of xs] by simp

lemma lower_bound_found:
  assumes "sorted_wrt (\<lambda>a b. sint a < sint b) dict" and "v \<in> set dict"
  shows "lower_bound dict v < length dict" and "dict ! lower_bound dict v = v"
proof -
  have "lower_bound dict v < length dict \<and> dict ! lower_bound dict v = v"
    using assms
  proof (induction dict)
    case (Cons d ds)
    then show ?case by (auto simp: lower_bound_def sless_sint)
  qed simp
  then show "lower_bound dict v < length dict" and "dict ! lower_bound dict v = v" by blast+
qed

lemma index_bits_loop_spec:
  assumes "b \<le> 31" and "unat n \<le> 2 ^ 31" and "b = 0 \<or> 2 ^ (b - 1) < unat n"
  shows "\<exists>k. index_bits_loop n b = Inr k \<and> k \<le> 31 \<and> unat n \<le> 2 ^ k \<and> (k = 0 \<or> 2 ^ (k - 1) < unat n)"
  using assms
proof (induction n b rule: index_bits_loop.induct)
  case (1 n b)
  have lt: "push_bit b 1 < n \<longleftrightarrow> 2 ^ b < unat n"
  proof -
    have "unat (2 ^ b :: u32) = 2 ^ b" using 1(2) by (intro unat_two_power) simp
    then show ?thesis by (simp add: word_less_nat_alt)
  qed
  show ?case
  proof (cases "2 ^ b < unat n")
    case True
    then have "(2 :: nat) ^ b < 2 ^ 31" using 1(3) by linarith
    then have "b < 31" by (rule power_less_imp_less_exp [rotated]) simp
    with True 1 lt show ?thesis by (simp add: index_bits_loop.simps [of n b])
  next
    case False
    with 1 lt show ?thesis by (auto simp: index_bits_loop.simps [of n b])
  qed
qed

definition index_width :: "nat \<Rightarrow> nat" where
  "index_width n = (case index_bits_loop (of_nat n) 0 of Inl _ \<Rightarrow> 0 | Inr k \<Rightarrow> k)"

lemma index_width_facts:
  assumes "n \<le> 2 ^ 31"
  shows "index_bits_loop (of_nat n) 0 = Inr (index_width n)" and "n \<le> 2 ^ index_width n"
    and "index_width n \<le> 31" and "index_width n = 0 \<or> 2 ^ (index_width n - 1) < n"
proof -
  have "unat (of_nat n :: u32) = n" using assms by (simp add: unat_of_nat)
  with index_bits_loop_spec [of 0 "of_nat n"] assms show
    "index_bits_loop (of_nat n) 0 = Inr (index_width n)" "n \<le> 2 ^ index_width n"
    "index_width n \<le> 31" "index_width n = 0 \<or> 2 ^ (index_width n - 1) < n"
    by (auto simp: index_width_def)
qed

lemma index_width_le_8: "n \<le> 2 ^ 31 \<Longrightarrow> index_width n \<le> 8 \<longleftrightarrow> n \<le> 256"
proof -
  assume n: "n \<le> 2 ^ 31"
  show ?thesis
  proof
    assume "index_width n \<le> 8"
    then have "(2 :: nat) ^ index_width n \<le> 2 ^ 8" by (intro power_increasing) simp_all
    then show "n \<le> 256" using index_width_facts(2) [OF n] by simp
  next
    assume le: "n \<le> 256"
    show "index_width n \<le> 8"
    proof (rule ccontr)
      assume "\<not> index_width n \<le> 8"
      then have "(2 :: nat) ^ 8 \<le> 2 ^ (index_width n - 1)" by (intro power_increasing) simp_all
      with index_width_facts(4) [OF n] le \<open>\<not> index_width n \<le> 8\<close> show False by simp
    qed
  qed
qed

section \<open>Facts on the codec\<close>

text \<open>Up to 256 distinct values the indices are bytes and the codec keeps its contract.\<close>

definition dict_ok :: "'a::len word list \<Rightarrow> bool" where
  "dict_ok xs \<longleftrightarrow> card (set xs) \<le> 256"

definition dict_image :: "'a::len word list \<Rightarrow> byte list" where
  "dict_image xs =
     (if xs = [] then []
      else bytes_of (of_nat (card (set xs)) :: u32) @ bytes_of_array (sorted_unique xs) @
           bytes_of (of_nat (index_width (card (set xs))) :: byte) @
           bytes_of_array (DictEncoder_indices (sorted_unique xs) xs :: byte list))"

lemma DictEncoder_Encode_contents:
  assumes "dict_ok xs" and "Buffer_inv b"
  shows "\<exists>b'. DictEncoder_Encode xs b = Inr b' \<and> Buffer_inv b' \<and> contents b' = contents b @ dict_image xs"
proof (cases "xs = []")
  case True
  then show ?thesis using assms(2) by (simp add: DictEncoder_Encode_def dict_image_def)
next
  case False
  have n: "card (set xs) \<le> 2 ^ 31" and "index_width (card (set xs)) \<le> 8"
    using assms(1) index_width_le_8 [of "card (set xs)"] by (simp_all add: dict_ok_def)
  then show ?thesis
    using assms(2) False index_width_facts(1) [OF n]
    by (simp add: DictEncoder_Encode_def dict_image_def length_sorted_unique Let_def
        DictEncoder_indices_def)
qed

text \<open>What the decoder reads from an image with index array \<open>is\<close>.\<close>

lemma read_dict_parts:
  fixes dict :: "'a::len word list" and idx :: "'i::len word list" and n :: u32 and b :: byte
  assumes "8 dvd LENGTH('a)" and "8 dvd LENGTH('i)"
  defines "src \<equiv> bytes_of n @ bytes_of_array dict @ bytes_of b @ bytes_of_array idx"
  shows "read_word src 0 = Inr n"
    and "k < length dict \<Longrightarrow> read_elem src 4 k = Inr (dict ! k)"
    and "read_word src (4 + length dict * sizeof TYPE('a)) = Inr b"
    and "k < length idx \<Longrightarrow> read_elem src (Suc (4 + length dict * sizeof TYPE('a))) k = Inr (idx ! k)"
proof -
  show "read_word src 0 = Inr n" using read_word_append [of "[]" 0 n] by (simp add: src_def)
  show "read_elem src 4 k = Inr (dict ! k)" if "k < length dict"
    unfolding src_def using that assms(1) by (intro read_elem_append) simp_all
  show "read_word src (4 + length dict * sizeof TYPE('a)) = Inr b"
    unfolding src_def
    using read_word_append [of "bytes_of n @ bytes_of_array dict" _ b "bytes_of_array idx"] by simp
  show "read_elem src (Suc (4 + length dict * sizeof TYPE('a))) k = Inr (idx ! k)" if "k < length idx"
    unfolding src_def using that assms(2)
      read_elem_append [of "bytes_of n @ bytes_of_array dict @ bytes_of b" _ k idx "[]"] by simp
qed

lemma DictDecoder_loop_indices:
  fixes dict :: "'a::len word list" and idx :: "'i::len word list" and n :: u32 and b :: byte
  assumes "8 dvd LENGTH('a)" and "8 dvd LENGTH('i)" and "length idx = length xs"
    and "\<And>k. k < length xs \<Longrightarrow> unat (idx ! k) < length dict \<and> dict ! unat (idx ! k) = xs ! k"
  shows "DictDecoder_loop TYPE('i) (bytes_of n @ bytes_of_array dict @ bytes_of b @ bytes_of_array idx)
    (Suc (4 + length dict * sizeof TYPE('a))) (length xs) = Inr xs"
  unfolding DictDecoder_loop_def
proof (rule map_res_upt_nth)
  fix k assume k: "k < length xs"
  let ?src = "bytes_of n @ bytes_of_array dict @ bytes_of b @ bytes_of_array idx"
  have "read_elem ?src (Suc (4 + length dict * sizeof TYPE('a))) k = Inr (idx ! k)"
    using k assms(3) by (intro read_dict_parts(4) [OF assms(1,2)]) simp
  moreover have "read_elem ?src 4 (unat (idx ! k)) = Inr (dict ! unat (idx ! k))"
    using k assms(4) by (intro read_dict_parts(2) [OF assms(1,2)]) simp
  ultimately show "bind_res (read_elem ?src (Suc (4 + length dict * sizeof TYPE('a))) k :: 'i word res)
      (\<lambda>k. read_elem ?src 4 (unat k)) = Inr (xs ! k)"
    using k assms(4) by simp
qed

lemma dict_codec:
  assumes "8 dvd LENGTH('a::len)"
  shows "codec DictEncoder_Encode DictDecoder_Decode dict_ok (dict_image :: 'a word list \<Rightarrow> _)"
proof
  show "\<exists>b'. DictEncoder_Encode xs b = Inr b' \<and> Buffer_inv b' \<and> contents b' = contents b @ dict_image xs"
    if "dict_ok xs" and "Buffer_inv b" for xs :: "'a word list" and b
    by (rule DictEncoder_Encode_contents [OF that])
  show "DictDecoder_Decode (dict_image xs) dst = Inr xs"
    if ok: "dict_ok xs" and len: "length dst = length xs" for xs dst :: "'a word list"
  proof (cases "xs = []")
    case True
    then show ?thesis using len by (simp add: DictDecoder_Decode_def)
  next
    case False
    let ?n = "card (set xs)" let ?d = "sorted_unique xs" let ?w = "index_width ?n"
    let ?idx = "DictEncoder_indices ?d xs :: byte list"
    have n: "?n \<le> 2 ^ 31" and w: "?w \<le> 8" and len_d: "length ?d = ?n"
      using ok index_width_le_8 [of ?n] by (simp_all add: dict_ok_def length_sorted_unique)
    have unat_n: "unat (of_nat ?n :: u32) = ?n" using n by (simp add: unat_of_nat)
    note parts = read_dict_parts [OF assms, where dict = ?d and idx = ?idx and n = "of_nat ?n" and b = "of_nat ?w"]
    have idx: "unat (?idx ! k) < length ?d \<and> ?d ! unat (?idx ! k) = xs ! k" if "k < length xs" for k
    proof -
      have f: "lower_bound ?d (xs ! k) < length ?d" "?d ! lower_bound ?d (xs ! k) = xs ! k"
        using lower_bound_found [OF sorted_unique_strict, of "xs ! k" xs] that by simp_all
      then have "lower_bound ?d (xs ! k) < 256" using ok len_d by (simp add: dict_ok_def)
      then have "unat (?idx ! k) = lower_bound ?d (xs ! k)"
        using that by (simp add: DictEncoder_indices_def unat_of_nat)
      with f show ?thesis by simp
    qed
    have im: "dict_image xs = bytes_of (of_nat ?n :: u32) @ bytes_of_array ?d @
        bytes_of (of_nat ?w :: byte) @ bytes_of_array ?idx"
      using False by (simp add: dict_image_def)
    show ?thesis
    proof (cases "?w = 0")
      case True
      then have "?n \<le> 1" using index_width_facts(2) [OF n] by simp
      then obtain v where v: "set xs = {v}"
        using False by (metis card_1_singletonE card_0_eq finite_set le_antisym less_one not_le set_empty)
      then have "replicate (length xs) v = xs" by (intro replicate_eqI [symmetric]) auto
      moreover have "?d ! 0 = v" and "0 < length ?d"
        using v set_sorted_unique [of xs] False nth_mem [of 0 ?d] by (auto simp del: set_sorted_unique)
      ultimately show ?thesis
        using parts(1,2,3) True False len unat_n len_d unfolding im
        by (simp add: DictDecoder_Decode_def)
    next
      case False
      then have "(of_nat ?w :: byte) \<noteq> 0" and "(of_nat ?w :: byte) \<le> 8"
        using w by (simp_all add: word_le_nat_alt unat_of_nat word_of_nat_eq_0_iff nat_dvd_not_less)
      then show ?thesis
        using parts(1,3) DictDecoder_loop_indices [OF assms _ _ idx] len unat_n len_d \<open>xs \<noteq> []\<close>
        unfolding im by (simp add: DictDecoder_Decode_def Let_def DictEncoder_indices_def)
    qed
  qed
qed

interpretation dict32: codec DictEncoder_Encode DictDecoder_Decode dict_ok
  "dict_image :: 32 word list \<Rightarrow> _"
  by (rule dict_codec) simp

interpretation dict64: codec DictEncoder_Encode DictDecoder_Decode dict_ok
  "dict_image :: 64 word list \<Rightarrow> _"
  by (rule dict_codec) simp

text \<open>With more distinct values the index array is cut to as many bytes as there are values, and
  decoding what was written runs off the end of the buffer.\<close>

lemma map_res_Inl:
  "i \<in> set is \<Longrightarrow> f i = Inl e \<Longrightarrow> (\<And>j e'. j \<in> set is \<Longrightarrow> f j = Inl e' \<Longrightarrow> e' = e) \<Longrightarrow> map_res f is = Inl e"
proof (induction "is")
  case (Cons j js)
  show ?case
  proof (cases "f j")
    case (Inl e')
    then show ?thesis using Cons.prems(3) [of j e'] by simp
  next
    case (Inr v)
    then have "i \<in> set js" using Cons.prems(1,2) by auto
    then have "map_res f js = Inl e"
      using Cons.IH [OF _ Cons.prems(2)] Cons.prems(3) by (meson list.set_intros(2))
    then show ?thesis using Inr by simp
  qed
qed simp

lemma read_elem_Inl: "read_elem src off i = Inl e \<Longrightarrow> e = OutOfBounds"
  by (simp add: read_elem_def read_word_def split: if_splits)

lemma DictDecoder_loop_short:
  assumes "length src < off + n * sizeof TYPE('i::len)" and "0 < n" and "0 < sizeof TYPE('i)"
  shows "DictDecoder_loop TYPE('i) src off n = (Inl OutOfBounds :: 'a::len word list res)"
  unfolding DictDecoder_loop_def
proof (rule map_res_Inl [of "n - 1"])
  show "n - 1 \<in> set [0..<n]" using assms(2) by simp
  have "off + (n - 1) * sizeof TYPE('i) + sizeof TYPE('i) = off + n * sizeof TYPE('i)"
    using assms(2) by (cases n) simp_all
  then have "read_elem src off (n - 1) = (Inl OutOfBounds :: 'i word res)"
    using assms(1) by (simp add: read_elem_def read_word_def)
  then show "bind_res (read_elem src off (n - 1) :: 'i word res) (\<lambda>k. read_elem src 4 (unat k)) =
      (Inl OutOfBounds :: 'a word res)" by simp
next
  fix j e
  assume "bind_res (read_elem src off j :: 'i word res) (\<lambda>k. read_elem src 4 (unat k)) = (Inl e :: 'a word res)"
  then show "e = OutOfBounds"
    by (cases "read_elem src off j :: 'i word res") (auto dest: read_elem_Inl)
qed

lemma dict_truncated:
  fixes xs dst :: "'a::len word list"
  assumes "8 dvd LENGTH('a)" and "256 < card (set xs)" and "card (set xs) \<le> 2 ^ 31"
    and "length dst = length xs" and "Buffer_inv b" and "contents b = []"
  shows "\<exists>b'. DictEncoder_Encode xs b = Inr b' \<and> DictDecoder_Decode (contents b') dst = Inl OutOfBounds"
proof -
  let ?n = "card (set xs)" let ?d = "sorted_unique xs" let ?w = "index_width ?n" let ?k = "length xs"
  have ne: "xs \<noteq> []" and len_d: "length ?d = ?n" using assms(2) by (auto simp: length_sorted_unique)
  have w: "8 < ?w" "?w \<le> 31" "index_bits_loop (of_nat ?n) 0 = Inr ?w"
    using index_width_le_8 [OF assms(3)] assms(2) index_width_facts(1,3) [OF assms(3)] by simp_all
  have k: "256 < ?k" using assms(2) card_length [of xs] by linarith
  define idx :: "byte list" where "idx = (if ?w \<le> 16
    then take ?k (bytes_of_array (DictEncoder_indices ?d xs :: 16 word list))
    else take ?k (bytes_of_array (DictEncoder_indices ?d xs :: u32 list)))"
  have "bytes_of_array (bs :: byte list) = bs" for bs
    by (induction bs) (simp_all add: bytes_of_def)
  then have "\<exists>b'. DictEncoder_Encode xs b = Inr b' \<and> contents b' = bytes_of (of_nat ?n :: u32) @
      bytes_of_array ?d @ bytes_of (of_nat ?w :: byte) @ bytes_of_array idx"
    using assms(5,6) ne w len_d
    by (cases "?w \<le> 16") (simp_all add: DictEncoder_Encode_def Let_def idx_def)
  then obtain b' where b': "DictEncoder_Encode xs b = Inr b'" "contents b' =
    bytes_of (of_nat ?n :: u32) @ bytes_of_array ?d @ bytes_of (of_nat ?w :: byte) @ bytes_of_array idx"
    by blast
  have len_idx: "length idx \<le> ?k" by (simp add: idx_def)
  note parts = read_dict_parts [OF assms(1), where dict = ?d and idx = idx and n = "of_nat ?n" and b = "of_nat ?w"]
  have un: "unat (of_nat ?n :: u32) = ?n" "unat (of_nat ?w :: byte) = ?w"
    using assms(3) w(2) by (simp_all add: unat_of_nat)
  then have byte_w: "(of_nat ?w :: byte) \<noteq> 0" "\<not> (of_nat ?w :: byte) \<le> 8"
    using w(1) by (auto simp: word_le_nat_alt)
  have short: "length (contents b') < Suc (4 + ?n * sizeof TYPE('a)) + ?k * m" if "2 \<le> m" for m
  proof -
    have "?k < ?k * 2" using k by linarith
    also have "\<dots> \<le> ?k * m" using that by (intro mult_le_mono2)
    finally have "length idx < ?k * m" using len_idx by linarith
    then show ?thesis using len_d by (simp add: b'(2))
  qed
  have "DictDecoder_loop TYPE(16) (contents b') (Suc (4 + ?n * sizeof TYPE('a))) ?k = (Inl OutOfBounds :: 'a word list res)"
    and "DictDecoder_loop TYPE(32) (contents b') (Suc (4 + ?n * sizeof TYPE('a))) ?k = (Inl OutOfBounds :: 'a word list res)"
    using short [of 2] short [of 4] k by (auto intro!: DictDecoder_loop_short)
  then have "DictDecoder_Decode (contents b') dst = Inl OutOfBounds"
    using parts(1,3) un byte_w ne assms(4) len_d by (simp add: DictDecoder_Decode_def Let_def b'(2))
  with b'(1) show ?thesis by blast
qed

section \<open>Facts on the in-memory dictionary\<close>

text \<open>Every id in use is the position of its value.\<close>

definition Dict_inv :: "'a Dict \<Rightarrow> bool" where
  "Dict_inv d \<longleftrightarrow> distinct (dictionary d) \<and> dom (value_to_id d) = set (dictionary d) \<and>
     (\<forall>v i. value_to_id d v = Some i \<longrightarrow>
        unat i < length (dictionary d) \<and> dictionary d ! unat i = v)"

lemma Dict_inv_empty: "Dict_inv Dict_empty"
  by (simp add: Dict_inv_def Dict_empty_def)

lemma Build_value_inv:
  assumes "Dict_inv d" and "length (dictionary d) < 2 ^ 32" and "Build_value v d = (i, d')"
  shows "Dict_inv d'" and "value_to_id d' v = Some i" and "value_to_id d \<subseteq>\<^sub>m value_to_id d'"
    and "set (dictionary d') = insert v (set (dictionary d))"
proof -
  have "Dict_inv d' \<and> value_to_id d' v = Some i \<and> value_to_id d \<subseteq>\<^sub>m value_to_id d' \<and>
    set (dictionary d') = insert v (set (dictionary d))"
  proof (cases "value_to_id d v")
    case (Some j)
    then have "v \<in> set (dictionary d)" using assms(1) by (auto simp: Dict_inv_def)
    with Some assms(1,3) show ?thesis by (auto simp: Build_value_def)
  next
    case None
    then have "v \<notin> set (dictionary d)" using assms(1) by (auto simp: Dict_inv_def)
    moreover have "unat (of_nat (length (dictionary d)) :: u32) = length (dictionary d)"
      using assms(2) by (simp add: unat_of_nat)
    ultimately show ?thesis
      using assms(1,3) None
      by (auto simp: Build_value_def Let_def Dict_inv_def map_le_def nth_append less_Suc_eq dom_def
          set_eq_iff split: if_splits)
  qed
  then show "Dict_inv d'" and "value_to_id d' v = Some i" and "value_to_id d \<subseteq>\<^sub>m value_to_id d'"
    and "set (dictionary d') = insert v (set (dictionary d))" by blast+
qed

lemma Dict_inv_card: "Dict_inv d \<Longrightarrow> length (dictionary d) = card (set (dictionary d))"
  by (simp add: Dict_inv_def distinct_card)

lemma Build_loop_inv:
  assumes "Dict_inv d" and "card (set (dictionary d) \<union> set vs) < 2 ^ 32" and "Build_loop vs d = (is, d')"
  shows "Dict_inv d' \<and> map (value_to_id d') vs = map Some is \<and> value_to_id d \<subseteq>\<^sub>m value_to_id d' \<and>
    set (dictionary d') = set (dictionary d) \<union> set vs"
  using assms
proof (induction vs arbitrary: d "is")
  case Nil
  then show ?case by simp
next
  case (Cons v vs)
  obtain i d1 where b: "Build_value v d = (i, d1)" by (cases "Build_value v d")
  obtain js d2 where l: "Build_loop vs d1 = (js, d2)" by (cases "Build_loop vs d1")
  have "is = i # js" and d2: "d' = d2" using Cons.prems(3) b l by (simp_all split: prod.splits)
  have "card (set (dictionary d)) \<le> card (set (dictionary d) \<union> set (v # vs))"
    by (intro card_mono) auto
  then have "length (dictionary d) < 2 ^ 32"
    using Cons.prems(2) by (simp add: Dict_inv_card [OF Cons.prems(1)])
  note v = Build_value_inv [OF Cons.prems(1) this b]
  have IH: "Dict_inv d' \<and> map (value_to_id d') vs = map Some js \<and> value_to_id d1 \<subseteq>\<^sub>m value_to_id d' \<and>
      set (dictionary d') = set (dictionary d1) \<union> set vs"
    using Cons.prems(2) v(1,4) l by (intro Cons.IH) (simp_all add: d2)
  then have "value_to_id d' v = Some i"
    using v(2) by (metis domI map_le_def)
  with IH v show ?case
    unfolding \<open>is = i # js\<close> by (auto intro: map_le_trans)
qed

lemma Dict_Build_facts:
  assumes "Dict_inv d" and "card (set (dictionary d) \<union> set vs) < 2 ^ 32"
  shows "Dict_inv (Dict_Build vs d)" and "map (value_to_id (Dict_Build vs d)) vs = map Some (indices (Dict_Build vs d))"
    and "set (dictionary (Dict_Build vs d)) = set (dictionary d) \<union> set vs"
proof -
  obtain js d1 where l: "Build_loop vs d = (js, d1)" by (cases "Build_loop vs d")
  note f = Build_loop_inv [OF assms l]
  then show "Dict_inv (Dict_Build vs d)"
    and "map (value_to_id (Dict_Build vs d)) vs = map Some (indices (Dict_Build vs d))"
    and "set (dictionary (Dict_Build vs d)) = set (dictionary d) \<union> set vs"
    by (simp_all add: Dict_Build_def l Dict_inv_def)
qed

text \<open>Encoding known values gives their ids, and decoding the ids gives the values.\<close>

lemma Dict_decode_ids:
  assumes "Dict_inv d" and "map (value_to_id d) vs = map Some is"
  shows "Dict_Encode vs d = Inr is" and "Dict_Decode (dictionary d) is = Inr vs"
  using assms(2)
proof (induction vs arbitrary: "is")
  case Nil
  {
    case 1
    then show ?case by (simp add: Dict_Encode_def)
  next
    case 2
    then show ?case by (simp add: Dict_Decode_def)
  }
next
  case (Cons v vs)
  {
    case 1
    with Cons.IH(1) show ?case by (cases "is") (auto simp: Dict_Encode_def)
  next
    case 2
    then obtain i js where "is = i # js" "value_to_id d v = Some i" "map (value_to_id d) vs = map Some js"
      by (cases "is") auto
    with Cons.IH(2) assms(1) show ?case by (simp add: Dict_Decode_def Dict_inv_def nth_res_def)
  }
qed

lemma Dict_Encode_known:
  assumes "Dict_inv d" and "set vs \<subseteq> set (dictionary d)"
  shows "\<exists>is. Dict_Encode vs d = Inr is \<and> Dict_Decode (dictionary d) is = Inr vs"
proof -
  have "\<exists>is. map (value_to_id d) vs = map Some is"
    using assms(2)
  proof (induction vs)
    case (Cons v vs)
    then obtain js where js: "map (value_to_id d) vs = map Some js" by auto
    have "v \<in> dom (value_to_id d)" using Cons.prems assms(1) by (simp add: Dict_inv_def)
    then obtain i where "value_to_id d v = Some i" by blast
    with js have "map (value_to_id d) (v # vs) = map Some (i # js)" by simp
    then show ?case by blast
  qed simp
  with Dict_decode_ids [OF assms(1)] show ?thesis by blast
qed

section \<open>Properties\<close>

text \<open>building the dictionary of a column assigns ids that are positions of distinct values;
  decoding the stored indices gives the column, and encoding any values of the column and
  decoding them gives those values.\<close>

lemma dict_build_decodes:
  assumes "card (set vs) < 2 ^ 32" and "set ws \<subseteq> set vs"
  shows "Dict_inv (Dict_Build vs Dict_empty) \<and>
    Dict_Decode (dictionary (Dict_Build vs Dict_empty)) (indices (Dict_Build vs Dict_empty)) = Inr vs \<and>
    (\<exists>is. Dict_Encode ws (Dict_Build vs Dict_empty) = Inr is \<and>
       Dict_Decode (dictionary (Dict_Build vs Dict_empty)) is = Inr ws)"
proof -
  let ?d = "Dict_Build vs Dict_empty"
  have "card (set (dictionary (Dict_empty :: 'a Dict)) \<union> set vs) < 2 ^ 32"
    using assms(1) by (simp add: Dict_empty_def)
  note b = Dict_Build_facts [OF Dict_inv_empty this]
  moreover have "set ws \<subseteq> set (dictionary ?d)" using assms(2) b(3) by (simp add: Dict_empty_def)
  ultimately show ?thesis using Dict_decode_ids(2) Dict_Encode_known by blast
qed

text \<open>with more than 256 distinct values the factory's dictionary encoder writes one byte per
  index instead of two or four, and its decoder runs off the end of what was written.\<close>

lemma dict_wide_indices_truncated:
  fixes xs dst :: "'a::len word list"
  assumes "8 dvd LENGTH('a)" and "256 < card (set xs)" and "card (set xs) \<le> 2 ^ 31"
    and "length dst = length xs"
  shows "\<exists>b. DictEncoder_Encode xs Buffer_empty = Inr b \<and> DictDecoder_Decode (contents b) dst = Inl OutOfBounds"
  by (rule dict_truncated [OF assms]) simp_all

end
