(* ===== verification/FloatCodecs.thy ===== *)
theory FloatCodecs
  imports BasicCodecs Floats
begin

text \<open>
  \<^verbatim>\<open>RLEEncoder<Float>\<close> and \<^verbatim>\<open>RLEEncoder<Double>\<close> of \<^verbatim>\<open>include/columnar/encoding/encoding.h\<close>, which the run-time factory
  creates for floating-point columns. Runs are formed by \<^verbatim>\<open>==\<close>: a NaN never continues a run, and the two zeros
  share one. The decoder copies bit patterns and is the one of the integer types.
\<close>

fun RLEEncoder_loop_fp :: "'a::len word list \<Rightarrow> 'a word \<Rightarrow> u32 \<Rightarrow> Buffer \<Rightarrow> Buffer" where
  "RLEEncoder_loop_fp [] current run_length out =
     Buffer_AppendValue run_length (Buffer_AppendValue current out)"
| "RLEEncoder_loop_fp (x # xs) current run_length out =
     (if fp_eq x current \<and> run_length < - 1
      then RLEEncoder_loop_fp xs current (run_length + 1) out
      else RLEEncoder_loop_fp xs x 1
             (Buffer_AppendValue run_length (Buffer_AppendValue current out)))"

fun RLEEncoder_Encode_fp :: "'a::len word list \<Rightarrow> Buffer \<Rightarrow> Buffer res" where
  "RLEEncoder_Encode_fp [] out = Inr out"
| "RLEEncoder_Encode_fp (x # xs) out = Inr (RLEEncoder_loop_fp xs x 1 out)"

section \<open>Facts\<close>

text \<open>The runs the encoder appends, and what they stand for: every value up to the sign of a zero.\<close>

fun fp_runs :: "'a::len word list \<Rightarrow> 'a word \<Rightarrow> u32 \<Rightarrow> 'a word RlePair list" where
  "fp_runs [] current n = [\<lparr>rp_value = current, rp_count = n\<rparr>]"
| "fp_runs (x # xs) current n =
     (if fp_eq x current \<and> n < - 1 then fp_runs xs current (n + 1)
      else \<lparr>rp_value = current, rp_count = n\<rparr> # fp_runs xs x 1)"

definition fp_same :: "'a::len word \<Rightarrow> 'a word \<Rightarrow> bool" where
  "fp_same x y \<longleftrightarrow> x = y \<or> fp_eq x y"

lemma RLEEncoder_loop_fp_contents:
  "Buffer_inv out \<Longrightarrow> Buffer_inv (RLEEncoder_loop_fp xs current n out) \<and>
     contents (RLEEncoder_loop_fp xs current n out) = contents out @ run_bytes (fp_runs xs current n)"
  by (induction xs arbitrary: current n out) simp_all

lemma fp_eq_refl: "\<not> fp_nan x \<Longrightarrow> fp_eq x x"
  by (simp add: fp_eq_def)

lemma unat_Suc_max: "n < - 1 \<Longrightarrow> unat (n + 1) = Suc (unat n)" for n :: "'a::len word"
  by (metis add.commute less_irrefl not_less_iff_gr_or_eq unatSuc word_order.not_eq_extremum add_eq_0_iff minus_equation_iff)

lemma expand_fp_runs:
  "\<exists>ys. expand (fp_runs xs current n) = replicate (unat n) current @ ys \<and> list_all2 fp_same xs ys"
proof (induction xs arbitrary: current n)
  case (Cons x xs)
  show ?case
  proof (cases "fp_eq x current \<and> n < - 1")
    case True
    from Cons.IH [of current "n + 1"] obtain ys where
      "expand (fp_runs xs current (n + 1)) = replicate (unat (n + 1)) current @ ys" "list_all2 fp_same xs ys" by blast
    moreover have "fp_same x current" using True by (simp add: fp_same_def)
    ultimately show ?thesis using True
      by (intro exI [of _ "current # ys"]) (simp add: unat_Suc_max replicate_append_same flip: replicate_Suc)
  next
    case False
    from Cons.IH [of x 1] obtain ys where
      "expand (fp_runs xs x 1) = replicate (unat (1 :: u32)) x @ ys" "list_all2 fp_same xs ys" by blast
    moreover have "fp_same x x" by (simp add: fp_same_def)
    ultimately show ?thesis using False by (intro exI [of _ "x # ys"]) auto
  qed
qed simp

text \<open>A floating-point column survives up to the sign of its zeros; values other than zero keep their bits.\<close>

lemma fp_same_bits: "fp_same x y \<Longrightarrow> fp_mag x = fp_mag y \<and> (fp_mag x \<noteq> 0 \<longrightarrow> fp_neg x = fp_neg y)"
  by (auto simp: fp_same_def fp_eq_def fp_key_def split: if_splits)

lemma rle_float_round_trip:
  fixes xs dst :: "'a::len word list"
  assumes "8 dvd LENGTH('a)" and "Buffer_inv b" and "contents b = []" and "length dst = length xs"
  shows "\<exists>b' ys. RLEEncoder_Encode_fp xs b = Inr b' \<and> RLEDecoder_Decode (contents b') dst = Inr ys \<and>
    list_all2 fp_same xs ys"
proof (cases xs)
  case Nil
  then show ?thesis using assms RLEDecoder_loop_runs [OF assms(1), of "[]" "[]" dst 0]
    by (simp add: RLEDecoder_Decode_def)
next
  case (Cons x zs)
  let ?rs = "fp_runs zs x 1"
  obtain ys where ys: "expand ?rs = x # ys" "list_all2 fp_same zs ys" using expand_fp_runs [of zs x 1] by auto
  have len: "length (expand ?rs) = length xs" using ys Cons by (simp add: list_all2_lengthD)
  have "contents (RLEEncoder_loop_fp zs x 1 b) = run_bytes ?rs"
    using RLEEncoder_loop_fp_contents [OF assms(2), of zs x 1] assms(3) by simp
  moreover have "RLEDecoder_Decode (run_bytes ?rs) dst = Inr (expand ?rs)"
    using RLEDecoder_loop_runs [OF assms(1), of "[]" ?rs dst 0] assms(4) len
    by (simp add: RLEDecoder_Decode_def RleDecoder_Decode_eq blit_all)
  ultimately show ?thesis using ys Cons by (simp add: fp_same_def)
qed

text \<open>The sign of a zero is lost.\<close>

lemma rle_float_zero_sign:
  "RLEEncoder_Encode_fp [0, 0x80000000 :: u32] b = RLEEncoder_Encode_fp [0, 0 :: u32] b"
proof -
  have "(1 :: u32) < - 1" by code_simp
  then show ?thesis
    by (simp add: fp_eq_def fp_nan_def fp_key_def fp_mag_def fp_mant_bits_def fp_neg_def take_bit_eq_mod)
qed

end
