(* ===== verification/Codecs.thy ===== *)
theory Codecs
  imports BasicCodecs PackCodecs DictCodecs FloatCodecs
begin

text \<open>
  The codec factory: \<^verbatim>\<open>CreateEncoder\<close> and \<^verbatim>\<open>CreateDecoder\<close> of
  \<^verbatim>\<open>include/columnar/encoding/encoding.h\<close>, the variant of \<^verbatim>\<open>include/columnar/encoding.h\<close> that returns
  a null pointer for what it does not know, and the block compressors of \<^verbatim>\<open>src/encoding/zstd.cpp\<close>
  over the compression libraries, which are parameters. An encoder object is the class template
  and its type argument; encoding reads the untyped memory behind \<^verbatim>\<open>data\<close> at that type.
\<close>

section \<open>Encoder and decoder objects\<close>

datatype Encoder =
    PlainEncoder DataType | RLEEncoder DataType | DeltaEncoder DataType | FOREncoder DataType
  | DictEncoder DataType | BitPackEncoder DataType

datatype Decoder =
    PlainDecoder DataType | RLEDecoder DataType | DeltaDecoder DataType | FORDecoder DataType
  | DictDecoder DataType | BitPackDecoder DataType

fun Encoder_Type :: "Encoder \<Rightarrow> EncodingType" where
  "Encoder_Type (PlainEncoder _) = Plain" | "Encoder_Type (RLEEncoder _) = RLE"
| "Encoder_Type (DeltaEncoder _) = Delta" | "Encoder_Type (FOREncoder _) = FOR"
| "Encoder_Type (DictEncoder _) = Dictionary" | "Encoder_Type (BitPackEncoder _) = BitPack"

fun Decoder_Type :: "Decoder \<Rightarrow> EncodingType" where
  "Decoder_Type (PlainDecoder _) = Plain" | "Decoder_Type (RLEDecoder _) = RLE"
| "Decoder_Type (DeltaDecoder _) = Delta" | "Decoder_Type (FORDecoder _) = FOR"
| "Decoder_Type (DictDecoder _) = Dictionary" | "Decoder_Type (BitPackDecoder _) = BitPack"

text \<open>An unknown combination falls back to \<^verbatim>\<open>PlainEncoder<Int32>\<close>.\<close>

fun CreateEncoder :: "EncodingType \<Rightarrow> DataType \<Rightarrow> Encoder" where
  "CreateEncoder Plain dt = (if IsNumeric dt then PlainEncoder dt else PlainEncoder Int32)"
| "CreateEncoder RLE dt = (if IsNumeric dt then RLEEncoder dt else PlainEncoder Int32)"
| "CreateEncoder Delta dt = (if IsInteger dt then DeltaEncoder dt else PlainEncoder Int32)"
| "CreateEncoder FOR dt = (if IsInteger dt then FOREncoder dt else PlainEncoder Int32)"
| "CreateEncoder Dictionary dt = (if IsNumeric dt then DictEncoder dt else PlainEncoder Int32)"
| "CreateEncoder BitPack dt = (if IsInteger dt then BitPackEncoder dt else PlainEncoder Int32)"
| "CreateEncoder _ dt = PlainEncoder Int32"

fun CreateDecoder :: "EncodingType \<Rightarrow> DataType \<Rightarrow> Decoder" where
  "CreateDecoder Plain dt = (if IsNumeric dt then PlainDecoder dt else PlainDecoder Int32)"
| "CreateDecoder RLE dt = (if IsNumeric dt then RLEDecoder dt else PlainDecoder Int32)"
| "CreateDecoder Delta dt = (if IsInteger dt then DeltaDecoder dt else PlainDecoder Int32)"
| "CreateDecoder FOR dt = (if IsInteger dt then FORDecoder dt else PlainDecoder Int32)"
| "CreateDecoder Dictionary dt = (if IsNumeric dt then DictDecoder dt else PlainDecoder Int32)"
| "CreateDecoder BitPack dt = (if IsInteger dt then BitPackDecoder dt else PlainDecoder Int32)"
| "CreateDecoder _ dt = PlainDecoder Int32"

text \<open>The compile-time factories, one specialisation for each pair. In \<^verbatim>\<open>encoding/encoding.h\<close> an outer \<open>None\<close> is a
  pair without specialisation and an inner \<open>None\<close> a null pointer.\<close>

definition static_encoder :: "EncodingType \<Rightarrow> DataType \<Rightarrow> Encoder option option" where
  "static_encoder enc dt =
     (if dt = Boolean then None
      else case (case enc of Plain \<Rightarrow> Some (PlainEncoder dt) | RLE \<Rightarrow> Some (RLEEncoder dt)
                  | Delta \<Rightarrow> Some (DeltaEncoder dt) | FOR \<Rightarrow> Some (FOREncoder dt)
                  | Dictionary \<Rightarrow> Some (DictEncoder dt) | BitPack \<Rightarrow> Some (BitPackEncoder dt) | _ \<Rightarrow> None) of
             None \<Rightarrow> None
           | Some e \<Rightarrow> Some (if dt = Varchar then None else Some e))"

definition static_decoder :: "EncodingType \<Rightarrow> DataType \<Rightarrow> Decoder option option" where
  "static_decoder enc dt =
     (if dt = Boolean then None
      else case (case enc of Plain \<Rightarrow> Some (PlainDecoder dt) | RLE \<Rightarrow> Some (RLEDecoder dt)
                  | Delta \<Rightarrow> Some (DeltaDecoder dt) | FOR \<Rightarrow> Some (FORDecoder dt)
                  | Dictionary \<Rightarrow> Some (DictDecoder dt) | BitPack \<Rightarrow> Some (BitPackDecoder dt) | _ \<Rightarrow> None) of
             None \<Rightarrow> None
           | Some e \<Rightarrow> Some (if dt = Varchar then None else Some e))"

text \<open>Those of \<^verbatim>\<open>columnar/encoding.h\<close>: \<open>None\<close> is a pair without specialisation.\<close>

fun template_encoder :: "EncodingType \<Rightarrow> DataType \<Rightarrow> Encoder option" where
  "template_encoder Plain Int32 = Some (PlainEncoder Int32)" | "template_encoder Plain Int64 = Some (PlainEncoder Int64)"
| "template_encoder Plain Float = Some (PlainEncoder Float)" | "template_encoder Plain Double = Some (PlainEncoder Double)"
| "template_encoder RLE Int32 = Some (RLEEncoder Int32)" | "template_encoder RLE Int64 = Some (RLEEncoder Int64)"
| "template_encoder Delta Int32 = Some (DeltaEncoder Int32)" | "template_encoder Delta Int64 = Some (DeltaEncoder Int64)"
| "template_encoder FOR Int32 = Some (FOREncoder Int32)" | "template_encoder FOR Int64 = Some (FOREncoder Int64)"
| "template_encoder Dictionary Int32 = Some (DictEncoder Int32)"
| "template_encoder Dictionary Int64 = Some (DictEncoder Int64)"
| "template_encoder BitPack Int32 = Some (BitPackEncoder Int32)"
| "template_encoder BitPack Int64 = Some (BitPackEncoder Int64)"
| "template_encoder _ _ = None"

fun template_decoder :: "EncodingType \<Rightarrow> DataType \<Rightarrow> Decoder option" where
  "template_decoder Plain Int32 = Some (PlainDecoder Int32)" | "template_decoder Plain Int64 = Some (PlainDecoder Int64)"
| "template_decoder Plain Float = Some (PlainDecoder Float)" | "template_decoder Plain Double = Some (PlainDecoder Double)"
| "template_decoder RLE Int32 = Some (RLEDecoder Int32)" | "template_decoder RLE Int64 = Some (RLEDecoder Int64)"
| "template_decoder Delta Int32 = Some (DeltaDecoder Int32)" | "template_decoder Delta Int64 = Some (DeltaDecoder Int64)"
| "template_decoder FOR Int32 = Some (FORDecoder Int32)" | "template_decoder FOR Int64 = Some (FORDecoder Int64)"
| "template_decoder Dictionary Int32 = Some (DictDecoder Int32)"
| "template_decoder Dictionary Int64 = Some (DictDecoder Int64)"
| "template_decoder BitPack Int32 = Some (BitPackDecoder Int32)"
| "template_decoder BitPack Int64 = Some (BitPackDecoder Int64)"
| "template_decoder _ _ = None"

text \<open>The pairs \<^verbatim>\<open>src/encoding/instantiations.cpp\<close> instantiates, as encoders and as decoders.\<close>

definition instantiations :: "(EncodingType \<times> DataType) list" where
  "instantiations =
     [(Plain, Int32), (Plain, Int64), (Plain, Float), (Plain, Double), (RLE, Int32), (RLE, Int64),
      (Delta, Int32), (Delta, Int64), (FOR, Int32), (FOR, Int64),
      (Dictionary, Int32), (Dictionary, Int64), (Dictionary, Float), (Dictionary, Double),
      (BitPack, Int32), (BitPack, Int64)]"

text \<open>The factory of \<^verbatim>\<open>columnar/encoding.h\<close>: \<open>None\<close> is the null pointer.\<close>

fun CreateEncoder_or_null :: "EncodingType \<Rightarrow> DataType \<Rightarrow> Encoder option" where
  "CreateEncoder_or_null Plain dt = (if IsNumeric dt then Some (PlainEncoder dt) else None)"
| "CreateEncoder_or_null RLE dt = (if IsInteger dt then Some (RLEEncoder dt) else None)"
| "CreateEncoder_or_null Delta dt = (if IsInteger dt then Some (DeltaEncoder dt) else None)"
| "CreateEncoder_or_null FOR dt = (if IsInteger dt then Some (FOREncoder dt) else None)"
| "CreateEncoder_or_null Dictionary dt = (if IsInteger dt then Some (DictEncoder dt) else None)"
| "CreateEncoder_or_null BitPack dt = (if IsInteger dt then Some (BitPackEncoder dt) else None)"
| "CreateEncoder_or_null _ dt = None"

fun CreateDecoder_or_null :: "EncodingType \<Rightarrow> DataType \<Rightarrow> Decoder option" where
  "CreateDecoder_or_null Plain dt = (if IsNumeric dt then Some (PlainDecoder dt) else None)"
| "CreateDecoder_or_null RLE dt = (if IsInteger dt then Some (RLEDecoder dt) else None)"
| "CreateDecoder_or_null Delta dt = (if IsInteger dt then Some (DeltaDecoder dt) else None)"
| "CreateDecoder_or_null FOR dt = (if IsInteger dt then Some (FORDecoder dt) else None)"
| "CreateDecoder_or_null Dictionary dt = (if IsInteger dt then Some (DictDecoder dt) else None)"
| "CreateDecoder_or_null BitPack dt = (if IsInteger dt then Some (BitPackDecoder dt) else None)"
| "CreateDecoder_or_null _ dt = None"

text \<open>The factories of \<^verbatim>\<open>rle.h\<close>, \<^verbatim>\<open>bitpack.h\<close> and \<^verbatim>\<open>dictionary.h\<close> return the codecs of \<^verbatim>\<open>encoding/encoding.h\<close>.\<close>

definition CreateRleEncoder :: "DataType \<Rightarrow> Encoder" where "CreateRleEncoder = RLEEncoder"
definition CreateRleDecoder :: "DataType \<Rightarrow> Decoder" where "CreateRleDecoder = RLEDecoder"
definition CreateBitPackEncoder :: "DataType \<Rightarrow> Encoder" where "CreateBitPackEncoder = BitPackEncoder"
definition CreateBitPackDecoder :: "DataType \<Rightarrow> Decoder" where "CreateBitPackDecoder = BitPackDecoder"
definition CreateDictionaryEncoder :: "DataType \<Rightarrow> Encoder" where "CreateDictionaryEncoder = DictEncoder"
definition CreateDictionaryDecoder :: "DataType \<Rightarrow> Decoder" where "CreateDictionaryDecoder = DictDecoder"

section \<open>Virtual calls\<close>

text \<open>The memory behind a \<^verbatim>\<open>void*\<close> as \<open>count\<close> elements.\<close>

definition read_array :: "byte list \<Rightarrow> nat \<Rightarrow> 'a::len word list res" where
  "read_array data count = map_res (read_elem data 0) [0..<count]"

definition encode_typed ::
  "('a::len word list \<Rightarrow> Buffer \<Rightarrow> Buffer res) \<Rightarrow> byte list \<Rightarrow> nat \<Rightarrow> Buffer \<Rightarrow> Buffer res" where
  "encode_typed f data count out = bind_res (read_array data count) (\<lambda>xs. f xs out)"

text \<open>The result is the memory behind \<^verbatim>\<open>out\<close>: the first \<open>count\<close> elements are written.\<close>

definition decode_typed ::
  "(byte list \<Rightarrow> 'a::len word list \<Rightarrow> 'a word list res) \<Rightarrow> byte list \<Rightarrow> byte list \<Rightarrow> nat \<Rightarrow> byte list res" where
  "decode_typed f src out count =
     bind_res (read_array out count :: 'a word list res) (\<lambda>dst.
     bind_res (f src dst) (\<lambda>ys.
       Inr (bytes_of_array ys @ drop (count * sizeof TYPE('a)) out)))"

text \<open>\<^verbatim>\<open>encoder->Encode(data, count, out)\<close>. \<open>None\<close> marks the instantiations for floating-point data
  whose subtraction, shifts or sorting are outside the model; plain and run-length encoding and every decoder that
  copies are not.\<close>

fun by_width :: "DataType \<Rightarrow> 'r \<Rightarrow> 'r \<Rightarrow> 'r option" where
  "by_width Int32 a b = Some a"
| "by_width Int64 a b = Some b"
| "by_width _ a b = None"

fun copy_width :: "DataType \<Rightarrow> 'r \<Rightarrow> 'r \<Rightarrow> 'r option" where
  "copy_width Float a b = Some a"
| "copy_width Double a b = Some b"
| "copy_width dt a b = by_width dt a b"

definition Encoder_Encode :: "Encoder \<Rightarrow> byte list \<Rightarrow> nat \<Rightarrow> Buffer \<Rightarrow> Buffer res option" where
  "Encoder_Encode enc data count out =
     (case enc of
        PlainEncoder dt \<Rightarrow> copy_width dt
          (encode_typed (PlainEncoder_Encode :: 32 word list \<Rightarrow> _) data count out)
          (encode_typed (PlainEncoder_Encode :: 64 word list \<Rightarrow> _) data count out)
      | RLEEncoder dt \<Rightarrow>
          if IsFloatingPoint dt then copy_width dt
            (encode_typed (RLEEncoder_Encode_fp :: 32 word list \<Rightarrow> _) data count out)
            (encode_typed (RLEEncoder_Encode_fp :: 64 word list \<Rightarrow> _) data count out)
          else by_width dt
            (encode_typed (RLEEncoder_Encode :: 32 word list \<Rightarrow> _) data count out)
            (encode_typed (RLEEncoder_Encode :: 64 word list \<Rightarrow> _) data count out)
      | DeltaEncoder dt \<Rightarrow> by_width dt
          (encode_typed (DeltaEncoder_Encode :: 32 word list \<Rightarrow> _) data count out)
          (encode_typed (DeltaEncoder_Encode :: 64 word list \<Rightarrow> _) data count out)
      | FOREncoder dt \<Rightarrow> by_width dt
          (encode_typed (FOREncoder_Encode :: 32 word list \<Rightarrow> _) data count out)
          (encode_typed (FOREncoder_Encode :: 64 word list \<Rightarrow> _) data count out)
      | DictEncoder dt \<Rightarrow> by_width dt
          (encode_typed (DictEncoder_Encode :: 32 word list \<Rightarrow> _) data count out)
          (encode_typed (DictEncoder_Encode :: 64 word list \<Rightarrow> _) data count out)
      | BitPackEncoder dt \<Rightarrow> by_width dt
          (encode_typed (BitPackEncoder_Encode :: 32 word list \<Rightarrow> _) data count out)
          (encode_typed (BitPackEncoder_Encode :: 64 word list \<Rightarrow> _) data count out))"

definition Decoder_Decode :: "Decoder \<Rightarrow> byte list \<Rightarrow> byte list \<Rightarrow> nat \<Rightarrow> byte list res option" where
  "Decoder_Decode dec src out count =
     (case dec of
        PlainDecoder dt \<Rightarrow> copy_width dt
          (decode_typed (PlainDecoder_Decode :: _ \<Rightarrow> 32 word list \<Rightarrow> _) src out count)
          (decode_typed (PlainDecoder_Decode :: _ \<Rightarrow> 64 word list \<Rightarrow> _) src out count)
      | RLEDecoder dt \<Rightarrow> copy_width dt
          (decode_typed (RLEDecoder_Decode :: _ \<Rightarrow> 32 word list \<Rightarrow> _) src out count)
          (decode_typed (RLEDecoder_Decode :: _ \<Rightarrow> 64 word list \<Rightarrow> _) src out count)
      | DeltaDecoder dt \<Rightarrow> by_width dt
          (decode_typed (DeltaDecoder_Decode :: _ \<Rightarrow> 32 word list \<Rightarrow> _) src out count)
          (decode_typed (DeltaDecoder_Decode :: _ \<Rightarrow> 64 word list \<Rightarrow> _) src out count)
      | FORDecoder dt \<Rightarrow> by_width dt
          (decode_typed (FORDecoder_Decode :: _ \<Rightarrow> 32 word list \<Rightarrow> _) src out count)
          (decode_typed (FORDecoder_Decode :: _ \<Rightarrow> 64 word list \<Rightarrow> _) src out count)
      | DictDecoder dt \<Rightarrow> copy_width dt
          (decode_typed (DictDecoder_Decode :: _ \<Rightarrow> 32 word list \<Rightarrow> _) src out count)
          (decode_typed (DictDecoder_Decode :: _ \<Rightarrow> 64 word list \<Rightarrow> _) src out count)
      | BitPackDecoder dt \<Rightarrow> by_width dt
          (decode_typed (BitPackDecoder_Decode :: _ \<Rightarrow> 32 word list \<Rightarrow> _) src out count)
          (decode_typed (BitPackDecoder_Decode :: _ \<Rightarrow> 64 word list \<Rightarrow> _) src out count))"

section \<open>Block compressors\<close>

text \<open>\<open>compress level src\<close> is what \<^verbatim>\<open>ZSTD_compress\<close> produces, or \<open>None\<close> on an error;
  \<open>decompress dst src\<close> is the destination after \<^verbatim>\<open>ZSTD_decompress\<close>. Here \<^verbatim>\<open>count\<close> is in bytes.\<close>

definition ZstdEncoder_Encode ::
  "(int \<Rightarrow> byte list \<Rightarrow> byte list option) \<Rightarrow> int \<Rightarrow> byte list \<Rightarrow> nat \<Rightarrow> Buffer \<Rightarrow> Buffer" where
  "ZstdEncoder_Encode compress level data count out =
     (case compress level (take count data) of None \<Rightarrow> out | Some c \<Rightarrow> Buffer_Append c out)"

definition ZstdDecoder_Decode ::
  "(byte list \<Rightarrow> byte list \<Rightarrow> byte list) \<Rightarrow> byte list \<Rightarrow> byte list \<Rightarrow> byte list" where
  "ZstdDecoder_Decode decompress src dst = decompress dst src"

text \<open>\<^verbatim>\<open>LZ4_compress_HC\<close> and \<^verbatim>\<open>LZ4_decompress_safe\<close> take their sizes as \<^verbatim>\<open>int\<close>.\<close>

definition as_int :: "nat \<Rightarrow> int" where
  "as_int n = sint (of_nat n :: u32)"

definition Lz4Encoder_Encode ::
  "(int \<Rightarrow> byte list \<Rightarrow> int \<Rightarrow> byte list option) \<Rightarrow> int \<Rightarrow> byte list \<Rightarrow> nat \<Rightarrow> Buffer \<Rightarrow> Buffer" where
  "Lz4Encoder_Encode compress level data count out =
     (case compress level data (as_int count) of None \<Rightarrow> out | Some c \<Rightarrow> Buffer_Append c out)"

definition Lz4Decoder_Decode ::
  "(byte list \<Rightarrow> int \<Rightarrow> byte list \<Rightarrow> int \<Rightarrow> byte list) \<Rightarrow> byte list \<Rightarrow> byte list \<Rightarrow> byte list" where
  "Lz4Decoder_Decode decompress src dst =
     decompress dst (as_int (length dst)) src (as_int (length src))"

section \<open>Facts\<close>

text \<open>The run-time factories select the specialisations; that of \<^verbatim>\<open>encoding/encoding.h\<close> passes over those of the
  delta, frame-of-reference and bit-packing codecs for floating-point columns.\<close>

lemma template_factories:
  "CreateEncoder_or_null enc dt = template_encoder enc dt" "CreateDecoder_or_null enc dt = template_decoder enc dt"
  by (cases enc; cases dt; simp add: IsNumeric_def IsInteger_def IsFloatingPoint_def)
    (cases enc; cases dt; simp add: IsNumeric_def IsInteger_def IsFloatingPoint_def)

lemma static_factories:
  assumes "dt \<in> {Float, Double} \<longrightarrow> enc \<notin> {Delta, FOR, BitPack}"
  shows "static_encoder enc dt = Some (Some e) \<Longrightarrow> CreateEncoder enc dt = e"
  using assms
  by (cases enc; cases dt; simp add: static_encoder_def IsNumeric_def IsInteger_def IsFloatingPoint_def)

lemma static_decoders:
  assumes "dt \<in> {Float, Double} \<longrightarrow> enc \<notin> {Delta, FOR, BitPack}"
  shows "static_decoder enc dt = Some (Some d) \<Longrightarrow> CreateDecoder enc dt = d"
  using assms
  by (cases enc; cases dt; simp add: static_decoder_def IsNumeric_def IsInteger_def IsFloatingPoint_def)

text \<open>Every explicit instantiation has a specialisation, and the run-time factory returns the same codec for its pair.\<close>

lemma instantiations_specialised:
  assumes "(enc, dt) \<in> set instantiations"
  shows "static_encoder enc dt = Some (Some (CreateEncoder enc dt)) \<and> static_decoder enc dt = Some (Some (CreateDecoder enc dt))"
  using assms unfolding instantiations_def
  by (auto simp: static_encoder_def static_decoder_def IsNumeric_def IsInteger_def IsFloatingPoint_def)

lemma read_array_bytes:
  fixes xs :: "'a::len word list"
  assumes "8 dvd LENGTH('a)"
  shows "read_array (bytes_of_array xs @ rest) (length xs) = Inr xs"
  unfolding read_array_def
  by (rule map_res_upt_nth) (use read_elem_append [OF assms, of "[]" 0 _ xs rest] in simp)

lemma read_array_length:
  assumes "8 dvd LENGTH('a::len)" and "count * sizeof TYPE('a) \<le> length out"
  shows "\<exists>dst :: 'a word list. read_array out count = Inr dst \<and> length dst = count"
proof -
  let ?v = "\<lambda>i. word_of_bytes (take (sizeof TYPE('a)) (drop (i * sizeof TYPE('a)) out)) :: 'a word"
  have "read_elem out 0 i = Inr (?v i)" if "i < count" for i
  proof -
    have "(i + 1) * sizeof TYPE('a) \<le> count * sizeof TYPE('a)" using that by (intro mult_le_mono1) simp
    then show ?thesis using assms(2) by (simp add: read_elem_def read_word_def)
  qed
  then have "read_array out count = Inr (map ?v [0..<count])"
    unfolding read_array_def by (intro map_res_Inr) simp
  then show ?thesis by simp
qed

text \<open>A codec that keeps its contract keeps it across the untyped interface.\<close>

lemma typed_encode:
  fixes xs :: "'a::len word list"
  assumes "codec Enc Dec ok img" and "8 dvd LENGTH('a)" and "ok xs" and "Buffer_inv b"
  shows "\<exists>b'. encode_typed Enc (bytes_of_array xs) (length xs) b = Inr b' \<and> Buffer_inv b' \<and>
    contents b' = contents b @ img xs"
  using codec.encode_appends [OF assms(1,3,4)] read_array_bytes [OF assms(2), of xs "[]"]
  by (simp add: encode_typed_def)

lemma typed_decode:
  fixes xs :: "'a::len word list"
  assumes "codec Enc Dec ok img" and "8 dvd LENGTH('a)" and "ok xs"
    and "length out = length xs * sizeof TYPE('a)"
  shows "decode_typed Dec (img xs) out (length xs) = Inr (bytes_of_array xs)"
proof -
  obtain dst :: "'a word list" where dst: "read_array out (length xs) = Inr dst" "length dst = length xs"
    using read_array_length [OF assms(2), of "length xs" out] assms(4) by auto
  then show ?thesis
    using codec.decode_image [OF assms(1,3) dst(2)] assms(4) by (simp add: decode_typed_def)
qed

text \<open>The domain of each encoding on integer columns.\<close>

fun encodable_as :: "EncodingType \<Rightarrow> 'a::len word list \<Rightarrow> bool" where
  "encodable_as Plain xs = True"
| "encodable_as RLE xs = True"
| "encodable_as Delta xs = delta_ok xs"
| "encodable_as FOR xs = for_ok xs"
| "encodable_as Dictionary xs = dict_ok xs"
| "encodable_as BitPack xs = bitpack_ok xs"
| "encodable_as _ xs = False"

lemmas codec32 = plain32.codec_axioms rle32.codec_axioms delta32.codec_axioms for32.codec_axioms
  dict32.codec_axioms bitpack32.codec_axioms

lemmas codec64 = plain64.codec_axioms rle64.codec_axioms delta64.codec_axioms for64.codec_axioms
  dict64.codec_axioms bitpack64.codec_axioms

text \<open>The block each encoding produces.\<close>

fun block_image :: "EncodingType \<Rightarrow> 'a::len word list \<Rightarrow> byte list" where
  "block_image RLE xs = run_bytes (rle_runs xs)"
| "block_image Delta xs = bytes_of_array (delta_words xs)"
| "block_image FOR xs = for_image xs"
| "block_image Dictionary xs = dict_image xs"
| "block_image BitPack xs = bitpack_image xs"
| "block_image _ xs = bytes_of_array xs"

lemma factory_encode32:
  assumes "encodable_as enc (xs :: 32 word list)" and "Buffer_inv b"
  shows "\<exists>b'. Encoder_Encode (CreateEncoder enc Int32) (bytes_of_array xs) (length xs) b = Some (Inr b') \<and>
    Buffer_inv b' \<and> contents b' = contents b @ block_image enc xs"
  using assms codec32 [THEN typed_encode, where xs = xs and b = b]
  by (cases enc) (simp_all add: Encoder_Encode_def IsNumeric_def IsInteger_def IsFloatingPoint_def)

lemma factory_decode32:
  assumes "encodable_as enc (xs :: 32 word list)" and "length out = length xs * 4"
  shows "Decoder_Decode (CreateDecoder enc Int32) (block_image enc xs) out (length xs) =
    Some (Inr (bytes_of_array xs))"
  using assms codec32 [THEN typed_decode, where xs = xs and out = out]
  by (cases enc) (simp_all add: Decoder_Decode_def IsNumeric_def IsInteger_def)

lemma factory_encode64:
  assumes "encodable_as enc (xs :: 64 word list)" and "Buffer_inv b"
  shows "\<exists>b'. Encoder_Encode (CreateEncoder enc Int64) (bytes_of_array xs) (length xs) b = Some (Inr b') \<and>
    Buffer_inv b' \<and> contents b' = contents b @ block_image enc xs"
  using assms codec64 [THEN typed_encode, where xs = xs and b = b]
  by (cases enc) (simp_all add: Encoder_Encode_def IsNumeric_def IsInteger_def IsFloatingPoint_def)

lemma factory_decode64:
  assumes "encodable_as enc (xs :: 64 word list)" and "length out = length xs * 8"
  shows "Decoder_Decode (CreateDecoder enc Int64) (block_image enc xs) out (length xs) =
    Some (Inr (bytes_of_array xs))"
  using assms codec64 [THEN typed_decode, where xs = xs and out = out]
  by (cases enc) (simp_all add: Decoder_Decode_def IsNumeric_def IsInteger_def)

text \<open>Run-length coded floating-point columns come back up to the sign of their zeros; plain ones exactly.\<close>

lemma factory_rle_float:
  assumes "Buffer_inv b" and "contents b = []" and "length out = length xs * 4"
  shows "\<exists>b' ys. Encoder_Encode (CreateEncoder RLE Float) (bytes_of_array (xs :: 32 word list)) (length xs) b = Some (Inr b') \<and>
    Decoder_Decode (CreateDecoder RLE Float) (contents b') out (length xs) = Some (Inr (bytes_of_array ys)) \<and>
    list_all2 fp_same xs ys"
proof -
  obtain dst :: "32 word list" where dst: "read_array out (length xs) = Inr dst" "length dst = length xs"
    using read_array_length [of "length xs" out, where 'a = 32] assms(3) by auto
  show ?thesis
    using rle_float_round_trip [OF _ assms(1,2) dst(2)] dst(1) read_array_bytes [of xs "[]"] assms(3)
    by (auto simp: Encoder_Encode_def Decoder_Decode_def IsNumeric_def IsInteger_def IsFloatingPoint_def
      encode_typed_def decode_typed_def)
qed

text \<open>Plain and delta blocks have the size of the column.\<close>

definition fixed_width :: "EncodingType \<Rightarrow> bool" where
  "fixed_width enc \<longleftrightarrow> enc = Plain \<or> enc = Delta"

lemma length_block_image:
  "fixed_width enc \<Longrightarrow> length (block_image enc (xs :: 'a::len word list)) = length xs * sizeof TYPE('a)"
  by (auto simp: fixed_width_def)

section \<open>Properties\<close>

text \<open>C16: for every encoding the factory knows, a column of 32-bit integers in the domain of that
  encoding survives \<^verbatim>\<open>CreateEncoder(enc, Int32)->Encode\<close> followed by
  \<^verbatim>\<open>CreateDecoder(enc, Int32)->Decode\<close>, byte for byte.\<close>

theorem create_round_trip_int32:
  assumes "encodable_as enc (xs :: 32 word list)" and "Buffer_inv b" and "contents b = []"
    and "length out = length xs * 4"
  shows "\<exists>b'. Encoder_Encode (CreateEncoder enc Int32) (bytes_of_array xs) (length xs) b = Some (Inr b') \<and>
    Decoder_Decode (CreateDecoder enc Int32) (contents b') out (length xs) = Some (Inr (bytes_of_array xs))"
  using factory_encode32 [OF assms(1,2)] factory_decode32 [OF assms(1,4)] assms(3) by auto

theorem create_round_trip_int32_witness:
  "\<exists>b'. Encoder_Encode (CreateEncoder FOR Int32) (bytes_of_array [5, 7, 300 :: 32 word]) 3 Buffer_empty =
      Some (Inr b') \<and>
    Decoder_Decode (CreateDecoder FOR Int32) (contents b') (replicate 12 0) 3 =
      Some (Inr (bytes_of_array [5, 7, 300 :: 32 word]))"
proof -
  have "encodable_as FOR [5, 7, 300 :: 32 word]" by code_simp
  from create_round_trip_int32 [OF this, of Buffer_empty "replicate 12 0"] show ?thesis
    by (simp add: eval_nat_numeral del: CreateEncoder.simps CreateDecoder.simps)
qed

text \<open>C17: the same for columns of 64-bit integers.\<close>

theorem create_round_trip_int64:
  assumes "encodable_as enc (xs :: 64 word list)" and "Buffer_inv b" and "contents b = []"
    and "length out = length xs * 8"
  shows "\<exists>b'. Encoder_Encode (CreateEncoder enc Int64) (bytes_of_array xs) (length xs) b = Some (Inr b') \<and>
    Decoder_Decode (CreateDecoder enc Int64) (contents b') out (length xs) = Some (Inr (bytes_of_array xs))"
  using factory_encode64 [OF assms(1,2)] factory_decode64 [OF assms(1,4)] assms(3) by auto

theorem create_round_trip_int64_witness:
  "\<exists>b'. Encoder_Encode (CreateEncoder BitPack Int64) (bytes_of_array [- 3, 4 :: 64 word]) 2 Buffer_empty =
      Some (Inr b') \<and>
    Decoder_Decode (CreateDecoder BitPack Int64) (contents b') (replicate 16 0) 2 =
      Some (Inr (bytes_of_array [- 3, 4 :: 64 word]))"
proof -
  have "encodable_as BitPack [- 3, 4 :: 64 word]" by code_simp
  from create_round_trip_int64 [OF this, of Buffer_empty "replicate 16 0"] show ?thesis
    by (simp add: eval_nat_numeral del: CreateEncoder.simps CreateDecoder.simps)
qed

text \<open>a compressed block is restored, whatever the compression level, under the documented
  behaviour of the library: decompressing what compression produced, into a destination of the
  original size, gives the original bytes. A block the library cannot compress leaves the output
  buffer as it was.\<close>

lemma zstd_round_trip:
  assumes "\<And>l d c dst. compress l d = Some c \<Longrightarrow> length dst = length d \<Longrightarrow> decompress dst c = d"
    and "Buffer_inv b" and "contents b = []" and "count \<le> length data" and "length dst = count"
  shows "(compress level (take count data) = None \<longrightarrow> ZstdEncoder_Encode compress level data count b = b) \<and>
    (compress level (take count data) \<noteq> None \<longrightarrow>
      ZstdDecoder_Decode decompress (contents (ZstdEncoder_Encode compress level data count b)) dst =
        take count data)"
  using assms by (auto simp: ZstdEncoder_Encode_def ZstdDecoder_Decode_def)

end
