(* ===== verification/Columns.thy ===== *)
theory Columns
  imports VectorKernels Codecs
begin

text \<open>
  \<^verbatim>\<open>ColumnVector\<close>, \<^verbatim>\<open>TypedColumn\<close>, \<^verbatim>\<open>ColumnBase\<close> and \<^verbatim>\<open>ColumnFactory\<close> of
  \<^verbatim>\<open>include/columnar/column/column.h\<close>: a column in memory is a vector of values with a vector of null
  flags and a size of its own. The abstract view is the list of its cells; the locale
  \<open>cell_store\<close> is the contract the segment, the scanner and the merger rely on.
\<close>

section \<open>Column vectors\<close>

record 'v ColumnVector =
  cv_data :: "'v list"
  cv_nulls :: "byte list"
  cv_size :: nat

definition ColumnVector_empty :: "'v ColumnVector" where
  "ColumnVector_empty = \<lparr>cv_data = [], cv_nulls = [], cv_size = 0\<rparr>"

text \<open>The vectors are filled with \<open>capacity\<close> default values \<open>z\<close>, the size is zero.\<close>

definition ColumnVector_with_capacity :: "'v \<Rightarrow> nat \<Rightarrow> 'v ColumnVector" where
  "ColumnVector_with_capacity z capacity =
     \<lparr>cv_data = replicate capacity z, cv_nulls = replicate capacity 0, cv_size = 0\<rparr>"

definition CV_Reserve :: "nat \<Rightarrow> 'v ColumnVector \<Rightarrow> 'v ColumnVector" where
  "CV_Reserve capacity cv = cv"

definition CV_Resize :: "'v \<Rightarrow> nat \<Rightarrow> 'v ColumnVector \<Rightarrow> 'v ColumnVector" where
  "CV_Resize z n cv =
     cv\<lparr>cv_data := resize z n (cv_data cv), cv_nulls := resize 0 n (cv_nulls cv), cv_size := n\<rparr>"

definition null_flag :: "bool \<Rightarrow> byte" where
  "null_flag b = (if b then 1 else 0)"

definition CV_Append :: "'v \<Rightarrow> bool \<Rightarrow> 'v ColumnVector \<Rightarrow> 'v ColumnVector" where
  "CV_Append v is_null cv =
     cv\<lparr>cv_data := cv_data cv @ [v], cv_nulls := cv_nulls cv @ [null_flag is_null],
        cv_size := cv_size cv + 1\<rparr>"

text \<open>\<open>count\<close> values, with as many flags or the null pointer.\<close>

definition CV_AppendMany :: "'v list \<Rightarrow> byte list option \<Rightarrow> 'v ColumnVector \<Rightarrow> 'v ColumnVector" where
  "CV_AppendMany vs nulls cv =
     cv\<lparr>cv_data := cv_data cv @ vs,
        cv_nulls := cv_nulls cv @ (case nulls of Some ns \<Rightarrow> ns | None \<Rightarrow> replicate (length vs) 0),
        cv_size := cv_size cv + length vs\<rparr>"

definition CV_AppendNulls :: "'v \<Rightarrow> nat \<Rightarrow> 'v ColumnVector \<Rightarrow> 'v ColumnVector" where
  "CV_AppendNulls z count cv =
     cv\<lparr>cv_data := cv_data cv @ replicate count z, cv_nulls := cv_nulls cv @ replicate count 1,
        cv_size := cv_size cv + count\<rparr>"

definition CV_at :: "nat \<Rightarrow> 'v ColumnVector \<Rightarrow> 'v res" where
  "CV_at i cv = nth_res (cv_data cv) i"

definition CV_set :: "nat \<Rightarrow> 'v \<Rightarrow> 'v ColumnVector \<Rightarrow> 'v ColumnVector res" where
  "CV_set i v cv = bind_res (upd_res (cv_data cv) i (\<lambda>_. v)) (\<lambda>d. Inr (cv\<lparr>cv_data := d\<rparr>))"

definition CV_IsNull :: "nat \<Rightarrow> 'v ColumnVector \<Rightarrow> bool res" where
  "CV_IsNull i cv = bind_res (nth_res (cv_nulls cv) i) (\<lambda>b. Inr (b \<noteq> 0))"

definition CV_SetNull :: "nat \<Rightarrow> bool \<Rightarrow> 'v ColumnVector \<Rightarrow> 'v ColumnVector res" where
  "CV_SetNull i null cv =
     bind_res (upd_res (cv_nulls cv) i (\<lambda>_. null_flag null)) (\<lambda>ns. Inr (cv\<lparr>cv_nulls := ns\<rparr>))"

definition CV_Clear :: "'v ColumnVector \<Rightarrow> 'v ColumnVector" where
  "CV_Clear cv = cv\<lparr>cv_data := [], cv_nulls := [], cv_size := 0\<rparr>"

definition CV_Swap :: "'v ColumnVector \<times> 'v ColumnVector \<Rightarrow> 'v ColumnVector \<times> 'v ColumnVector" where
  "CV_Swap p = (case p of (a, b) \<Rightarrow>
     (a\<lparr>cv_data := cv_data b, cv_nulls := cv_nulls b, cv_size := cv_size b\<rparr>,
      b\<lparr>cv_data := cv_data a, cv_nulls := cv_nulls a, cv_size := cv_size a\<rparr>))"

definition CV_Filter ::
  "'v VectorTraits \<Rightarrow> 'v Comparisons \<Rightarrow> PredicateType \<Rightarrow> 'v \<Rightarrow> 'v ColumnVector \<Rightarrow> bool list res" where
  "CV_Filter tr c pred value cv = VectorOps_Filter tr c pred (take (cv_size cv) (cv_data cv)) value"

definition CV_FilterNulls :: "'v ColumnVector \<Rightarrow> bool list res" where
  "CV_FilterNulls cv =
     map_res (\<lambda>i. bind_res (nth_res (cv_nulls cv) i) (\<lambda>b. Inr (b = 0))) [0..<cv_size cv]"

definition CV_FilterNotNulls :: "'v ColumnVector \<Rightarrow> bool list res" where
  "CV_FilterNotNulls cv =
     map_res (\<lambda>i. bind_res (nth_res (cv_nulls cv) i) (\<lambda>b. Inr (b \<noteq> 0))) [0..<cv_size cv]"

section \<open>Boolean vectors\<close>

text \<open>\<^verbatim>\<open>ColumnVector<Boolean>\<close> keeps its values as characters.\<close>

record BoolVector =
  bv_data :: "byte list"
  bv_nulls :: "byte list"
  bv_size :: nat

definition bool_char :: "bool \<Rightarrow> byte" where
  "bool_char b = (if b then 1 else 0)"

definition BoolVector_empty :: BoolVector where
  "BoolVector_empty = \<lparr>bv_data = [], bv_nulls = [], bv_size = 0\<rparr>"

definition BoolVector_with_capacity :: "nat \<Rightarrow> BoolVector" where
  "BoolVector_with_capacity capacity =
     \<lparr>bv_data = replicate capacity 0, bv_nulls = replicate capacity 0, bv_size = 0\<rparr>"

definition BV_Reserve :: "nat \<Rightarrow> BoolVector \<Rightarrow> BoolVector" where
  "BV_Reserve capacity bv = bv"

definition BV_Resize :: "nat \<Rightarrow> BoolVector \<Rightarrow> BoolVector" where
  "BV_Resize n bv = bv\<lparr>bv_data := resize 0 n (bv_data bv), bv_nulls := resize 0 n (bv_nulls bv), bv_size := n\<rparr>"

definition BV_Append :: "bool \<Rightarrow> bool \<Rightarrow> BoolVector \<Rightarrow> BoolVector" where
  "BV_Append v is_null bv =
     bv\<lparr>bv_data := bv_data bv @ [bool_char v], bv_nulls := bv_nulls bv @ [null_flag is_null], bv_size := bv_size bv + 1\<rparr>"

definition BV_AppendMany :: "bool list \<Rightarrow> byte list option \<Rightarrow> BoolVector \<Rightarrow> BoolVector" where
  "BV_AppendMany vs nulls bv =
     bv\<lparr>bv_data := bv_data bv @ map bool_char vs,
        bv_nulls := bv_nulls bv @ (case nulls of Some ns \<Rightarrow> ns | None \<Rightarrow> replicate (length vs) 0),
        bv_size := bv_size bv + length vs\<rparr>"

definition BV_AppendNulls :: "nat \<Rightarrow> BoolVector \<Rightarrow> BoolVector" where
  "BV_AppendNulls count bv =
     bv\<lparr>bv_data := bv_data bv @ replicate count 0, bv_nulls := bv_nulls bv @ replicate count 1,
        bv_size := bv_size bv + count\<rparr>"

definition BV_at :: "nat \<Rightarrow> BoolVector \<Rightarrow> bool res" where
  "BV_at i bv = bind_res (nth_res (bv_data bv) i) (\<lambda>c. Inr (c \<noteq> 0))"

definition BV_IsNull :: "nat \<Rightarrow> BoolVector \<Rightarrow> bool res" where
  "BV_IsNull i bv = bind_res (nth_res (bv_nulls bv) i) (\<lambda>b. Inr (b \<noteq> 0))"

definition BV_SetNull :: "nat \<Rightarrow> bool \<Rightarrow> BoolVector \<Rightarrow> BoolVector res" where
  "BV_SetNull i null bv =
     bind_res (upd_res (bv_nulls bv) i (\<lambda>_. null_flag null)) (\<lambda>ns. Inr (bv\<lparr>bv_nulls := ns\<rparr>))"

definition BV_Clear :: "BoolVector \<Rightarrow> BoolVector" where
  "BV_Clear bv = bv\<lparr>bv_data := [], bv_nulls := [], bv_size := 0\<rparr>"

definition BV_Swap :: "BoolVector \<times> BoolVector \<Rightarrow> BoolVector \<times> BoolVector" where
  "BV_Swap p = (case p of (a, b) \<Rightarrow>
     (a\<lparr>bv_data := bv_data b, bv_nulls := bv_nulls b, bv_size := bv_size b\<rparr>,
      b\<lparr>bv_data := bv_data a, bv_nulls := bv_nulls a, bv_size := bv_size a\<rparr>))"

text \<open>The filter knows equality and the null tests.\<close>

definition BV_Filter :: "PredicateType \<Rightarrow> bool \<Rightarrow> BoolVector \<Rightarrow> bool list res" where
  "BV_Filter pred value bv =
     map_res (\<lambda>i.
       case pred of
         Equal \<Rightarrow> bind_res (nth_res (bv_data bv) i) (\<lambda>v. Inr (v = bool_char value))
       | NotEqual \<Rightarrow> bind_res (nth_res (bv_data bv) i) (\<lambda>v. Inr (v \<noteq> bool_char value))
       | IsNull \<Rightarrow> bind_res (nth_res (bv_nulls bv) i) (\<lambda>b. Inr (b \<noteq> 0))
       | IsNotNull \<Rightarrow> bind_res (nth_res (bv_nulls bv) i) (\<lambda>b. Inr (b = 0))
       | _ \<Rightarrow> Inr False) [0..<bv_size bv]"

definition BV_FilterNulls :: "BoolVector \<Rightarrow> bool list res" where
  "BV_FilterNulls bv = map_res (\<lambda>i. bind_res (nth_res (bv_nulls bv) i) (\<lambda>b. Inr (b = 0))) [0..<bv_size bv]"

definition BV_FilterNotNulls :: "BoolVector \<Rightarrow> bool list res" where
  "BV_FilterNotNulls bv = map_res (\<lambda>i. bind_res (nth_res (bv_nulls bv) i) (\<lambda>b. Inr (b \<noteq> 0))) [0..<bv_size bv]"

section \<open>Typed columns\<close>

definition TypedColumn_NullCount :: "'v ColumnVector \<Rightarrow> nat res" where
  "TypedColumn_NullCount cv =
     fold_res (\<lambda>i cnt. bind_res (CV_IsNull i cv) (\<lambda>n. Inr (if n then cnt + 1 else cnt))) [0..<cv_size cv] 0"

text \<open>The operations the typed column passes on to its vector.\<close>

definition TypedColumn_Reserve :: "nat \<Rightarrow> 'v ColumnVector \<Rightarrow> 'v ColumnVector" where
  "TypedColumn_Reserve n cv = CV_Reserve n cv"

definition TypedColumn_Append :: "'v \<Rightarrow> 'v ColumnVector \<Rightarrow> 'v ColumnVector" where
  "TypedColumn_Append v cv = CV_Append v False cv"

definition TypedColumn_AppendValues :: "'v list \<Rightarrow> 'v ColumnVector \<Rightarrow> 'v ColumnVector" where
  "TypedColumn_AppendValues vs cv = CV_AppendMany vs None cv"

definition TypedColumn_AppendMany :: "'v list \<Rightarrow> byte list option \<Rightarrow> 'v ColumnVector \<Rightarrow> 'v ColumnVector" where
  "TypedColumn_AppendMany vs nulls cv = CV_AppendMany vs nulls cv"

definition TypedColumn_at :: "nat \<Rightarrow> 'v ColumnVector \<Rightarrow> 'v res" where
  "TypedColumn_at i cv = CV_at i cv"

definition TypedColumn_set :: "nat \<Rightarrow> 'v \<Rightarrow> 'v ColumnVector \<Rightarrow> 'v ColumnVector res" where
  "TypedColumn_set i v cv = CV_set i v cv"

definition TypedColumn_IsNull :: "nat \<Rightarrow> 'v ColumnVector \<Rightarrow> bool res" where
  "TypedColumn_IsNull i cv = CV_IsNull i cv"

definition TypedColumn_SetNull :: "nat \<Rightarrow> bool \<Rightarrow> 'v ColumnVector \<Rightarrow> 'v ColumnVector res" where
  "TypedColumn_SetNull i null cv = CV_SetNull i null cv"

definition TypedColumn_AppendNull :: "'v \<Rightarrow> 'v ColumnVector \<Rightarrow> 'v ColumnVector" where
  "TypedColumn_AppendNull z cv = CV_AppendNulls z 1 cv"

definition TypedColumn_Clone :: "'v ColumnVector \<Rightarrow> 'v ColumnVector" where
  "TypedColumn_Clone cv = cv"

definition TypedColumn_Filter ::
  "bool list \<Rightarrow> nat \<Rightarrow> 'v ColumnVector \<Rightarrow> 'v ColumnVector \<Rightarrow> 'v ColumnVector res" where
  "TypedColumn_Filter msk n cv out =
     fold_res (\<lambda>i out.
       bind_res (nth_res msk i) (\<lambda>m.
       if m then bind_res (CV_at i cv) (\<lambda>v. bind_res (CV_IsNull i cv) (\<lambda>null.
              Inr (CV_Append v null out)))
       else Inr out)) [0..<n] (CV_Reserve n out)"

text \<open>\<^verbatim>\<open>Data() + offset\<close> and \<^verbatim>\<open>Nulls() + offset\<close> are read for \<open>count\<close> elements.\<close>

definition slice_res :: "'v list \<Rightarrow> nat \<Rightarrow> nat \<Rightarrow> 'v list res" where
  "slice_res xs offset count =
     (if offset + count \<le> length xs then Inr (take count (drop offset xs)) else Inl OutOfBounds)"

definition TypedColumn_CopyTo ::
  "nat \<Rightarrow> nat \<Rightarrow> 'v ColumnVector \<Rightarrow> 'v ColumnVector \<Rightarrow> 'v ColumnVector res" where
  "TypedColumn_CopyTo offset count cv dest =
     bind_res (slice_res (cv_data cv) offset count) (\<lambda>vs.
     bind_res (slice_res (cv_nulls cv) offset count) (\<lambda>ns.
       Inr (CV_AppendMany vs (Some ns) (CV_Reserve (offset + count) dest))))"

text \<open>\<^verbatim>\<open>nullptr\<close> for the block compressors.\<close>

fun TypedColumn_CreateEncoder :: "DataType \<Rightarrow> EncodingType \<Rightarrow> Encoder option" where
  "TypedColumn_CreateEncoder t Plain = Some (PlainEncoder t)"
| "TypedColumn_CreateEncoder t Dictionary = Some (DictEncoder t)"
| "TypedColumn_CreateEncoder t RLE = Some (RLEEncoder t)"
| "TypedColumn_CreateEncoder t BitPack = Some (BitPackEncoder t)"
| "TypedColumn_CreateEncoder t FOR = Some (FOREncoder t)"
| "TypedColumn_CreateEncoder t Delta = Some (DeltaEncoder t)"
| "TypedColumn_CreateEncoder t _ = None"

definition TypedColumn_Encode ::
  "Encoder \<Rightarrow> 'a::len word ColumnVector \<Rightarrow> Buffer \<Rightarrow> Buffer res option" where
  "TypedColumn_Encode enc cv out = Encoder_Encode enc (bytes_of_array (cv_data cv)) (cv_size cv) out"

text \<open>The row count of the decoded column is taken from the size of the encoded block.\<close>

definition TypedColumn_Decode ::
  "Decoder \<Rightarrow> byte list \<Rightarrow> 'a::len word ColumnVector \<Rightarrow> 'a word ColumnVector res option" where
  "TypedColumn_Decode dec data cv =
     (let count = length data div sizeof TYPE('a); cv1 = CV_Resize 0 count cv
      in map_option (\<lambda>r. bind_res r (\<lambda>bytes.
           bind_res (read_array bytes count) (\<lambda>xs. Inr (cv1\<lparr>cv_data := xs\<rparr>))))
           (Decoder_Decode dec data (bytes_of_array (cv_data cv1)) count))"

definition TypedColumn_ReadValues :: "nat \<Rightarrow> nat \<Rightarrow> 'a::len word ColumnVector \<Rightarrow> byte list res" where
  "TypedColumn_ReadValues offset count cv =
     bind_res (slice_res (cv_data cv) offset count) (\<lambda>vs. Inr (bytes_of_array vs))"

text \<open>The reductions and the filter pass \<^verbatim>\<open>Data()\<close> and \<^verbatim>\<open>Size()\<close> on; \<open>w\<close> is the vector width of the build.\<close>

definition TypedColumn_FilterVector ::
  "'v VectorTraits \<Rightarrow> 'v Comparisons \<Rightarrow> PredicateType \<Rightarrow> 'v \<Rightarrow> 'v ColumnVector \<Rightarrow> bool list res" where
  "TypedColumn_FilterVector tr c pred value cv = CV_Filter tr c pred value cv"

definition TypedColumn_Sum :: "nat \<Rightarrow> 'a::len word ColumnVector \<Rightarrow> 'a word res" where
  "TypedColumn_Sum w cv = VectorOps_Sum w (take (cv_size cv) (cv_data cv))"

definition TypedColumn_Min :: "nat \<Rightarrow> 'a::len word ColumnVector \<Rightarrow> 'a word res" where
  "TypedColumn_Min w cv = VectorOps_Min w (take (cv_size cv) (cv_data cv))"

definition TypedColumn_Max :: "nat \<Rightarrow> 'a::len word ColumnVector \<Rightarrow> 'a word res" where
  "TypedColumn_Max w cv = VectorOps_Max w (take (cv_size cv) (cv_data cv))"

section \<open>Columns of a run-time type\<close>

text \<open>Floating-point columns hold bit patterns.\<close>

datatype Column =
    Int32Column "u32 ColumnVector"
  | Int64Column "u64 ColumnVector"
  | FloatColumn "u32 ColumnVector"
  | DoubleColumn "u64 ColumnVector"
  | VarcharColumn "VarcharView ColumnVector"

definition VarcharView_default :: VarcharView where
  "VarcharView_default = \<lparr>vv_data = [], vv_length = 0\<rparr>"

fun ColumnFactory_Create :: "DataType \<Rightarrow> nat \<Rightarrow> Column option" where
  "ColumnFactory_Create Int32 capacity = Some (Int32Column (ColumnVector_with_capacity 0 capacity))"
| "ColumnFactory_Create Int64 capacity = Some (Int64Column (ColumnVector_with_capacity 0 capacity))"
| "ColumnFactory_Create Float capacity = Some (FloatColumn (ColumnVector_with_capacity 0 capacity))"
| "ColumnFactory_Create Double capacity = Some (DoubleColumn (ColumnVector_with_capacity 0 capacity))"
| "ColumnFactory_Create Varchar capacity =
     Some (VarcharColumn (ColumnVector_with_capacity VarcharView_default capacity))"
| "ColumnFactory_Create Boolean capacity = None"

fun Column_Type :: "Column \<Rightarrow> DataType" where
  "Column_Type (Int32Column _) = Int32"
| "Column_Type (Int64Column _) = Int64"
| "Column_Type (FloatColumn _) = Float"
| "Column_Type (DoubleColumn _) = Double"
| "Column_Type (VarcharColumn _) = Varchar"

fun Column_Size :: "Column \<Rightarrow> nat" where
  "Column_Size (Int32Column cv) = cv_size cv"
| "Column_Size (Int64Column cv) = cv_size cv"
| "Column_Size (FloatColumn cv) = cv_size cv"
| "Column_Size (DoubleColumn cv) = cv_size cv"
| "Column_Size (VarcharColumn cv) = cv_size cv"

text \<open>Virtual \<^verbatim>\<open>Decode\<close> and \<^verbatim>\<open>ReadValues\<close>; string columns have no codec and no fixed-size image.\<close>

fun Column_Decode :: "Decoder \<Rightarrow> byte list \<Rightarrow> Column \<Rightarrow> Column res option" where
  "Column_Decode dec data (Int32Column cv) =
     map_option (\<lambda>r. bind_res r (\<lambda>cv. Inr (Int32Column cv))) (TypedColumn_Decode dec data cv)"
| "Column_Decode dec data (Int64Column cv) =
     map_option (\<lambda>r. bind_res r (\<lambda>cv. Inr (Int64Column cv))) (TypedColumn_Decode dec data cv)"
| "Column_Decode dec data (FloatColumn cv) =
     map_option (\<lambda>r. bind_res r (\<lambda>cv. Inr (FloatColumn cv))) (TypedColumn_Decode dec data cv)"
| "Column_Decode dec data (DoubleColumn cv) =
     map_option (\<lambda>r. bind_res r (\<lambda>cv. Inr (DoubleColumn cv))) (TypedColumn_Decode dec data cv)"
| "Column_Decode dec data (VarcharColumn cv) = None"

fun Column_ReadValues :: "nat \<Rightarrow> nat \<Rightarrow> Column \<Rightarrow> byte list res" where
  "Column_ReadValues offset count (Int32Column cv) = TypedColumn_ReadValues offset count cv"
| "Column_ReadValues offset count (Int64Column cv) = TypedColumn_ReadValues offset count cv"
| "Column_ReadValues offset count (FloatColumn cv) = TypedColumn_ReadValues offset count cv"
| "Column_ReadValues offset count (DoubleColumn cv) = TypedColumn_ReadValues offset count cv"
| "Column_ReadValues offset count (VarcharColumn cv) = Inl Unmodelled"

section \<open>Columns as cells\<close>

definition CV_inv :: "'v ColumnVector \<Rightarrow> bool" where
  "CV_inv cv \<longleftrightarrow> length (cv_data cv) = cv_size cv \<and> length (cv_nulls cv) = cv_size cv"

definition cells :: "'v ColumnVector \<Rightarrow> ('v \<times> bool) list" where
  "cells cv = zip (take (cv_size cv) (cv_data cv)) (map (\<lambda>b. b \<noteq> 0) (take (cv_size cv) (cv_nulls cv)))"

locale cell_store =
  fixes empty :: 'c
    and append :: "'v \<Rightarrow> bool \<Rightarrow> 'c \<Rightarrow> 'c"
    and cells :: "'c \<Rightarrow> ('v \<times> bool) list"
    and inv :: "'c \<Rightarrow> bool"
  assumes cells_empty: "cells empty = []"
    and inv_empty: "inv empty"
    and cells_append: "inv c \<Longrightarrow> cells (append v b c) = cells c @ [(v, b)]"
    and inv_append: "inv c \<Longrightarrow> inv (append v b c)"
begin

definition append_all :: "('v \<times> bool) list \<Rightarrow> 'c \<Rightarrow> 'c" where
  "append_all xs c = fold (\<lambda>(v, b). append v b) xs c"

lemma append_all_cells: "inv c \<Longrightarrow> inv (append_all xs c) \<and> cells (append_all xs c) = cells c @ xs"
  unfolding append_all_def
  by (induction xs arbitrary: c) (auto simp: cells_append inv_append)

lemma rebuild: "cells (append_all xs empty) = xs"
  using append_all_cells [OF inv_empty] by (simp add: cells_empty)

end

lemma null_flag_nonzero [simp]: "null_flag b \<noteq> 0 \<longleftrightarrow> b"
  by (simp add: null_flag_def)

interpretation column: cell_store ColumnVector_empty CV_Append cells CV_inv
  by unfold_locales (simp_all add: cells_def CV_inv_def ColumnVector_empty_def CV_Append_def)

text \<open>The Boolean specialisation keeps the same contract; its characters are 0 and 1.\<close>

definition BV_inv :: "BoolVector \<Rightarrow> bool" where
  "BV_inv bv \<longleftrightarrow> length (bv_data bv) = bv_size bv \<and> length (bv_nulls bv) = bv_size bv \<and>
     (\<forall>c \<in> set (bv_data bv). c = 0 \<or> c = 1)"

definition bool_cells :: "BoolVector \<Rightarrow> (bool \<times> bool) list" where
  "bool_cells bv = zip (map (\<lambda>c. c \<noteq> 0) (take (bv_size bv) (bv_data bv))) (map (\<lambda>b. b \<noteq> 0) (take (bv_size bv) (bv_nulls bv)))"

interpretation bool_column: cell_store BoolVector_empty BV_Append bool_cells BV_inv
  by unfold_locales (auto simp: bool_cells_def BV_inv_def BoolVector_empty_def BV_Append_def bool_char_def)

lemma bool_filter_cells:
  assumes "BV_inv bv"
  shows "BV_Filter Equal v bv = Inr (map (\<lambda>(x, _). x = v) (bool_cells bv))"
    and "BV_Filter NotEqual v bv = Inr (map (\<lambda>(x, _). x \<noteq> v) (bool_cells bv))"
    and "BV_Filter IsNull v bv = Inr (map snd (bool_cells bv))"
    and "BV_Filter IsNotNull v bv = Inr (map (\<lambda>(_, n). \<not> n) (bool_cells bv))"
proof -
  have len: "length (bool_cells bv) = bv_size bv" using assms by (simp add: bool_cells_def BV_inv_def)
  have at: "nth_res (bv_data bv) i = Inr (bv_data bv ! i)" "nth_res (bv_nulls bv) i = Inr (bv_nulls bv ! i)"
    "bool_cells bv ! i = (bv_data bv ! i \<noteq> 0, bv_nulls bv ! i \<noteq> 0)" "bv_data bv ! i = bool_char w \<longleftrightarrow> (bv_data bv ! i \<noteq> 0) = w"
    if "i < bv_size bv" for i w
  proof -
    have "bv_data bv ! i = 0 \<or> bv_data bv ! i = 1" using assms that by (simp add: BV_inv_def)
    then show "bv_data bv ! i = bool_char w \<longleftrightarrow> (bv_data bv ! i \<noteq> 0) = w" by (auto simp: bool_char_def)
  qed (use assms that in \<open>simp_all add: nth_res_def bool_cells_def BV_inv_def\<close>)
  note filt = map_res_upt_nth [of "map g (bool_cells bv)" for g, unfolded length_map len]
  show "BV_Filter Equal v bv = Inr (map (\<lambda>(x, _). x = v) (bool_cells bv))"
    unfolding BV_Filter_def by (simp, rule filt) (simp add: at len)
  show "BV_Filter NotEqual v bv = Inr (map (\<lambda>(x, _). x \<noteq> v) (bool_cells bv))"
    unfolding BV_Filter_def by (simp, rule filt) (simp add: at len)
  show "BV_Filter IsNull v bv = Inr (map snd (bool_cells bv))"
    unfolding BV_Filter_def by (simp, rule filt) (simp add: at len)
  show "BV_Filter IsNotNull v bv = Inr (map (\<lambda>(_, n). \<not> n) (bool_cells bv))"
    unfolding BV_Filter_def by (simp, rule filt) (simp add: at len)
qed

lemma length_cells [simp]: "CV_inv cv \<Longrightarrow> length (cells cv) = cv_size cv"
  by (simp add: cells_def CV_inv_def)

lemma cells_nth:
  "CV_inv cv \<Longrightarrow> i < cv_size cv \<Longrightarrow> cells cv ! i = (cv_data cv ! i, cv_nulls cv ! i \<noteq> 0)"
  by (simp add: cells_def CV_inv_def)

lemma cell_reads:
  assumes "CV_inv cv" and "i < cv_size cv"
  shows "CV_at i cv = Inr (fst (cells cv ! i))" and "CV_IsNull i cv = Inr (snd (cells cv ! i))"
  using assms by (simp_all add: CV_at_def CV_IsNull_def nth_res_def cells_nth) (simp_all add: CV_inv_def)

lemma cells_AppendMany:
  assumes "CV_inv cv" and "length ns = length vs"
  shows "CV_inv (CV_AppendMany vs (Some ns) cv)"
    and "cells (CV_AppendMany vs (Some ns) cv) = cells cv @ zip vs (map (\<lambda>b. b \<noteq> 0) ns)"
  using assms by (simp_all add: CV_inv_def cells_def CV_AppendMany_def)

lemma cells_AppendNulls:
  assumes "CV_inv cv"
  shows "CV_inv (CV_AppendNulls z n cv)" and "cells (CV_AppendNulls z n cv) = cells cv @ replicate n (z, True)"
  using assms by (simp_all add: CV_inv_def cells_def CV_AppendNulls_def zip_replicate)

lemma cells_Clear: "CV_inv (CV_Clear cv)" "cells (CV_Clear cv) = []"
  by (simp_all add: CV_inv_def cells_def CV_Clear_def)

lemma cells_SetNull:
  assumes "CV_inv cv" and "i < cv_size cv"
  shows "\<exists>cv'. CV_SetNull i b cv = Inr cv' \<and> CV_inv cv' \<and> cells cv' = (cells cv)[i := (fst (cells cv ! i), b)]"
proof -
  have "CV_SetNull i b cv = Inr (cv\<lparr>cv_nulls := (cv_nulls cv)[i := null_flag b]\<rparr>)"
    using assms by (simp add: CV_SetNull_def upd_res_def CV_inv_def)
  moreover have "cells (cv\<lparr>cv_nulls := (cv_nulls cv)[i := null_flag b]\<rparr>) = (cells cv)[i := (fst (cells cv ! i), b)]"
    using assms by (auto simp: list_eq_iff_nth_eq cells_def CV_inv_def nth_list_update)
  ultimately show ?thesis using assms by (simp add: CV_inv_def)
qed

lemma Filter_cells:
  assumes "CV_inv cv" and "n \<le> cv_size cv" and "n \<le> length msk"
  shows "TypedColumn_Filter msk n cv out =
    Inr (column.append_all (map fst (filter snd (zip (take n (cells cv)) msk))) out)"
  using assms(2,3)
proof (induction n)
  case 0
  then show ?case by (simp add: TypedColumn_Filter_def CV_Reserve_def column.append_all_def)
next
  case (Suc n)
  let ?sel = "\<lambda>n. map fst (filter snd (zip (take n (cells cv)) msk))"
  have n: "n < cv_size cv" "n < length msk" "n < length (cells cv)" using Suc.prems assms(1) by simp_all
  have "zip (take (Suc n) (cells cv)) msk = zip (take n (cells cv)) msk @ [(cells cv ! n, msk ! n)]"
    using n by (intro nth_equalityI) (auto simp: nth_append less_Suc_eq min_absorb1 min_absorb2)
  then have "?sel (Suc n) = ?sel n @ (if msk ! n then [cells cv ! n] else [])" by simp
  moreover have "CV_Append (fst (cells cv ! n)) (snd (cells cv ! n)) (column.append_all xs out) =
      column.append_all (xs @ [cells cv ! n]) out" for xs
    by (simp add: column.append_all_def case_prod_unfold)
  ultimately show ?case
    using Suc cell_reads [OF assms(1) n(1)] n(2)
    by (simp add: TypedColumn_Filter_def CV_Reserve_def fold_res_append nth_res_def)
qed

lemma CopyTo_cells:
  assumes "CV_inv cv" and "CV_inv dest" and "offset + count \<le> cv_size cv"
  shows "\<exists>d. TypedColumn_CopyTo offset count cv dest = Inr d \<and> CV_inv d \<and>
    cells d = cells dest @ take count (drop offset (cells cv))"
proof -
  let ?vs = "take count (drop offset (cv_data cv))" and ?ns = "take count (drop offset (cv_nulls cv))"
  have len: "length ?ns = length ?vs" using assms by (simp add: CV_inv_def)
  have "zip ?vs (map (\<lambda>b. b \<noteq> 0) ?ns) = take count (drop offset (cells cv))"
    using assms(1) by (simp add: cells_def CV_inv_def take_zip drop_zip take_map drop_map)
  moreover have "TypedColumn_CopyTo offset count cv dest = Inr (CV_AppendMany ?vs (Some ?ns) dest)"
    using assms by (simp add: TypedColumn_CopyTo_def slice_res_def CV_inv_def CV_Reserve_def)
  ultimately show ?thesis using cells_AppendMany [OF assms(2) len] by simp
qed

lemma NullCount_cells:
  assumes "CV_inv cv"
  shows "TypedColumn_NullCount cv = Inr (length (filter snd (cells cv)))"
proof -
  have "fold_res (\<lambda>i cnt. bind_res (CV_IsNull i cv) (\<lambda>n. Inr (if n then cnt + 1 else cnt))) [0..<n] 0 =
      Inr (length (filter snd (take n (cells cv))))" if "n \<le> cv_size cv" for n
    using that
  proof (induction n)
    case 0
    then show ?case by simp
  next
    case (Suc n)
    then show ?case
      using cell_reads(2) [OF assms, of n] assms
      by (simp add: fold_res_append take_Suc_conv_app_nth)
  qed
  from this [OF le_refl] show ?thesis using assms by (simp add: TypedColumn_NullCount_def)
qed

lemma null_masks:
  assumes "CV_inv cv"
  shows "CV_FilterNulls cv = Inr (map (\<lambda>c. \<not> snd c) (cells cv))"
    and "CV_FilterNotNulls cv = Inr (map snd (cells cv))"
proof -
  have "nth_res (cv_nulls cv) i = Inr (cv_nulls cv ! i)" if "i < cv_size cv" for i
    using that assms by (simp add: nth_res_def CV_inv_def)
  then show "CV_FilterNulls cv = Inr (map (\<lambda>c. \<not> snd c) (cells cv))"
    and "CV_FilterNotNulls cv = Inr (map snd (cells cv))"
    unfolding CV_FilterNulls_def CV_FilterNotNulls_def
    using map_res_upt_nth [of "map (\<lambda>c. \<not> snd c) (cells cv)"] map_res_upt_nth [of "map snd (cells cv)"] assms
    by (simp_all add: cells_nth)
qed

text \<open>A capacity given to the constructor shifts the cells: the size counts from zero, the
  values are appended behind the default values.\<close>

lemma capacity_shifts_cells:
  "0 < n \<Longrightarrow> cells (CV_Append v b (ColumnVector_with_capacity z n)) = [(z, False)]"
  by (cases n) (simp_all add: cells_def CV_Append_def ColumnVector_with_capacity_def)

section \<open>Encoded columns\<close>

definition column_of_values :: "'a::len word list \<Rightarrow> 'a word ColumnVector" where
  "column_of_values xs = \<lparr>cv_data = xs, cv_nulls = replicate (length xs) 0, cv_size = length xs\<rparr>"

lemma TypedColumn_Decode_block:
  fixes xs :: "'a::len word list"
  assumes "8 dvd LENGTH('a)" and "length data div sizeof TYPE('a) = length xs"
    and "\<And>out. length out = length xs * sizeof TYPE('a) \<Longrightarrow>
      Decoder_Decode dec data out (length xs) = Some (Inr (bytes_of_array xs))"
  shows "TypedColumn_Decode dec data ColumnVector_empty = Some (Inr (column_of_values xs))"
  using assms(2) assms(3) [of "bytes_of_array (resize (0 :: 'a word) (length xs) [])"]
    read_array_bytes [OF assms(1), of xs "[]"]
  by (simp add: TypedColumn_Decode_def CV_Resize_def ColumnVector_empty_def column_of_values_def resize_def
      Let_def)

lemma TypedColumn_Decode32:
  fixes xs :: "32 word list"
  assumes "encodable_as enc xs" and "fixed_width enc"
  shows "TypedColumn_Decode (CreateDecoder enc Int32) (block_image enc xs) ColumnVector_empty =
    Some (Inr (column_of_values xs))"
  using assms by (intro TypedColumn_Decode_block factory_decode32) (simp_all add: length_block_image)

lemma TypedColumn_Decode64:
  fixes xs :: "64 word list"
  assumes "encodable_as enc xs" and "fixed_width enc"
  shows "TypedColumn_Decode (CreateDecoder enc Int64) (block_image enc xs) ColumnVector_empty =
    Some (Inr (column_of_values xs))"
  using assms by (intro TypedColumn_Decode_block factory_decode64) (simp_all add: length_block_image)

section \<open>Properties\<close>



text \<open>A column decoded from the block the factory's encoder produced has the values that were
  encoded and no nulls, for the encodings whose block is as large as the column: plain, and delta
  where no difference overflows.\<close>

lemma column_decode_round_trip:
  fixes xs :: "32 word list" and ys :: "64 word list"
  assumes "fixed_width enc" and "encodable_as enc xs" and "encodable_as enc ys"
  shows "(\<exists>b. TypedColumn_Encode (CreateEncoder enc Int32) (column_of_values xs) Buffer_empty = Some (Inr b) \<and>
      TypedColumn_Decode (CreateDecoder enc Int32) (contents b) ColumnVector_empty = Some (Inr (column_of_values xs))) \<and>
    (\<exists>b. TypedColumn_Encode (CreateEncoder enc Int64) (column_of_values ys) Buffer_empty = Some (Inr b) \<and>
      TypedColumn_Decode (CreateDecoder enc Int64) (contents b) ColumnVector_empty = Some (Inr (column_of_values ys)))"
proof
  from factory_encode32 [OF assms(2) inv_empty_buffer] TypedColumn_Decode32 [OF assms(2,1)]
  show "\<exists>b. TypedColumn_Encode (CreateEncoder enc Int32) (column_of_values xs) Buffer_empty = Some (Inr b) \<and>
      TypedColumn_Decode (CreateDecoder enc Int32) (contents b) ColumnVector_empty = Some (Inr (column_of_values xs))"
    by (auto simp: TypedColumn_Encode_def column_of_values_def)
  from factory_encode64 [OF assms(3) inv_empty_buffer] TypedColumn_Decode64 [OF assms(3,1)]
  show "\<exists>b. TypedColumn_Encode (CreateEncoder enc Int64) (column_of_values ys) Buffer_empty = Some (Inr b) \<and>
      TypedColumn_Decode (CreateDecoder enc Int64) (contents b) ColumnVector_empty = Some (Inr (column_of_values ys))"
    by (auto simp: TypedColumn_Encode_def column_of_values_def)
qed

section \<open>Columns whose blocks are smaller than the column\<close>

text \<open>Decoding takes the number of rows from the size of the block: a run-length encoded constant
  column of five 32-bit rows is a block of eight bytes, and comes back as two rows.\<close>

lemma column_decode_loses_rows:
  "TypedColumn_Encode (CreateEncoder RLE Int32) (column_of_values (replicate 5 (9 :: 32 word))) Buffer_empty =
     Some (Inr (Buffer_of [9, 0, 0, 0, 5, 0, 0, 0]))"
  "TypedColumn_Decode (CreateDecoder RLE Int32) [9, 0, 0, 0, 5, 0, 0, 0] ColumnVector_empty =
     Some (Inr (column_of_values [9, 9 :: 32 word]))"
  by code_simp+

end
