(* ===== verification/ZoneMaps.thy ===== *)
theory ZoneMaps
  imports DataTypes ByteBuffer Floats
begin

text \<open>
  \<^verbatim>\<open>include/columnar/zone_map.h\<close>: the minimum, maximum and null count of a block of rows, the
  tests that decide whether a block can hold a match, and the zone map of a column with its
  serialised form. The templates are instantiated by an order on the column's value type and
  by the members the bounds are stored in (\<open>store_int\<close>, \<open>store_float\<close>, \<open>store_double\<close>).
\<close>

section \<open>The entry of a block\<close>

record ZoneMapEntry =
  ze_min_int :: u64
  ze_max_int :: u64
  ze_min_fp :: u64
  ze_max_fp :: u64
  ze_null_count :: u32
  ze_row_count :: u32
  ze_has_min_max :: bool
  ze_has_nulls :: bool

definition ZoneMapEntry_default :: ZoneMapEntry where
  "ZoneMapEntry_default =
     \<lparr>ze_min_int = 0, ze_max_int = 0, ze_min_fp = 0, ze_max_fp = 0, ze_null_count = 0,
      ze_row_count = 0, ze_has_min_max = False, ze_has_nulls = False\<rparr>"

text \<open>A column block_slice with its null flags; \<^verbatim>\<open>nulls\<close> may be the null pointer, and otherwise has a
  flag for each row.\<close>

definition rows :: "'v list \<Rightarrow> bool list option \<Rightarrow> ('v \<times> bool) list" where
  "rows data nulls =
     zip data (case nulls of None \<Rightarrow> replicate (length data) False | Some ns \<Rightarrow> ns)"

fun Update_loop ::
  "('v \<Rightarrow> 'v \<Rightarrow> bool) \<Rightarrow> ('v \<times> bool) list \<Rightarrow> 'v \<Rightarrow> 'v \<Rightarrow> u32 \<Rightarrow> 'v \<times> 'v \<times> u32" where
  "Update_loop lt [] min_val max_val nc = (min_val, max_val, nc)"
| "Update_loop lt ((v, is_null) # rs) min_val max_val nc =
     (if is_null then Update_loop lt rs min_val max_val (nc + 1)
      else Update_loop lt rs (if lt v min_val then v else min_val)
             (if lt max_val v then v else max_val) nc)"

definition Update ::
  "('v \<Rightarrow> 'v \<Rightarrow> bool) \<Rightarrow> ('v \<Rightarrow> 'v \<Rightarrow> ZoneMapEntry \<Rightarrow> ZoneMapEntry) \<Rightarrow>
   'v list \<Rightarrow> bool list option \<Rightarrow> ZoneMapEntry \<Rightarrow> ZoneMapEntry" where
  "Update lt store data nulls e =
     (if data = [] then e
      else case dropWhile snd (rows data nulls) of
        [] \<Rightarrow> e\<lparr>ze_null_count := of_nat (length data), ze_row_count := of_nat (length data),
                ze_has_nulls := True\<rparr>
      | (v, _) # rest \<Rightarrow>
          (let (min_val, max_val, n) = Update_loop lt rest v v (ze_null_count e)
           in (store min_val max_val (e\<lparr>ze_null_count := n\<rparr>))
                \<lparr>ze_row_count := of_nat (length data), ze_has_min_max := True,
                 ze_has_nulls := n > 0\<rparr>))"

definition store_int :: "'a::len word \<Rightarrow> 'a word \<Rightarrow> ZoneMapEntry \<Rightarrow> ZoneMapEntry" where
  "store_int mn mx e = e\<lparr>ze_min_int := scast mn, ze_max_int := scast mx\<rparr>"

definition store_double :: "u64 \<Rightarrow> u64 \<Rightarrow> ZoneMapEntry \<Rightarrow> ZoneMapEntry" where
  "store_double mn mx e = e\<lparr>ze_min_fp := mn, ze_max_fp := mx\<rparr>"

definition store_float :: "u32 \<Rightarrow> u32 \<Rightarrow> ZoneMapEntry \<Rightarrow> ZoneMapEntry" where
  "store_float mn mx e = e\<lparr>ze_min_fp := double_of_float mn, ze_max_fp := double_of_float mx\<rparr>"

definition Update_int :: "'a::len word list \<Rightarrow> bool list option \<Rightarrow> ZoneMapEntry \<Rightarrow> ZoneMapEntry" where
  "Update_int = Update (<s) store_int"

definition Update_double :: "u64 list \<Rightarrow> bool list option \<Rightarrow> ZoneMapEntry \<Rightarrow> ZoneMapEntry" where
  "Update_double = Update fp_less store_double"

definition Update_float :: "u32 list \<Rightarrow> bool list option \<Rightarrow> ZoneMapEntry \<Rightarrow> ZoneMapEntry" where
  "Update_float = Update fp_less store_float"

section \<open>Can the block match?\<close>

fun fp_can_match :: "PredicateType \<Rightarrow> u64 \<Rightarrow> u64 \<Rightarrow> u64 \<Rightarrow> bool" where
  "fp_can_match Equal lo hi c = (fp_le lo c \<and> fp_le c hi)"
| "fp_can_match NotEqual lo hi c = (\<not> (fp_eq lo c \<and> fp_eq hi c))"
| "fp_can_match LessThan lo hi c = fp_less lo c"
| "fp_can_match LessEqual lo hi c = fp_le lo c"
| "fp_can_match GreaterThan lo hi c = fp_less c hi"
| "fp_can_match GreaterEqual lo hi c = fp_le c hi"
| "fp_can_match _ lo hi c = True"

text \<open>\<^verbatim>\<open>CanMatch<T, Pred>\<close>: the tests before the switch, then the switch of the value type.\<close>

definition CanMatch_with :: "(ZoneMapEntry \<Rightarrow> bool) \<Rightarrow> PredicateType \<Rightarrow> ZoneMapEntry \<Rightarrow> bool" where
  "CanMatch_with test pred e =
     (if \<not> ze_has_min_max e then True
      else if pred = IsNull then ze_has_nulls e
      else if pred = IsNotNull then ze_row_count e > ze_null_count e
      else if ze_row_count e = 0 then False
      else test e)"

definition CanMatch_int :: "PredicateType \<Rightarrow> 'a::len word \<Rightarrow> ZoneMapEntry \<Rightarrow> bool" where
  "CanMatch_int pred value = CanMatch_with (\<lambda>e.
     range_can_match pred (sint (ze_min_int e)) (sint (ze_max_int e)) (sint (scast value :: u64))) pred"

definition CanMatch_double :: "PredicateType \<Rightarrow> u64 \<Rightarrow> ZoneMapEntry \<Rightarrow> bool" where
  "CanMatch_double pred value =
     CanMatch_with (\<lambda>e. fp_can_match pred (ze_min_fp e) (ze_max_fp e) value) pred"

definition CanMatch_float :: "PredicateType \<Rightarrow> u32 \<Rightarrow> ZoneMapEntry \<Rightarrow> bool" where
  "CanMatch_float pred value = CanMatch_double pred (double_of_float value)"

text \<open>The run-time dispatch reads the constant at the width of the type. A predicate with no
  case of its own, and a type with none, keep the block.\<close>

fun dispatches :: "PredicateType \<Rightarrow> bool" where
  "dispatches p = (p \<in> {Equal, NotEqual, LessThan, LessEqual, GreaterThan, GreaterEqual})"

fun CanMatch_at :: "DataType \<Rightarrow> PredicateType \<Rightarrow> byte list \<Rightarrow> ZoneMapEntry \<Rightarrow> bool res" where
  "CanMatch_at Int32 p value e =
     bind_res (read_word value 0) (\<lambda>v :: u32. Inr (CanMatch_int p v e))"
| "CanMatch_at Int64 p value e =
     bind_res (read_word value 0) (\<lambda>v :: u64. Inr (CanMatch_int p v e))"
| "CanMatch_at Float p value e =
     bind_res (read_word value 0) (\<lambda>v :: u32. Inr (CanMatch_float p v e))"
| "CanMatch_at Double p value e =
     bind_res (read_word value 0) (\<lambda>v :: u64. Inr (CanMatch_double p v e))"
| "CanMatch_at _ p value e = Inr True"

definition CanMatch :: "DataType \<Rightarrow> PredicateType \<Rightarrow> byte list \<Rightarrow> ZoneMapEntry \<Rightarrow> bool res" where
  "CanMatch type pred value e =
     (if \<not> IsNumeric type then Inr True
      else if dispatches pred then CanMatch_at type pred value e
      else if pred = IsNull then Inr (ze_has_nulls e)
      else if pred = IsNotNull then Inr (ze_row_count e > ze_null_count e)
      else Inr True)"

section \<open>The zone map of a column\<close>

record ZoneMap =
  zm_entries :: "ZoneMapEntry list"
  zm_block_rows :: nat

definition ZoneMap_new :: "nat \<Rightarrow> ZoneMap" where
  "ZoneMap_new block_rows = \<lparr>zm_entries = [], zm_block_rows = block_rows\<rparr>"

definition AddBlock :: "ZoneMapEntry \<Rightarrow> ZoneMap \<Rightarrow> ZoneMap" where
  "AddBlock entry zm = zm\<lparr>zm_entries := zm_entries zm @ [entry]\<rparr>"

text \<open>Rows \<open>b * n\<close> up to \<open>min (b * n + n) count\<close>.\<close>

definition block_slice :: "nat \<Rightarrow> nat \<Rightarrow> 'a list \<Rightarrow> 'a list" where
  "block_slice n b xs = take n (drop (b * n) xs)"

definition BuildFromColumn ::
  "('v list \<Rightarrow> bool list option \<Rightarrow> ZoneMapEntry \<Rightarrow> ZoneMapEntry) \<Rightarrow>
   'v list \<Rightarrow> bool list option \<Rightarrow> ZoneMap \<Rightarrow> ZoneMap res" where
  "BuildFromColumn update data nulls zm =
     (let n = zm_block_rows zm
      in if n = 0 then Inl DivByZero
         else let num_blocks = (length data + n - 1) div n;
                  entries = resize ZoneMapEntry_default num_blocks (zm_entries zm)
              in Inr (zm\<lparr>zm_entries :=
                   map (\<lambda>b. update (block_slice n b data) (map_option (block_slice n b) nulls) (entries ! b))
                     [0..<num_blocks]\<rparr>))"

definition NumBlocks :: "ZoneMap \<Rightarrow> nat" where
  "NumBlocks zm = length (zm_entries zm)"

definition Block :: "ZoneMap \<Rightarrow> nat \<Rightarrow> ZoneMapEntry res" where
  "Block zm idx = nth_res (zm_entries zm) idx"

definition ShouldScanBlock :: "ZoneMap \<Rightarrow> nat \<Rightarrow> DataType \<Rightarrow> PredicateType \<Rightarrow> byte list \<Rightarrow> bool res" where
  "ShouldScanBlock zm block_idx type pred value =
     (if block_idx \<ge> length (zm_entries zm) then Inr True
      else CanMatch type pred value (zm_entries zm ! block_idx))"

section \<open>Serialised form\<close>

definition byte_of_bool :: "bool \<Rightarrow> byte" where
  "byte_of_bool b = (if b then 1 else 0)"

definition ZoneMap_Write_entry :: "ZoneMapEntry \<Rightarrow> Buffer \<Rightarrow> Buffer" where
  "ZoneMap_Write_entry e out =
     Buffer_AppendValue (byte_of_bool (ze_has_nulls e))
     (Buffer_AppendValue (byte_of_bool (ze_has_min_max e))
     (Buffer_AppendValue (ze_row_count e)
     (Buffer_AppendValue (ze_null_count e)
     (Buffer_AppendValue (ze_max_fp e)
     (Buffer_AppendValue (ze_min_fp e)
     (Buffer_AppendValue (ze_max_int e)
     (Buffer_AppendValue (ze_min_int e) out)))))))"

definition ZoneMap_Write :: "ZoneMap \<Rightarrow> Buffer \<Rightarrow> Buffer" where
  "ZoneMap_Write zm out =
     fold ZoneMap_Write_entry (zm_entries zm)
       (Buffer_AppendValue (of_nat (zm_block_rows zm) :: u32)
         (Buffer_AppendValue (of_nat (length (zm_entries zm)) :: u32) out))"

definition ZoneMap_Read_entry :: "byte list \<Rightarrow> nat \<Rightarrow> ZoneMapEntry res" where
  "ZoneMap_Read_entry data p =
     bind_res (read_word data p) (\<lambda>mni.
     bind_res (read_word data (p + 8)) (\<lambda>mxi.
     bind_res (read_word data (p + 16)) (\<lambda>mnf.
     bind_res (read_word data (p + 24)) (\<lambda>mxf.
     bind_res (read_word data (p + 32)) (\<lambda>nulls.
     bind_res (read_word data (p + 36)) (\<lambda>row_count.
     bind_res (read_word data (p + 40)) (\<lambda>mm :: byte.
     bind_res (read_word data (p + 41)) (\<lambda>hn :: byte.
       Inr \<lparr>ze_min_int = mni, ze_max_int = mxi, ze_min_fp = mnf, ze_max_fp = mxf,
            ze_null_count = nulls, ze_row_count = row_count,
            ze_has_min_max = (mm \<noteq> 0), ze_has_nulls = (hn \<noteq> 0)\<rparr>))))))))"

fun ZoneMap_Read_loop :: "byte list \<Rightarrow> nat \<Rightarrow> nat \<Rightarrow> ZoneMapEntry list res" where
  "ZoneMap_Read_loop data p 0 = Inr []"
| "ZoneMap_Read_loop data p (Suc n) =
     bind_res (ZoneMap_Read_entry data p) (\<lambda>e.
     bind_res (ZoneMap_Read_loop data (p + 42) n) (\<lambda>es. Inr (e # es)))"

definition ZoneMap_Read :: "byte list \<Rightarrow> ZoneMap res" where
  "ZoneMap_Read data =
     bind_res (read_word data 0) (\<lambda>num_blocks :: u32.
     bind_res (read_word data 4) (\<lambda>block_rows :: u32.
     bind_res (ZoneMap_Read_loop data 8 (unat num_blocks)) (\<lambda>es.
       Inr \<lparr>zm_entries = es, zm_block_rows = unat block_rows\<rparr>)))"

section \<open>Facts on the update of an entry\<close>

text \<open>The values of the rows that are not null.\<close>

definition valid_values :: "'v list \<Rightarrow> bool list option \<Rightarrow> 'v list" where
  "valid_values data nulls = map fst (filter (\<lambda>r. \<not> snd r) (rows data nulls))"

locale value_order =
  fixes lt :: "'v \<Rightarrow> 'v \<Rightarrow> bool"
    and key :: "'v \<Rightarrow> int"
    and ordered :: "'v \<Rightarrow> bool"
  assumes lt_key: "ordered a \<Longrightarrow> ordered b \<Longrightarrow> lt a b \<longleftrightarrow> key a < key b"
begin

lemma Update_loop_bounds:
  assumes "Update_loop lt rs mn mx n = (mn', mx', n')"
    and "ordered mn" "ordered mx" "\<forall>(v, b) \<in> set rs. b \<or> ordered v"
  shows "ordered mn' \<and> ordered mx' \<and> key mn' \<le> key mn \<and> key mx \<le> key mx' \<and>
    (\<forall>v. (v, False) \<in> set rs \<longrightarrow> key mn' \<le> key v \<and> key v \<le> key mx')"
  using assms
proof (induction rs arbitrary: mn mx n)
  case Nil
  then show ?case by simp
next
  case (Cons r rs)
  obtain v b where r: "r = (v, b)" by (cases r)
  show ?case
  proof (cases b)
    case True
    then show ?thesis using Cons.IH [of mn mx "n + 1"] Cons.prems by (simp add: r)
  next
    case False
    let ?mn = "if lt v mn then v else mn" and ?mx = "if lt mx v then v else mx"
    have v: "ordered v" using Cons.prems(4) False by (simp add: r)
    have step: "ordered ?mn" "ordered ?mx" "key ?mn \<le> key v" "key ?mn \<le> key mn" "key v \<le> key ?mx"
      "key mx \<le> key ?mx"
      using v Cons.prems(2,3) by (auto simp: lt_key)
    have "Update_loop lt rs ?mn ?mx n = (mn', mx', n')" using Cons.prems(1) False by (simp add: r)
    moreover have "\<forall>(v, b) \<in> set rs. b \<or> ordered v" using Cons.prems(4) by simp
    ultimately show ?thesis
      using Cons.IH [of ?mn ?mx n] step False by (fastforce simp: r)
  qed
qed

lemma Update_loop_mem:
  "Update_loop lt rs mn mx n = (mn', mx', n') \<Longrightarrow>
     (mn' = mn \<or> (mn', False) \<in> set rs) \<and> (mx' = mx \<or> (mx', False) \<in> set rs)"
proof (induction rs arbitrary: mn mx n)
  case (Cons r rs)
  then show ?case by (cases r) (fastforce split: if_splits)
qed simp

end

lemma filter_dropWhile: "filter (\<lambda>x. \<not> P x) (dropWhile P xs) = filter (\<lambda>x. \<not> P x) xs"
  by (induction xs) auto

lemma insert_valid: "{r. (r = (v, False) \<or> r \<in> S) \<and> \<not> snd r} = insert (v, False) {r \<in> S. \<not> snd r}"
  by auto

lemma image_Collect_filter: "fst ` {r \<in> S. \<not> snd r} = {w. (w, False) \<in> S}"
  by (auto simp: image_iff)

text \<open>What an update of an entry does when some row is not null.\<close>

lemma Update_valid:
  assumes "valid_values data nulls \<noteq> []"
  obtains v rest mn mx n where "dropWhile snd (rows data nulls) = (v, False) # rest"
    and "Update_loop lt rest v v (ze_null_count e) = (mn, mx, n)"
    and "Update lt store data nulls e = (store mn mx (e\<lparr>ze_null_count := n\<rparr>))
      \<lparr>ze_row_count := of_nat (length data), ze_has_min_max := True, ze_has_nulls := n > 0\<rparr>"
    and "set (valid_values data nulls) = insert v {w. (w, False) \<in> set rest}"
proof -
  let ?rs = "rows data nulls"
  have "data \<noteq> []" using assms by (auto simp: valid_values_def rows_def)
  have "\<exists>r \<in> set ?rs. \<not> snd r" using assms by (auto simp: valid_values_def filter_empty_conv)
  then have ne: "dropWhile snd ?rs \<noteq> []" by (simp add: dropWhile_eq_Nil_conv)
  then obtain v b rest where d: "dropWhile snd ?rs = (v, b) # rest"
    by (metis list.exhaust surj_pair)
  have b: "\<not> b" using hd_dropWhile [OF ne] by (simp add: d)
  obtain mn mx n where l: "Update_loop lt rest v v (ze_null_count e) = (mn, mx, n)"
    by (metis prod_cases3)
  have "set (valid_values data nulls) = fst ` {r \<in> set (dropWhile snd ?rs). \<not> snd r}"
  proof -
    have "filter (\<lambda>r. \<not> snd r) (dropWhile snd ?rs) = filter (\<lambda>r. \<not> snd r) ?rs"
      by (rule filter_dropWhile)
    then have "valid_values data nulls = map fst (filter (\<lambda>r. \<not> snd r) (dropWhile snd ?rs))"
      by (simp only: valid_values_def)
    then show ?thesis by simp
  qed
  then have "set (valid_values data nulls) = insert v {w. (w, False) \<in> set rest}"
    using b by (simp add: d image_Collect_filter insert_valid)
  then show ?thesis
    using that [of v rest mn mx n] b d l \<open>data \<noteq> []\<close> by (simp add: Update_def)
qed

context value_order
begin

lemma Update_min_max:
  assumes "valid_values data nulls \<noteq> []" and "\<forall>v \<in> set (valid_values data nulls). ordered v"
  obtains mn mx n where "Update lt store data nulls e = (store mn mx (e\<lparr>ze_null_count := n\<rparr>))
      \<lparr>ze_row_count := of_nat (length data), ze_has_min_max := True, ze_has_nulls := n > 0\<rparr>"
    and "mn \<in> set (valid_values data nulls)" and "mx \<in> set (valid_values data nulls)"
    and "\<forall>v \<in> set (valid_values data nulls). key mn \<le> key v \<and> key v \<le> key mx"
proof -
  obtain v rest mn mx n where *: "dropWhile snd (rows data nulls) = (v, False) # rest"
    "Update_loop lt rest v v (ze_null_count e) = (mn, mx, n)"
    "Update lt store data nulls e = (store mn mx (e\<lparr>ze_null_count := n\<rparr>))
      \<lparr>ze_row_count := of_nat (length data), ze_has_min_max := True, ze_has_nulls := n > 0\<rparr>"
    "set (valid_values data nulls) = insert v {w. (w, False) \<in> set rest}"
    using assms(1) by (rule Update_valid)
  have "\<forall>(v, b) \<in> set rest. b \<or> ordered v" and "ordered v" using assms(2) *(4) by auto
  then show ?thesis
    using that [OF *(3)] Update_loop_bounds [OF *(2)] Update_loop_mem [OF *(2)] by (auto simp: *(4))
qed

end

interpretation signed: value_order "(<s)" sint "\<lambda>_. True"
  by unfold_locales (simp add: sless_sint)

interpretation ieee: value_order fp_less fp_key "\<lambda>v. \<not> fp_nan v"
  by unfold_locales (simp add: fp_less_def)

section \<open>Zone-map entries as block summaries\<close>

definition covers_ints :: "ZoneMapEntry \<Rightarrow> 'a::len word set \<Rightarrow> bool" where
  "covers_ints e V \<longleftrightarrow> ze_has_min_max e \<longrightarrow> (\<forall>v \<in> V. ze_row_count e \<noteq> 0 \<and>
     sint (ze_min_int e) \<le> sint v \<and> sint v \<le> sint (ze_max_int e))"

definition covers_doubles :: "ZoneMapEntry \<Rightarrow> u64 set \<Rightarrow> bool" where
  "covers_doubles e V \<longleftrightarrow> ze_has_min_max e \<longrightarrow> (\<forall>v \<in> V. ze_row_count e \<noteq> 0 \<and>
     fp_le (ze_min_fp e) v \<and> fp_le v (ze_max_fp e))"

text \<open>The meaning of a comparison on a column of integers and on a column of doubles.\<close>

fun word_query :: "PredicateType \<times> 'a::len word \<Rightarrow> 'a word \<Rightarrow> bool" where
  "word_query (p, c) v = (is_cmp p \<and> cmp_holds p (sint v) (sint c))"

fun fp_holds :: "PredicateType \<Rightarrow> 'a::len word \<Rightarrow> 'a word \<Rightarrow> bool" where
  "fp_holds Equal v c = fp_eq v c"
| "fp_holds NotEqual v c = (\<not> fp_eq v c)"
| "fp_holds LessThan v c = fp_less v c"
| "fp_holds LessEqual v c = fp_le v c"
| "fp_holds GreaterThan v c = fp_less c v"
| "fp_holds GreaterEqual v c = fp_le c v"
| "fp_holds _ v c = True"

fun fp_query :: "PredicateType \<times> 'a::len word \<Rightarrow> 'a word \<Rightarrow> bool" where
  "fp_query (p, c) v = (is_cmp p \<and> fp_holds p v c)"

lemma CanMatch_int_sound:
  fixes v c :: "'a::len word"
  assumes "LENGTH('a) \<le> 64" and "covers_ints e V" and "v \<in> V" and "word_query (p, c) v"
  shows "CanMatch_int p c e"
  using assms by (auto simp: CanMatch_int_def CanMatch_with_def covers_ints_def sint_scast
      intro!: range_can_match_sound [where v = "sint v"])

lemma fp_can_match_sound:
  "fp_le lo v \<Longrightarrow> fp_le v hi \<Longrightarrow> fp_holds p v c \<Longrightarrow> fp_can_match p lo hi c"
  by (cases p) (auto simp: fp_le_def fp_less_def fp_eq_def)

interpretation zone32: block_summary "\<lambda>e (p, c :: u32). CanMatch_int p c e" covers_ints word_query
  by unfold_locales (auto intro: CanMatch_int_sound)

interpretation zone64: block_summary "\<lambda>e (p, c :: u64). CanMatch_int p c e" covers_ints word_query
  by unfold_locales (auto intro: CanMatch_int_sound)

interpretation zone_fp: block_summary "\<lambda>e (p, c). CanMatch_double p c e" covers_doubles fp_query
  by unfold_locales (auto simp: CanMatch_double_def CanMatch_with_def covers_doubles_def
      intro: fp_can_match_sound)

lemma Update_int_covers:
  fixes data :: "'a::len word list"
  assumes "LENGTH('a) \<le> 64" and "length data < 2 ^ 32"
  shows "covers_ints (Update_int data nulls e) (set (valid_values data nulls))"
proof (cases "valid_values data nulls = []")
  case True
  then show ?thesis by (simp add: covers_ints_def)
next
  case False
  then have "data \<noteq> []" by (auto simp: valid_values_def rows_def)
  then have "(of_nat (length data) :: u32) \<noteq> 0"
    using assms(2) by (simp add: word_of_nat_eq_0_iff nat_dvd_not_less)
  moreover obtain mn mx n where "Update_int data nulls e = (store_int mn mx (e\<lparr>ze_null_count := n\<rparr>))
      \<lparr>ze_row_count := of_nat (length data), ze_has_min_max := True, ze_has_nulls := n > 0\<rparr>"
    and "mn \<in> set (valid_values data nulls)" and "mx \<in> set (valid_values data nulls)"
    and "\<forall>v \<in> set (valid_values data nulls). sint mn \<le> sint v \<and> sint v \<le> sint mx"
    unfolding Update_int_def using False by (rule signed.Update_min_max) simp_all
  ultimately show ?thesis
    using assms(1) by (simp add: covers_ints_def store_int_def sint_scast)
qed

lemma Update_double_covers:
  assumes "length data < 2 ^ 32"
    and "\<forall>v \<in> set (valid_values data nulls). \<not> fp_nan v"
  shows "covers_doubles (Update_double data nulls e) (set (valid_values data nulls))"
proof (cases "valid_values data nulls = []")
  case True
  then show ?thesis by (simp add: covers_doubles_def)
next
  case False
  then have "data \<noteq> []" by (auto simp: valid_values_def rows_def)
  then have "(of_nat (length data) :: u32) \<noteq> 0"
    using assms(1) by (simp add: word_of_nat_eq_0_iff nat_dvd_not_less)
  moreover obtain mn mx n where "Update_double data nulls e = (store_double mn mx (e\<lparr>ze_null_count := n\<rparr>))
      \<lparr>ze_row_count := of_nat (length data), ze_has_min_max := True, ze_has_nulls := n > 0\<rparr>"
    and "mn \<in> set (valid_values data nulls)" and "mx \<in> set (valid_values data nulls)"
    and "\<forall>v \<in> set (valid_values data nulls). fp_key mn \<le> fp_key v \<and> fp_key v \<le> fp_key mx"
    unfolding Update_double_def using False assms(2) by (rule ieee.Update_min_max)
  ultimately show ?thesis
    using assms(2) by (simp add: covers_doubles_def store_double_def fp_le_def)
qed

section \<open>Facts on the zone map of a column\<close>

definition null_at :: "bool list option \<Rightarrow> nat \<Rightarrow> bool" where
  "null_at nulls i = (case nulls of None \<Rightarrow> False | Some ns \<Rightarrow> ns ! i)"

definition nulls_fit :: "'v list \<Rightarrow> bool list option \<Rightarrow> bool" where
  "nulls_fit data nulls = (case nulls of None \<Rightarrow> True | Some ns \<Rightarrow> length ns = length data)"

lemma rows_nth:
  "nulls_fit data nulls \<Longrightarrow> i < length data \<Longrightarrow> rows data nulls ! i = (data ! i, null_at nulls i)"
  and length_rows: "nulls_fit data nulls \<Longrightarrow> length (rows data nulls) = length data"
  by (cases nulls; simp add: rows_def null_at_def nulls_fit_def)+

lemma valid_values_nth:
  assumes "nulls_fit data nulls" and "i < length data" and "\<not> null_at nulls i"
  shows "data ! i \<in> set (valid_values data nulls)"
proof -
  have "(data ! i, False) \<in> set (rows data nulls)"
    using nth_mem [of i "rows data nulls"] assms by (simp add: rows_nth length_rows)
  then show ?thesis by (force simp: valid_values_def)
qed

lemma valid_values_subset: "set (valid_values data nulls) \<subseteq> set data"
  by (auto simp: valid_values_def rows_def dest: set_zip_leftD)

lemma slice_nth:
  assumes "0 < n" and "i < length xs"
  shows "i mod n < length (block_slice n (i div n) xs)" and "block_slice n (i div n) xs ! (i mod n) = xs ! i"
proof -
  have "i div n * n + i mod n = i" by simp
  moreover have "i div n * n \<le> length xs"
    using assms(2) div_times_less_eq_dividend [of i n] by linarith
  ultimately show "i mod n < length (block_slice n (i div n) xs)" and "block_slice n (i div n) xs ! (i mod n) = xs ! i"
    using assms by (simp_all add: block_slice_def less_diff_conv add.commute)
qed

lemma valid_in_slice:
  assumes "nulls_fit data nulls" and "0 < n" and "i < length data" and "\<not> null_at nulls i"
  shows "data ! i \<in> set (valid_values (block_slice n (i div n) data) (map_option (block_slice n (i div n)) nulls))"
proof -
  let ?b = "i div n" and ?j = "i mod n"
  have "nulls_fit (block_slice n ?b data) (map_option (block_slice n ?b) nulls)"
    using assms(1) by (cases nulls) (simp_all add: nulls_fit_def block_slice_def)
  moreover have "\<not> null_at (map_option (block_slice n ?b) nulls) ?j"
    using assms by (cases nulls) (simp_all add: null_at_def nulls_fit_def slice_nth(2))
  ultimately show ?thesis
    using valid_values_nth [of "block_slice n ?b data" _ ?j] slice_nth [OF assms(2,3)] by simp
qed

lemma BuildFromColumn_block:
  assumes "BuildFromColumn update data nulls zm = Inr zm'" and "i < length data"
  shows "0 < zm_block_rows zm" and "i div zm_block_rows zm < length (zm_entries zm')"
    and "\<exists>e. zm_entries zm' ! (i div zm_block_rows zm) =
      update (block_slice (zm_block_rows zm) (i div zm_block_rows zm) data)
        (map_option (block_slice (zm_block_rows zm) (i div zm_block_rows zm)) nulls) e"
proof -
  show n: "0 < zm_block_rows zm"
    using assms(1) by (simp add: BuildFromColumn_def Let_def split: if_splits)
  note b = less_ceil [OF n assms(2)]
  then show "i div zm_block_rows zm < length (zm_entries zm')"
    and "\<exists>e. zm_entries zm' ! (i div zm_block_rows zm) =
      update (block_slice (zm_block_rows zm) (i div zm_block_rows zm) data)
        (map_option (block_slice (zm_block_rows zm) (i div zm_block_rows zm)) nulls) e"
    using assms(1) n by (auto simp: BuildFromColumn_def Let_def)
qed

lemma length_slice_le: "length (block_slice n b xs) \<le> n"
  by (simp add: block_slice_def)

text \<open>A zone map built from a column never rules out the block of a row that matches.\<close>

lemma built_int_covers:
  fixes data :: "'a::len word list"
  assumes "LENGTH('a) \<le> 64" and "BuildFromColumn Update_int data nulls zm = Inr zm'"
    and "zm_block_rows zm < 2 ^ 32" and "nulls_fit data nulls"
    and "i < length data" and "\<not> null_at nulls i" and "word_query (p, c) (data ! i)"
  shows "CanMatch_int p c (zm_entries zm' ! (i div zm_block_rows zm))"
proof -
  let ?n = "zm_block_rows zm"
  note blk = BuildFromColumn_block [OF assms(2,5)]
  have "length (block_slice ?n (i div ?n) data) < 2 ^ 32"
    using length_slice_le [of ?n "i div ?n" data] assms(3) by linarith
  then have "covers_ints (zm_entries zm' ! (i div ?n))
      (set (valid_values (block_slice ?n (i div ?n) data) (map_option (block_slice ?n (i div ?n)) nulls)))"
    using blk(3) Update_int_covers [OF assms(1)] by auto
  then show ?thesis
    using valid_in_slice [OF assms(4) blk(1) assms(5,6)] assms(7)
    by (rule CanMatch_int_sound [OF assms(1)])
qed

lemma built_double_covers:
  assumes "BuildFromColumn Update_double data nulls zm = Inr zm'"
    and "zm_block_rows zm < 2 ^ 32" and "nulls_fit data nulls" and "\<forall>v \<in> set data. \<not> fp_nan v"
    and "i < length data" and "\<not> null_at nulls i" and "fp_query (p, c) (data ! i)"
  shows "CanMatch_double p c (zm_entries zm' ! (i div zm_block_rows zm))"
proof -
  let ?n = "zm_block_rows zm"
  let ?vs = "valid_values (block_slice ?n (i div ?n) data) (map_option (block_slice ?n (i div ?n)) nulls)"
  note blk = BuildFromColumn_block [OF assms(1,5)]
  have "length (block_slice ?n (i div ?n) data) < 2 ^ 32"
    using length_slice_le [of ?n "i div ?n" data] assms(2) by linarith
  moreover have "\<forall>v \<in> set ?vs. \<not> fp_nan v"
    using assms(4) valid_values_subset by (fastforce simp: block_slice_def dest: in_set_takeD in_set_dropD)
  ultimately have "covers_doubles (zm_entries zm' ! (i div ?n)) (set ?vs)"
    using blk(3) Update_double_covers by auto
  then show ?thesis
    using zone_fp.sound [OF _ valid_in_slice [OF assms(3) blk(1) assms(5,6)] assms(7)] by simp
qed

section \<open>Facts on the serialised form\<close>

definition entry_image :: "ZoneMapEntry \<Rightarrow> byte list" where
  "entry_image e = bytes_of (ze_min_int e) @ bytes_of (ze_max_int e) @ bytes_of (ze_min_fp e) @
     bytes_of (ze_max_fp e) @ bytes_of (ze_null_count e) @ bytes_of (ze_row_count e) @
     bytes_of (byte_of_bool (ze_has_min_max e)) @ bytes_of (byte_of_bool (ze_has_nulls e))"

definition zone_map_image :: "ZoneMap \<Rightarrow> byte list" where
  "zone_map_image zm = bytes_of (of_nat (length (zm_entries zm)) :: u32) @
     bytes_of (of_nat (zm_block_rows zm) :: u32) @ concat (map entry_image (zm_entries zm))"

lemma Write_entry_contents:
  "Buffer_inv b \<Longrightarrow> Buffer_inv (ZoneMap_Write_entry e b) \<and>
     contents (ZoneMap_Write_entry e b) = contents b @ entry_image e"
  by (simp add: ZoneMap_Write_entry_def entry_image_def)

lemma Write_entries_contents:
  "Buffer_inv b \<Longrightarrow> Buffer_inv (fold ZoneMap_Write_entry es b) \<and>
     contents (fold ZoneMap_Write_entry es b) = contents b @ concat (map entry_image es)"
  by (induction es arbitrary: b) (simp_all add: Write_entry_contents)

lemma ZoneMap_Write_contents:
  "Buffer_inv b \<Longrightarrow> Buffer_inv (ZoneMap_Write zm b) \<and>
     contents (ZoneMap_Write zm b) = contents b @ zone_map_image zm"
  by (simp add: ZoneMap_Write_def zone_map_image_def Write_entries_contents)

lemma length_entry_image [simp]: "length (entry_image e) = 42"
  by (simp add: entry_image_def)

lemma Read_entry_image: "ZoneMap_Read_entry (pre @ entry_image e @ rest) (length pre) = Inr e"
  by (cases e) (simp add: ZoneMap_Read_entry_def entry_image_def read_word_def byte_of_bool_def)

lemma Read_loop_image:
  "length pre = p \<Longrightarrow>
     ZoneMap_Read_loop (pre @ concat (map entry_image es) @ rest) p (length es) = Inr es"
proof (induction es arbitrary: pre p)
  case (Cons e es)
  then show ?case
    using Cons.IH [of "pre @ entry_image e"] Read_entry_image [of pre e] by auto
qed simp

lemma ZoneMap_Read_image:
  assumes "length (zm_entries zm) < 2 ^ 32" and "zm_block_rows zm < 2 ^ 32"
  shows "ZoneMap_Read (zone_map_image zm @ rest) = Inr zm"
proof -
  let ?n = "of_nat (length (zm_entries zm)) :: u32" and ?r = "of_nat (zm_block_rows zm) :: u32"
  have "read_word (zone_map_image zm @ rest) 0 = Inr ?n"
    using read_word_append [of "[]" 0 ?n] by (simp add: zone_map_image_def)
  moreover have "read_word (zone_map_image zm @ rest) 4 = Inr ?r"
    using read_word_append [of "bytes_of ?n" 4 ?r] by (simp add: zone_map_image_def)
  moreover have "ZoneMap_Read_loop (zone_map_image zm @ rest) 8 (length (zm_entries zm)) =
      Inr (zm_entries zm)"
    using Read_loop_image [of "bytes_of ?n @ bytes_of ?r" 8] by (simp add: zone_map_image_def)
  ultimately show ?thesis using assms by (simp add: ZoneMap_Read_def unat_of_nat)
qed

section \<open>Properties\<close>

text \<open>C20: a zone map built from a column of 32-bit integers never prunes the block of a row whose
  value is not null and satisfies the comparison, whatever the entries held before.\<close>

theorem zone_map_never_prunes_match:
  fixes data :: "32 word list"
  assumes "BuildFromColumn Update_int data nulls zm = Inr zm'" and "zm_block_rows zm < 2 ^ 32"
    and "nulls_fit data nulls" and "i < length data" and "\<not> null_at nulls i"
    and "word_query (p, c) (data ! i)"
  shows "ShouldScanBlock zm' (i div zm_block_rows zm) Int32 p (bytes_of c) = Inr True"
proof -
  let ?e = "zm_entries zm' ! (i div zm_block_rows zm)"
  have "CanMatch_int p c ?e" by (rule built_int_covers [OF _ assms]) simp
  moreover have "read_word (bytes_of c) 0 = Inr c" using read_word_append [of "[]" 0 c "[]"] by simp
  ultimately have "CanMatch Int32 p (bytes_of c) ?e = Inr True"
    using assms(6) by (auto simp: CanMatch_def IsNumeric_def IsInteger_def)
  then show ?thesis using BuildFromColumn_block(2) [OF assms(1,4)] by (simp add: ShouldScanBlock_def)
qed

theorem zone_map_never_prunes_match_witness:
  "\<exists>zm'. BuildFromColumn Update_int [3, - 4, 9 :: 32 word] (Some [False, False, True]) (ZoneMap_new 2) = Inr zm' \<and>
    ShouldScanBlock zm' 0 Int32 LessThan (bytes_of (0 :: 32 word)) = Inr True"
proof -
  obtain zm' where b: "BuildFromColumn Update_int [3, - 4, 9 :: 32 word] (Some [False, False, True])
      (ZoneMap_new 2) = Inr zm'" by (simp add: BuildFromColumn_def ZoneMap_new_def Let_def)
  have "ShouldScanBlock zm' (1 div zm_block_rows (ZoneMap_new 2)) Int32 LessThan (bytes_of (0 :: 32 word)) = Inr True"
    by (rule zone_map_never_prunes_match [OF b])
      (simp_all add: ZoneMap_new_def nulls_fit_def null_at_def)
  with b show ?thesis by (simp add: ZoneMap_new_def)
qed

text \<open>C21: the same for a column of doubles that holds no NaN, with the IEEE comparisons.\<close>

theorem zone_map_never_prunes_double:
  assumes "BuildFromColumn Update_double data nulls zm = Inr zm'" and "zm_block_rows zm < 2 ^ 32"
    and "nulls_fit data nulls" and "\<forall>v \<in> set data. \<not> fp_nan v" and "i < length data"
    and "\<not> null_at nulls i" and "fp_query (p, c) (data ! i)"
  shows "ShouldScanBlock zm' (i div zm_block_rows zm) Double p (bytes_of c) = Inr True"
proof -
  let ?e = "zm_entries zm' ! (i div zm_block_rows zm)"
  have "CanMatch_double p c ?e" by (rule built_double_covers [OF assms])
  moreover have "read_word (bytes_of c) 0 = Inr c" using read_word_append [of "[]" 0 c "[]"] by simp
  ultimately have "CanMatch Double p (bytes_of c) ?e = Inr True"
    using assms(7) by (auto simp: CanMatch_def IsNumeric_def IsFloatingPoint_def)
  then show ?thesis using BuildFromColumn_block(2) [OF assms(1,5)] by (simp add: ShouldScanBlock_def)
qed

theorem zone_map_never_prunes_double_witness:
  "\<exists>zm'. BuildFromColumn Update_double [0x3ff0000000000000, 0xbff0000000000000] None (ZoneMap_new 2) = Inr zm' \<and>
    ShouldScanBlock zm' 0 Double GreaterThan (bytes_of (0 :: 64 word)) = Inr True"
proof -
  obtain zm' where b: "BuildFromColumn Update_double [0x3ff0000000000000, 0xbff0000000000000] None
      (ZoneMap_new 2) = Inr zm'" by (simp add: BuildFromColumn_def ZoneMap_new_def Let_def)
  have "\<not> fp_nan (0x3ff0000000000000 :: u64)" "\<not> fp_nan (0xbff0000000000000 :: u64)"
    "fp_query (GreaterThan, 0) (0x3ff0000000000000 :: u64)"
    by (simp_all add: fp_less_def fp_key_def fp_neg_def fp_nan_def fp_mag_def fp_mant_bits_def)
  then have "ShouldScanBlock zm' (0 div zm_block_rows (ZoneMap_new 2)) Double GreaterThan (bytes_of (0 :: 64 word)) = Inr True"
    by (intro zone_map_never_prunes_double [OF b]) (simp_all add: ZoneMap_new_def nulls_fit_def null_at_def)
  with b show ?thesis by simp
qed

text \<open>the bounds an update stores are exact: the minimum and the maximum of the values that are
  not null.\<close>

lemma zone_map_bounds_exact:
  fixes data :: "'a::len word list"
  assumes "LENGTH('a) \<le> 64" and "valid_values data nulls \<noteq> []"
  shows "sint (ze_min_int (Update_int data nulls e)) = Min (sint ` set (valid_values data nulls)) \<and>
    sint (ze_max_int (Update_int data nulls e)) = Max (sint ` set (valid_values data nulls)) \<and>
    ze_has_min_max (Update_int data nulls e)"
proof -
  obtain mn mx n where u: "Update_int data nulls e = (store_int mn mx (e\<lparr>ze_null_count := n\<rparr>))
      \<lparr>ze_row_count := of_nat (length data), ze_has_min_max := True, ze_has_nulls := n > 0\<rparr>"
    and "mn \<in> set (valid_values data nulls)" and "mx \<in> set (valid_values data nulls)"
    and "\<forall>v \<in> set (valid_values data nulls). sint mn \<le> sint v \<and> sint v \<le> sint mx"
    unfolding Update_int_def using assms(2) by (rule signed.Update_min_max) simp_all
  then have "Min (sint ` set (valid_values data nulls)) = sint mn"
    and "Max (sint ` set (valid_values data nulls)) = sint mx"
    by (auto intro!: Min_eqI Max_eqI)
  with u show ?thesis using assms(1) by (simp add: store_int_def sint_scast)
qed

text \<open>writing a zone map and reading it back, with anything behind it in the buffer, gives the
  same zone map when its two counts fit 32 bits.\<close>

lemma zone_map_round_trip:
  assumes "length (zm_entries zm) < 2 ^ 32" and "zm_block_rows zm < 2 ^ 32" and "Buffer_inv b" and "contents b = []"
  shows "ZoneMap_Read (contents (ZoneMap_Write zm b) @ rest) = Inr zm"
  using ZoneMap_Read_image [OF assms(1,2)] ZoneMap_Write_contents [OF assms(3)] assms(4) by simp

text \<open>Null rows before the first value are not counted: a block whose only null comes first is
  recorded as having no nulls, and the test for null rows prunes it.\<close>

lemma zone_map_leading_null_pruned:
  "CanMatch Int64 IsNull value (Update_int [x, y :: 64 word] (Some [True, False]) ZoneMapEntry_default) = Inr False"
  by (simp add: CanMatch_def IsNumeric_def IsInteger_def Update_int_def Update_def rows_def store_int_def
      ZoneMapEntry_default_def)

text \<open>A NaN that comes first stays as both bounds, and the equality test then prunes the block
  although a later row of it is equal to the constant.\<close>

lemma zone_map_nan_prunes_match:
  assumes "fp_nan nan"
  shows "CanMatch_double Equal v (Update_double [nan, v] None ZoneMapEntry_default) = False"
  using assms by (simp add: CanMatch_double_def CanMatch_with_def Update_double_def Update_def rows_def
      store_double_def ZoneMapEntry_default_def fp_less_def fp_le_def)

end
