(* ===== verification/FloatArith.thy ===== *)
theory FloatArith
  imports Floats
begin

text \<open>
  The arithmetic of \<^verbatim>\<open>float\<close> and \<^verbatim>\<open>double\<close> on IEEE 754 bit patterns, in the default rounding mode. A finite
  number is an integral number of units (\<open>2 ^ -149\<close> for \<^verbatim>\<open>float\<close>, \<open>2 ^ -1074\<close> for \<^verbatim>\<open>double\<close>), an operation is computed
  exactly on units and then rounded to the nearest pattern, ties to even. The payload and the sign of a
  NaN result are left open by the language; here every NaN result is the positive quiet NaN.
\<close>

section \<open>Formats\<close>

definition fp_unit_exp :: "'a::len itself \<Rightarrow> nat" where
  "fp_unit_exp T = (if LENGTH('a) = 32 then 149 else 1074)"

definition fp_inf_mag :: "'a::len itself \<Rightarrow> nat" where
  "fp_inf_mag T = 2 ^ (LENGTH('a) - 1) - 2 ^ fp_mant_bits TYPE('a)"

definition fp_is_inf :: "'a::len word \<Rightarrow> bool" where
  "fp_is_inf w \<longleftrightarrow> fp_mag w = fp_inf_mag TYPE('a)"

definition fp_is_zero :: "'a::len word \<Rightarrow> bool" where
  "fp_is_zero w \<longleftrightarrow> fp_mag w = 0"

definition fp_finite :: "'a::len word \<Rightarrow> bool" where
  "fp_finite w \<longleftrightarrow> fp_mag w < fp_inf_mag TYPE('a)"

definition fp_pack :: "bool \<Rightarrow> nat \<Rightarrow> 'a::len word" where
  "fp_pack neg m = (of_nat m OR (if neg then push_bit (LENGTH('a) - 1) 1 else 0))"

definition fp_qnan :: "'a::len word" where
  "fp_qnan = fp_pack False (fp_inf_mag TYPE('a) + 2 ^ (fp_mant_bits TYPE('a) - 1))"

section \<open>Units and rounding\<close>

text \<open>The units of a magnitude with \<open>p\<close> mantissa bits, and the magnitude nearest to \<open>n / d\<close> units.\<close>

definition mag_units :: "nat \<Rightarrow> nat \<Rightarrow> nat" where
  "mag_units p m = (if m < 2 ^ Suc p then m else (2 ^ p + m mod 2 ^ p) * 2 ^ (m div 2 ^ p - 1))"

definition mag_of_ratio :: "nat \<Rightarrow> nat \<Rightarrow> nat \<Rightarrow> nat" where
  "mag_of_ratio p n d = (let s = top_bit (n div d) - p in s * 2 ^ p + round_div n (2 ^ s * d))"

definition fp_units :: "'a::len word \<Rightarrow> int" where
  "fp_units w = (let u = int (mag_units (fp_mant_bits TYPE('a)) (fp_mag w)) in if fp_neg w then - u else u)"

definition fp_round :: "bool \<Rightarrow> nat \<Rightarrow> nat \<Rightarrow> 'a::len word" where
  "fp_round neg n d = fp_pack neg (min (mag_of_ratio (fp_mant_bits TYPE('a)) n d) (fp_inf_mag TYPE('a)))"

section \<open>Operations\<close>

definition fp_add :: "'a::len word \<Rightarrow> 'a word \<Rightarrow> 'a word" where
  "fp_add a b =
     (if fp_nan a \<or> fp_nan b \<or> fp_is_inf a \<and> fp_is_inf b \<and> fp_neg a \<noteq> fp_neg b then fp_qnan
      else if fp_is_inf a then a
      else if fp_is_inf b then b
      else let k = fp_units a + fp_units b
           in if k = 0 then fp_pack (fp_neg a \<and> fp_neg b) 0 else fp_round (k < 0) (nat \<bar>k\<bar>) 1)"

definition fp_uminus :: "'a::len word \<Rightarrow> 'a word" where
  "fp_uminus w = w XOR push_bit (LENGTH('a) - 1) 1"

definition fp_sub :: "'a::len word \<Rightarrow> 'a word \<Rightarrow> 'a word" where
  "fp_sub a b = fp_add a (fp_uminus b)"

definition fp_mul :: "'a::len word \<Rightarrow> 'a word \<Rightarrow> 'a word" where
  "fp_mul a b =
     (if fp_nan a \<or> fp_nan b \<or> fp_is_zero a \<and> fp_is_inf b \<or> fp_is_inf a \<and> fp_is_zero b then fp_qnan
      else let neg = (fp_neg a \<noteq> fp_neg b)
           in if fp_is_inf a \<or> fp_is_inf b then fp_pack neg (fp_inf_mag TYPE('a))
              else fp_round neg (nat \<bar>fp_units a * fp_units b\<bar>) (2 ^ fp_unit_exp TYPE('a)))"

definition fp_div :: "'a::len word \<Rightarrow> 'a word \<Rightarrow> 'a word" where
  "fp_div a b =
     (if fp_nan a \<or> fp_nan b \<or> fp_is_zero a \<and> fp_is_zero b \<or> fp_is_inf a \<and> fp_is_inf b then fp_qnan
      else let neg = (fp_neg a \<noteq> fp_neg b)
           in if fp_is_inf a \<or> fp_is_zero b then fp_pack neg (fp_inf_mag TYPE('a))
              else if fp_is_inf b then fp_pack neg 0
              else fp_round neg (nat \<bar>fp_units a\<bar> * 2 ^ fp_unit_exp TYPE('a)) (nat \<bar>fp_units b\<bar>))"

section \<open>Rounding to the nearest\<close>

lemma round_div_nearest:
  assumes "0 < d"
  shows "\<bar>int (round_div n d) * int d - int n\<bar> \<le> \<bar>int k * int d - int n\<bar>"
proof -
  define q r where "q = int (n div d)" and "r = int (n mod d)"
  have n: "int n = q * int d + r" and r: "0 \<le> r" "r < int d"
    using assms by (simp_all add: q_def r_def flip: of_nat_mult of_nat_add)
  have rd: "int (round_div n d) = q \<and> 2 * r \<le> int d \<or> int (round_div n d) = q + 1 \<and> int d \<le> 2 * r"
    by (auto simp: round_div_def Let_def q_def r_def)
  consider "int k \<le> q" | "q + 1 \<le> int k" by linarith
  then have "min r (int d - r) \<le> \<bar>int k * int d - int n\<bar>"
  proof cases
    case 1
    then have "int k * int d \<le> q * int d" using r by (intro mult_right_mono) simp_all
    then show ?thesis using n r by linarith
  next
    case 2
    then have "(q + 1) * int d \<le> int k * int d" using r by (intro mult_right_mono) simp_all
    then show ?thesis using n r by (simp add: distrib_right)
  qed
  then show ?thesis using rd n r by (auto simp: distrib_right)
qed

lemma mag_units_step:
  assumes "2 ^ p \<le> q \<or> s = 0" and "q \<le> 2 ^ Suc p"
  shows "mag_units p (s * 2 ^ p + q) = q * 2 ^ s"
proof -
  consider "s = 0" "q < 2 ^ Suc p" | "q = 2 ^ Suc p" | "0 < s" "q < 2 ^ Suc p" using assms(2) by linarith
  then show ?thesis
  proof cases
    case 2
    have e: "s * 2 ^ p + q = (s + 2) * 2 ^ p" using 2 by (simp add: add_mult_distrib)
    have "\<not> (s + 2) * 2 ^ p < 2 ^ Suc p" by simp
    then show ?thesis unfolding e mag_units_def by (simp add: 2)
  next
    case 3
    then have q: "2 ^ p \<le> q" using assms(1) by simp
    define f where "f = q - 2 ^ p"
    have f: "q = 2 ^ p + f" "f < 2 ^ p" using q 3 by (simp_all add: f_def)
    have e: "s * 2 ^ p + q = f + (s + 1) * 2 ^ p" by (simp add: f(1) add_mult_distrib)
    have "2 * 2 ^ p \<le> (s + 1) * (2 :: nat) ^ p" using 3(1) by (intro mult_le_mono1) simp
    then have "\<not> f + (s + 1) * 2 ^ p < 2 ^ Suc p" unfolding power_Suc by linarith
    moreover have "(f + (s + 1) * 2 ^ p) div 2 ^ p = s + 1" using f(2) by (subst div_mult_self1) simp_all
    moreover have "(f + (s + 1) * 2 ^ p) mod 2 ^ p = f" using f(2) by (subst mod_mult_self1) simp
    ultimately show ?thesis unfolding e mag_units_def by (simp add: f(1))
  qed (simp add: mag_units_def)
qed

lemma mag_units_coarse: "s < m div 2 ^ p \<Longrightarrow> 2 ^ s dvd mag_units p m"
proof -
  assume s: "s < m div 2 ^ p"
  show ?thesis
  proof (cases "m < 2 ^ Suc p")
    case True
    then have "m div 2 ^ p < 2" by (simp add: less_mult_imp_div_less)
    with s have "s = 0" by linarith
    then show ?thesis by simp
  next
    case False
    have "(2 :: nat) ^ s dvd 2 ^ (m div 2 ^ p - 1)" using s by (intro le_imp_power_dvd) simp
    then show ?thesis using False by (simp add: mag_units_def)
  qed
qed

lemma mag_units_fine: "m div 2 ^ p \<le> s \<Longrightarrow> 0 < s \<Longrightarrow> mag_units p m < 2 ^ (p + s)"
proof -
  assume s: "m div 2 ^ p \<le> s" "0 < s"
  show ?thesis
  proof (cases "m < 2 ^ Suc p")
    case True
    have "(2 :: nat) ^ Suc p \<le> 2 ^ (p + s)" using s(2) by (intro power_increasing) simp_all
    then show ?thesis using True by (simp add: mag_units_def)
  next
    case False
    have "(2 ^ p + m mod 2 ^ p) * 2 ^ (m div 2 ^ p - 1) < 2 ^ Suc p * (2 :: nat) ^ (m div 2 ^ p - 1)" by simp
    also have "\<dots> \<le> 2 ^ Suc p * 2 ^ (s - 1)" using s(1) by (intro mult_le_mono power_increasing) simp_all
    also have "(2 :: nat) ^ Suc p * 2 ^ (s - 1) = 2 ^ (p + s)" using s(2) by (cases s) (simp_all add: power_add)
    finally show ?thesis using False by (simp add: mag_units_def)
  qed
qed

lemma round_div_mono: "0 < d \<Longrightarrow> a * d \<le> n \<Longrightarrow> a \<le> round_div n d"
proof -
  assume "0 < d" "a * d \<le> n"
  then have "a \<le> n div d" by (simp add: less_eq_div_iff_mult_less_eq)
  then show ?thesis by (auto simp: round_div_def Let_def)
qed

lemma round_div_less: "0 < d \<Longrightarrow> n < a * d \<Longrightarrow> round_div n d \<le> a"
proof -
  assume "0 < d" "n < a * d"
  then have "n div d < a" by (simp add: div_less_iff_less_mult)
  then show ?thesis by (auto simp: round_div_def Let_def)
qed

lemma top_bit_zero: "top_bit 0 = 0"
  by (simp add: top_bit.simps [of 0])

text \<open>The rounded magnitude is a nearest one, whatever the exponent.\<close>

lemma mag_of_ratio_units:
  assumes "0 < d"
  obtains s q where "mag_of_ratio p n d = s * 2 ^ p + q" "q = round_div n (2 ^ s * d)" "q \<le> 2 ^ Suc p"
    "2 ^ p \<le> q \<or> s = 0" "0 < s \<Longrightarrow> 2 ^ (p + s) * d \<le> n"
proof -
  define s where "s = top_bit (n div d) - p"
  define q where "q = round_div n (2 ^ s * d)"
  have pos: "0 < 2 ^ s * d" using assms by simp
  have lo: "2 ^ (p + s) * d \<le> n" if "0 < s"
  proof -
    have t: "top_bit (n div d) = p + s" using that by (simp add: s_def)
    have "n div d \<noteq> 0" using t that top_bit_zero by (metis add_is_0 less_irrefl)
    from top_bit_bounds [OF this, THEN conjunct1] show ?thesis
      using assms by (simp add: t less_eq_div_iff_mult_less_eq)
  qed
  have "n div d < 2 ^ Suc (p + s)"
  proof (cases "n div d = 0")
    case False
    have "(2 :: nat) ^ Suc (top_bit (n div d)) \<le> 2 ^ Suc (p + s)" by (intro power_increasing) (simp_all add: s_def)
    then show ?thesis using top_bit_bounds [OF False] by linarith
  qed simp
  then have "n < 2 ^ Suc p * (2 ^ s * d)"
    using assms by (simp add: div_less_iff_less_mult power_add ac_simps)
  from round_div_less [OF pos this] have "q \<le> 2 ^ Suc p" by (simp add: q_def)
  moreover have "2 ^ p \<le> q \<or> s = 0"
    using lo round_div_mono [OF pos, of "2 ^ p" n] by (auto simp: q_def power_add ac_simps)
  moreover have "mag_of_ratio p n d = s * 2 ^ p + q" by (simp add: mag_of_ratio_def Let_def s_def q_def)
  ultimately show ?thesis using lo that q_def by blast
qed

theorem mag_of_ratio_nearest:
  assumes "0 < d"
  shows "\<bar>int (mag_units p (mag_of_ratio p n d)) * int d - int n\<bar> \<le> \<bar>int (mag_units p m) * int d - int n\<bar>"
proof -
  obtain s q where r: "mag_of_ratio p n d = s * 2 ^ p + q" and q: "q = round_div n (2 ^ s * d)" "q \<le> 2 ^ Suc p"
    "2 ^ p \<le> q \<or> s = 0" and lo: "0 < s \<Longrightarrow> 2 ^ (p + s) * d \<le> n"
    using mag_of_ratio_units [OF assms, where p = p and n = n] by blast
  have u: "mag_units p (mag_of_ratio p n d) = q * 2 ^ s" unfolding r by (rule mag_units_step [OF q(3,2)])
  have near: "\<bar>int (q * 2 ^ s) * int d - int n\<bar> \<le> \<bar>int (k * 2 ^ s) * int d - int n\<bar>" for k
    using round_div_nearest [of "2 ^ s * d" n k] assms by (simp add: q(1) ac_simps)
  show ?thesis
  proof (cases "s < m div 2 ^ p \<or> s = 0")
    case True
    then have "2 ^ s dvd mag_units p m" using mag_units_coarse [of s m p] by auto
    then obtain k where "mag_units p m = k * 2 ^ s" by (auto simp: dvd_def mult.commute)
    then show ?thesis using near [of k] by (simp only: u)
  next
    case False
    then have "mag_units p m < 2 ^ (p + s)" by (intro mag_units_fine) simp_all
    then have "int (mag_units p m) * int d \<le> int (2 ^ p * 2 ^ s) * int d"
      by (intro mult_right_mono) (simp_all only: of_nat_le_iff power_add less_imp_le of_nat_0_le_iff)
    moreover have "int (2 ^ p * 2 ^ s) * int d \<le> int n"
      unfolding of_nat_mult [symmetric] of_nat_le_iff using lo False by (simp add: power_add)
    ultimately show ?thesis using near [of "2 ^ p"] unfolding u by linarith
  qed
qed

section \<open>Patterns\<close>

lemma fp_mag_bound: "fp_mag (w :: 'a::len word) < 2 ^ (LENGTH('a) - 1)"
  by (simp add: fp_mag_def)

lemma fp_pack_fields:
  assumes "m < 2 ^ (LENGTH('a::len) - 1)"
  shows "fp_mag (fp_pack b m :: 'a word) = m" and "fp_neg (fp_pack b m :: 'a word) = b"
proof -
  let ?k = "LENGTH('a) - 1"
  let ?w = "of_nat m :: 'a word" and ?s = "if b then push_bit ?k 1 else 0 :: 'a word"
  have t: "take_bit ?k ?w = ?w"
    using assms by (simp add: take_bit_of_nat take_bit_nat_eq_self flip: of_nat_take_bit)
  moreover have "take_bit ?k ?s = 0" by (simp add: take_bit_push_bit del: push_bit_of_1)
  ultimately have "take_bit ?k (?w OR ?s) = ?w" by (simp only: take_bit_or or.right_neutral)
  moreover have "m < 2 ^ LENGTH('a)" using assms by (rule less_le_trans) (simp add: power_increasing)
  ultimately show "fp_mag (fp_pack b m :: 'a word) = m" by (simp add: fp_pack_def fp_mag_unat unat_of_nat)
  have "\<not> bit ?w ?k" using t by (metis bit_take_bit_iff less_irrefl)
  then show "fp_neg (fp_pack b m :: 'a word) = b"
    by (simp add: fp_pack_def fp_neg_def bit_or_iff bit_push_bit_iff del: push_bit_of_1)
qed

lemma fp_pack_id: "fp_pack (fp_neg w) (fp_mag w) = w" for w :: "'a::len word"
proof (rule bit_word_eqI)
  fix k assume k: "k < LENGTH('a)"
  let ?n = "LENGTH('a) - 1"
  have m: "(of_nat (fp_mag w) :: 'a word) = take_bit ?n w" by (simp add: fp_mag_unat)
  have "k = ?n" if "\<not> k < ?n" using k that by simp
  then show "bit (fp_pack (fp_neg w) (fp_mag w) :: 'a word) k = bit w k"
    unfolding fp_pack_def m using k by (auto simp: fp_neg_def bit_simps simp del: push_bit_of_1)
qed

lemma fp_inf_mag_bound: "fp_inf_mag TYPE('a::len) < 2 ^ (LENGTH('a) - 1)"
  by (simp add: fp_inf_mag_def)

lemma fp_round_units:
  assumes "fp_finite (fp_round neg n d :: 'a::len word)"
  shows "fp_units (fp_round neg n d :: 'a word) =
    (if neg then - 1 else 1) * int (mag_units (fp_mant_bits TYPE('a)) (mag_of_ratio (fp_mant_bits TYPE('a)) n d))"
proof -
  let ?m = "mag_of_ratio (fp_mant_bits TYPE('a)) n d"
  have lt: "min ?m (fp_inf_mag TYPE('a)) < 2 ^ (LENGTH('a) - 1)" using fp_inf_mag_bound [where 'a = 'a] by linarith
  note f = fp_pack_fields [OF lt, folded fp_round_def]
  have "min ?m (fp_inf_mag TYPE('a)) = ?m" using assms f(1) [of neg] by (simp add: fp_finite_def)
  then show ?thesis using f [of neg] by (simp add: fp_units_def Let_def)
qed

text \<open>A rounded result is a nearest finite number to the exact one, which is \<open>n / d\<close> units with its sign.\<close>

theorem fp_round_nearest:
  fixes c :: "'a::len word"
  assumes "0 < d" and "fp_finite (fp_round neg n d :: 'a word)"
  defines "x \<equiv> (if neg then - int n else int n)"
  shows "\<bar>fp_units (fp_round neg n d :: 'a word) * int d - x\<bar> \<le> \<bar>fp_units c * int d - x\<bar>"
proof -
  let ?p = "fp_mant_bits TYPE('a)"
  let ?r = "int (mag_units ?p (mag_of_ratio ?p n d)) * int d" and ?u = "int (mag_units ?p (fp_mag c)) * int d"
  note near = mag_of_ratio_nearest [OF assms(1), of ?p n]
  have "\<bar>fp_units (fp_round neg n d :: 'a word) * int d - x\<bar> = \<bar>?r - int n\<bar>"
    unfolding fp_round_units [OF assms(2)] x_def by (cases neg) simp_all
  also have "\<dots> \<le> min \<bar>?u - int n\<bar> (int n)"
    using near [of "fp_mag c"] near [of 0] by (simp add: mag_units_def)
  also have "\<dots> \<le> \<bar>fp_units c * int d - x\<bar>"
  proof -
    define u where "u = ?u"
    have u: "0 \<le> u" by (simp add: u_def)
    have "fp_units c * int d = u \<or> fp_units c * int d = - u" by (simp add: fp_units_def Let_def u_def)
    then show ?thesis using u unfolding u_def [symmetric] x_def by (cases neg) auto
  qed
  finally show ?thesis .
qed

section \<open>Addition of doubles\<close>

lemma fp_neg_zero: "fp_neg a \<Longrightarrow> fp_mag a = 0 \<Longrightarrow> a = push_bit (LENGTH('a) - 1) 1" for a :: "'a::len word"
  using fp_pack_id [of a] by (simp add: fp_pack_def)

lemma dbl_units_eq: "fp_units a = dbl_units a" for a :: u64
  by (simp add: fp_units_def dbl_units_def units_of_mag_def mag_units_def fp_mant_bits_def Let_def)

lemma double_of_units_eq: "fp_round (k < 0) (nat \<bar>k\<bar>) 1 = double_of_units k"
proof -
  have "mag_of_units n = min (mag_of_ratio 52 n 1) (2047 * 2 ^ 52)" for n
  proof (cases "n < 2 ^ 53")
    case True
    then have "top_bit n - 52 = 0" using top_bit_less [of n 53] top_bit_zero by (cases "n = 0") simp_all
    then show ?thesis using True by (simp add: mag_of_units_def mag_of_ratio_def round_div_def)
  qed (simp add: mag_of_units_def mag_of_ratio_def Let_def)
  then show ?thesis by (simp add: fp_round_def double_of_units_def fp_pack_def fp_mant_bits_def fp_inf_mag_def)
qed

lemma fp_finite_double: "fp_finite a \<longleftrightarrow> dbl_finite a" for a :: u64
  by (simp add: fp_finite_def dbl_finite_def fp_inf_mag_def fp_mant_bits_def)

lemma fp_finite_classes: "fp_finite a \<Longrightarrow> \<not> fp_nan a \<and> \<not> fp_is_inf a"
  by (simp add: fp_finite_def fp_nan_def fp_is_inf_def fp_inf_mag_def)

lemma mag_units_eq_0: "mag_units p m = 0 \<longleftrightarrow> m = 0"
  by (cases "m = 0") (simp_all add: mag_units_def)

text \<open>The reference addition of finite doubles agrees with this one.\<close>

lemma fp_add_double:
  assumes "dbl_finite a" and "dbl_finite b"
  shows "double_add a b = Inr (fp_add a b)"
proof -
  have fin: "fp_finite a" "fp_finite b" using assms by (simp_all add: fp_finite_double)
  note cl = fin [THEN fp_finite_classes]
  let ?z = "push_bit 63 1 :: u64"
  have z: "fp_neg ?z" "fp_mag ?z = 0" using double_pattern [of 0 True] by simp_all
  have zu: "dbl_units ?z = 0" using z by (simp add: dbl_units_def units_of_mag_def)
  show ?thesis
  proof (cases "dbl_units a + dbl_units b = 0")
    case True
    have "a = ?z \<and> b = ?z \<longleftrightarrow> fp_neg a \<and> fp_neg b"
    proof
      assume n: "fp_neg a \<and> fp_neg b"
      then have "mag_units 52 (fp_mag a) = 0 \<and> mag_units 52 (fp_mag b) = 0"
        using True by (simp add: fp_units_def fp_mant_bits_def Let_def flip: dbl_units_eq)
      then show "a = ?z \<and> b = ?z" using n fp_neg_zero [of a] fp_neg_zero [of b] by (simp add: mag_units_eq_0)
    qed (use z in auto)
    moreover have "double_of_units 0 = 0" by (simp add: double_of_units_def mag_of_units_def)
    ultimately show ?thesis using True assms cl
      by (cases "fp_neg a \<and> fp_neg b")
        (auto simp: double_add_def fp_add_def dbl_units_eq fp_pack_def Let_def simp del: push_bit_of_1)
  next
    case False
    then have "\<not> (a = ?z \<and> b = ?z)" using zu by auto
    then show ?thesis using False assms cl
      by (auto simp: double_add_def fp_add_def dbl_units_eq double_of_units_eq [simplified] Let_def simp del: push_bit_of_1)
  qed
qed

lemma fp_add_ints:
  assumes "\<bar>a\<bar> < 2 ^ 53" and "\<bar>b\<bar> < 2 ^ 53"
  shows "fp_add (double_of_int a) (double_of_int b) = double_of_int (a + b)"
  using double_add_ints [OF assms] fp_add_double double_of_int_exact(1) assms by simp

text \<open>Every operation on finite operands with a finite result yields a nearest number to the exact result.\<close>

lemma fp_add_nearest:
  fixes a b c :: "'a::len word"
  assumes "fp_finite a" and "fp_finite b" and "fp_finite (fp_add a b)"
  shows "\<bar>fp_units (fp_add a b) - (fp_units a + fp_units b)\<bar> \<le> \<bar>fp_units c - (fp_units a + fp_units b)\<bar>"
proof -
  note cl = assms(1,2) [THEN fp_finite_classes]
  let ?k = "fp_units a + fp_units b"
  have add: "fp_add a b = (if ?k = 0 then fp_pack (fp_neg a \<and> fp_neg b) 0 else fp_round (?k < 0) (nat \<bar>?k\<bar>) 1)"
    using cl by (simp add: fp_add_def Let_def)
  show ?thesis
  proof (cases "?k = 0")
    case True
    then have "fp_units (fp_add a b) = 0"
      unfolding add using fp_pack_fields [of 0, where 'a = 'a] by (simp add: fp_units_def mag_units_def)
    then show ?thesis using True by simp
  next
    case False
    have "(if ?k < 0 then - int (nat \<bar>?k\<bar>) else int (nat \<bar>?k\<bar>)) = ?k" by simp
    moreover have "fp_add a b = fp_round (?k < 0) (nat \<bar>?k\<bar>) 1" using False by (simp add: add)
    ultimately show ?thesis
      using fp_round_nearest [of 1 "?k < 0" "nat \<bar>?k\<bar>" c] assms(3) by (simp only: of_nat_1 mult_1_right zero_less_one)
  qed
qed

lemma fp_units_sign: "(if fp_neg a then - \<bar>fp_units a\<bar> else \<bar>fp_units a\<bar>) = fp_units a"
  by (simp add: fp_units_def Let_def)

lemma fp_mul_nearest:
  fixes a b c :: "'a::len word"
  assumes "fp_finite a" and "fp_finite b" and "fp_finite (fp_mul a b)"
  shows "\<bar>fp_units (fp_mul a b) * 2 ^ fp_unit_exp TYPE('a) - fp_units a * fp_units b\<bar> \<le>
    \<bar>fp_units c * 2 ^ fp_unit_exp TYPE('a) - fp_units a * fp_units b\<bar>"
proof -
  note cl = assms(1,2) [THEN fp_finite_classes]
  let ?k = "fp_units a * fp_units b" and ?neg = "fp_neg a \<noteq> fp_neg b" and ?d = "2 ^ fp_unit_exp TYPE('a) :: nat"
  have mul: "fp_mul a b = fp_round ?neg (nat \<bar>?k\<bar>) ?d" using cl by (simp add: fp_mul_def Let_def)
  have "(if ?neg then - int (nat \<bar>?k\<bar>) else int (nat \<bar>?k\<bar>)) = ?k"
    using fp_units_sign [of a] fp_units_sign [of b] by (auto simp: abs_mult split: if_splits)
  with fp_round_nearest [of ?d ?neg "nat \<bar>?k\<bar>" c] assms(3) show ?thesis unfolding mul by simp
qed

lemma fp_div_nearest:
  fixes a b c :: "'a::len word"
  assumes "fp_finite a" and "fp_finite b" and "\<not> fp_is_zero b" and "fp_finite (fp_div a b)"
  shows "\<bar>fp_units (fp_div a b) * fp_units b - fp_units a * 2 ^ fp_unit_exp TYPE('a)\<bar> \<le>
    \<bar>fp_units c * fp_units b - fp_units a * 2 ^ fp_unit_exp TYPE('a)\<bar>"
proof -
  note cl = assms(1,2) [THEN fp_finite_classes]
  define d where "d = nat \<bar>fp_units b\<bar>"
  define n where "n = nat \<bar>fp_units a\<bar> * 2 ^ fp_unit_exp TYPE('a)"
  let ?neg = "fp_neg a \<noteq> fp_neg b"
  have dv: "fp_div a b = fp_round ?neg n d" using cl assms(3) by (simp add: fp_div_def Let_def d_def n_def)
  have d: "0 < d" using assms(3) by (simp add: d_def fp_units_def fp_is_zero_def mag_units_eq_0 Let_def)
  let ?x = "if ?neg then - int n else int n" and ?s = "if fp_neg b then - 1 else 1 :: int"
  have x: "fp_units a * 2 ^ fp_unit_exp TYPE('a) = ?s * ?x" "fp_units b = ?s * int d"
    using fp_units_sign [of a] fp_units_sign [of b] by (auto simp: d_def n_def split: if_splits)
  have "\<bar>u * fp_units b - fp_units a * 2 ^ fp_unit_exp TYPE('a)\<bar> = \<bar>u * int d - ?x\<bar>" for u
  proof -
    have "u * fp_units b - fp_units a * 2 ^ fp_unit_exp TYPE('a) = ?s * (u * int d - ?x)"
      unfolding x by (simp only: right_diff_distrib mult.left_commute)
    then show ?thesis by (simp only: abs_mult) simp
  qed
  moreover have "\<bar>fp_units (fp_round ?neg n d :: 'a word) * int d - ?x\<bar> \<le> \<bar>fp_units c * int d - ?x\<bar>"
    using assms(4) by (intro fp_round_nearest [OF d]) (simp only: dv)
  ultimately show ?thesis by (simp only: dv)
qed

section \<open>Subtraction\<close>

lemma fp_uminus_fields: "fp_mag (fp_uminus w) = fp_mag w" "fp_neg (fp_uminus w) \<longleftrightarrow> \<not> fp_neg w" for w :: "'a::len word"
proof -
  let ?k = "LENGTH('a) - 1"
  have "take_bit ?k (w XOR push_bit ?k 1) = take_bit ?k w"
    by (simp add: take_bit_xor take_bit_push_bit del: push_bit_of_1)
  then show "fp_mag (fp_uminus w) = fp_mag w" by (simp add: fp_mag_unat fp_uminus_def del: push_bit_of_1)
  show "fp_neg (fp_uminus w) \<longleftrightarrow> \<not> fp_neg w"
    by (simp add: fp_neg_def fp_uminus_def bit_xor_iff bit_push_bit_iff del: push_bit_of_1)
qed

lemma fp_sub_nearest:
  fixes a b c :: "'a::len word"
  assumes "fp_finite a" and "fp_finite b" and "fp_finite (fp_sub a b)"
  shows "\<bar>fp_units (fp_sub a b) - (fp_units a - fp_units b)\<bar> \<le> \<bar>fp_units c - (fp_units a - fp_units b)\<bar>"
proof -
  have "fp_units (fp_uminus b) = - fp_units b" by (simp add: fp_units_def fp_uminus_fields Let_def)
  moreover have "fp_finite (fp_uminus b)" using assms(2) by (simp add: fp_finite_def fp_uminus_fields)
  ultimately show ?thesis using fp_add_nearest [of a "fp_uminus b" c] assms by (simp add: fp_sub_def)
qed

text \<open>\<open>nearest_to z n d\<close>: no number is closer to \<open>n / d\<close> units than \<open>z\<close>.\<close>

definition nearest_to :: "'a::len word \<Rightarrow> int \<Rightarrow> int \<Rightarrow> bool" where
  "nearest_to z n d \<longleftrightarrow> (\<forall>c :: 'a word. \<bar>fp_units z * d - n\<bar> \<le> \<bar>fp_units c * d - n\<bar>)"

end
