(* ===== verification/BloomFilters.thy ===== *)
theory BloomFilters
  imports DataTypes BitPacking FloatArith
begin

text \<open>
  \<^verbatim>\<open>include/columnar/bloom_filter.h\<close>: the Bloom filter with double hashing, its batch queries, its
  serialised form and the blocked filter. \<open>bloom_abs\<close> is the set of positions that are set; the
  operations refine union and inclusion of sets of positions.
\<close>

section \<open>The filter\<close>

record BloomFilter =
  bf_bits :: "u64 list"
  bf_num_hashes :: u64
  bf_num_bits :: u64

definition kDefaultBits :: u64 where "kDefaultBits = 1048576"
definition kDefaultHashes :: u64 where "kDefaultHashes = 7"

text \<open>\<^verbatim>\<open>(num_bits + 63) / 64\<close> in \<^verbatim>\<open>size_t\<close>.\<close>

definition num_words :: "u64 \<Rightarrow> nat" where
  "num_words num_bits = unat ((num_bits + 63) div 64)"

definition MurmurHash64 :: "u64 \<Rightarrow> u64 \<Rightarrow> u64" where
  "MurmurHash64 h seed =
     (let h = h XOR seed;
          h = h XOR drop_bit 33 h;
          h = h * 0xff51afd7ed558ccd;
          h = h XOR drop_bit 33 h;
          h = h * 0xc4ceb9fe1a85ec53
      in h XOR drop_bit 33 h)"

definition HashCombine :: "u64 \<Rightarrow> u64 \<Rightarrow> u64" where
  "HashCombine a b = a * 31 + b"

definition BloomFilter_new :: "u64 \<Rightarrow> u64 \<Rightarrow> BloomFilter" where
  "BloomFilter_new num_bits num_hashes =
     \<lparr>bf_bits = replicate (num_words num_bits) 0, bf_num_hashes = num_hashes,
      bf_num_bits = num_bits\<rparr>"

definition BloomFilter_default :: BloomFilter where
  "BloomFilter_default = BloomFilter_new kDefaultBits kDefaultHashes"

definition BloomFilter_Clear :: "BloomFilter \<Rightarrow> BloomFilter" where
  "BloomFilter_Clear bf = bf\<lparr>bf_bits := replicate (length (bf_bits bf)) 0\<rparr>"

text \<open>\<^verbatim>\<open>hash % num_bits\<close>.\<close>

definition bit_index :: "BloomFilter \<Rightarrow> u64 \<Rightarrow> nat res" where
  "bit_index bf hash =
     (if bf_num_bits bf = 0 then Inl DivByZero else Inr (unat (hash mod bf_num_bits bf)))"

definition set_bit_at :: "nat \<Rightarrow> BloomFilter \<Rightarrow> BloomFilter res" where
  "set_bit_at k bf =
     bind_res (upd_res (bf_bits bf) (k div 64) (\<lambda>w. w OR push_bit (k mod 64) 1))
       (\<lambda>ws. Inr (bf\<lparr>bf_bits := ws\<rparr>))"

definition test_bit_at :: "nat \<Rightarrow> BloomFilter \<Rightarrow> bool res" where
  "test_bit_at k bf =
     bind_res (nth_res (bf_bits bf) (k div 64)) (\<lambda>w. Inr (w AND push_bit (k mod 64) 1 \<noteq> 0))"

definition hash1 :: "u64 \<Rightarrow> u64" where
  "hash1 val = MurmurHash64 val 0x9e3779b97f4a7c15"

definition hash2 :: "u64 \<Rightarrow> u64" where
  "hash2 val = MurmurHash64 val 0xbf58476d1ce4e5b9"

text \<open>The loop of \<^verbatim>\<open>Add\<close> and of \<^verbatim>\<open>AddString\<close>, and the loop of the two queries.\<close>

definition add_hashes :: "u64 \<Rightarrow> BloomFilter \<Rightarrow> BloomFilter res" where
  "add_hashes val bf =
     (let h1 = hash1 val; h2 = hash2 val
      in fold_res (\<lambda>i bf. bind_res (bit_index bf (h1 + of_nat i * h2)) (\<lambda>k. set_bit_at k bf))
           [0..<unat (bf_num_hashes bf)] bf)"

fun query_hashes :: "u64 \<Rightarrow> u64 \<Rightarrow> BloomFilter \<Rightarrow> nat list \<Rightarrow> bool res" where
  "query_hashes h1 h2 bf [] = Inr True"
| "query_hashes h1 h2 bf (i # is) =
     bind_res (bit_index bf (h1 + of_nat i * h2)) (\<lambda>k.
     bind_res (test_bit_at k bf) (\<lambda>b. if \<not> b then Inr False else query_hashes h1 h2 bf is))"

definition might_contain :: "u64 \<Rightarrow> BloomFilter \<Rightarrow> bool res" where
  "might_contain val bf =
     query_hashes (hash1 val) (hash2 val) bf [0..<unat (bf_num_hashes bf)]"

text \<open>\<^verbatim>\<open>memcpy(&val, &value, sizeof(T))\<close> into a zeroed \<^verbatim>\<open>uint64_t\<close>.\<close>

definition Bloom_Add :: "'a::len word \<Rightarrow> BloomFilter \<Rightarrow> BloomFilter res" where
  "Bloom_Add value bf = add_hashes (ucast value) bf"

definition Bloom_AddBatch :: "'a::len word list \<Rightarrow> BloomFilter \<Rightarrow> BloomFilter res" where
  "Bloom_AddBatch values bf = fold_res Bloom_Add values bf"

definition Bloom_MightContain :: "'a::len word \<Rightarrow> BloomFilter \<Rightarrow> bool res" where
  "Bloom_MightContain value bf = might_contain (ucast value) bf"

definition Bloom_MightContainBatch :: "'a::len word list \<Rightarrow> BloomFilter \<Rightarrow> bool list res" where
  "Bloom_MightContainBatch values bf = map_res (\<lambda>v. Bloom_MightContain v bf) values"

text \<open>The string operations hash the first eight bytes behind the pointer, whatever the length.\<close>

definition Bloom_AddString :: "byte list \<Rightarrow> nat \<Rightarrow> BloomFilter \<Rightarrow> BloomFilter res" where
  "Bloom_AddString data len bf = bind_res (read_word data 0) (\<lambda>val. add_hashes val bf)"

definition Bloom_MightContainString :: "byte list \<Rightarrow> nat \<Rightarrow> BloomFilter \<Rightarrow> bool res" where
  "Bloom_MightContainString data len bf = bind_res (read_word data 0) (\<lambda>val. might_contain val bf)"

section \<open>The AVX-512 batch query\<close>

text \<open>Eight lanes; a lane's bit of the mask is cleared by the first probe that misses, and the
  hash loop stops early when no lane is left. The seed of probe \<open>h\<close> is a multiple of a constant.\<close>

definition avx512_probe :: "u64 list \<Rightarrow> nat \<Rightarrow> BloomFilter \<Rightarrow> nat \<Rightarrow> byte \<Rightarrow> byte res" where
  "avx512_probe vals h bf j all_match =
     bind_res (nth_res vals j) (\<lambda>v.
     bind_res (bit_index bf (MurmurHash64 v (of_nat h * 0x9e3779b97f4a7c15))) (\<lambda>k.
     bind_res (test_bit_at k bf) (\<lambda>b.
       Inr (if \<not> b then all_match AND NOT (push_bit j 1) else all_match))))"

fun avx512_hashes :: "u64 list \<Rightarrow> BloomFilter \<Rightarrow> nat list \<Rightarrow> byte \<Rightarrow> byte res" where
  "avx512_hashes vals bf [] all_match = Inr all_match"
| "avx512_hashes vals bf (h # hs) all_match =
     bind_res (fold_res (avx512_probe vals h bf) [0..<8] all_match) (\<lambda>m.
       if m = 0 then Inr m else avx512_hashes vals bf hs m)"

definition avx512_block :: "u64 list \<Rightarrow> BloomFilter \<Rightarrow> bool list res" where
  "avx512_block vals bf =
     bind_res (avx512_hashes vals bf [0..<unat (bf_num_hashes bf)] 0xFF) (\<lambda>m.
       Inr (map (bit m) [0..<8]))"

fun avx512_blocks :: "u64 list \<Rightarrow> BloomFilter \<Rightarrow> bool list res" where
  "avx512_blocks values bf =
     (if length values < 8 then Bloom_MightContainBatch values bf
      else bind_res (avx512_block (take 8 values) bf) (\<lambda>r.
           bind_res (avx512_blocks (drop 8 values) bf) (\<lambda>rs. Inr (r @ rs))))"

declare avx512_blocks.simps [simp del]

text \<open>\<open>avx512f\<close> is whether the build defines \<^verbatim>\<open>__AVX512F__\<close>.\<close>

definition Bloom_MightContainBatchAvx512 :: "bool \<Rightarrow> u64 list \<Rightarrow> BloomFilter \<Rightarrow> bool list res" where
  "Bloom_MightContainBatchAvx512 avx512f values bf =
     (if avx512f then avx512_blocks values bf else Bloom_MightContainBatch values bf)"

section \<open>Merging, counting, serialised form\<close>

definition Bloom_Merge :: "BloomFilter \<Rightarrow> BloomFilter \<Rightarrow> BloomFilter res" where
  "Bloom_Merge other bf =
     (if bf_num_bits bf \<noteq> bf_num_bits other \<or> bf_num_hashes bf \<noteq> bf_num_hashes other then Inr bf
      else bind_res (map_res (\<lambda>i. bind_res (nth_res (bf_bits other) i) (\<lambda>w. Inr (bf_bits bf ! i OR w)))
             [0..<length (bf_bits bf)])
           (\<lambda>ws. Inr (bf\<lparr>bf_bits := ws\<rparr>)))"

definition popcount :: "'a::len word \<Rightarrow> nat" where
  "popcount w = length (filter (bit w) [0..<LENGTH('a)])"

definition Bloom_BitsSet :: "BloomFilter \<Rightarrow> nat" where
  "Bloom_BitsSet bf = sum_list (map popcount (bf_bits bf))"

text \<open>\<^verbatim>\<open>std::pow\<close> of the mathematical library is a parameter.\<close>

definition Bloom_FalsePositiveRate :: "(u64 \<Rightarrow> u64 \<Rightarrow> u64) \<Rightarrow> BloomFilter \<Rightarrow> u64" where
  "Bloom_FalsePositiveRate pow bf =
     (let bits_set = sum_list (map popcount (bf_bits bf));
          p = fp_div (double_of_int (int bits_set)) (double_of_int (uint (bf_num_bits bf)))
      in pow p (double_of_int (uint (bf_num_hashes bf))))"

definition Bloom_Size :: "BloomFilter \<Rightarrow> nat" where
  "Bloom_Size bf = length (bf_bits bf) * 8"

definition Bloom_Write :: "BloomFilter \<Rightarrow> Buffer \<Rightarrow> Buffer" where
  "Bloom_Write bf out =
     Buffer_AppendArray (bf_bits bf)
       (Buffer_AppendValue (bf_num_hashes bf) (Buffer_AppendValue (bf_num_bits bf) out))"

definition Bloom_Read :: "byte list \<Rightarrow> BloomFilter res" where
  "Bloom_Read data =
     bind_res (read_word data 0) (\<lambda>num_bits.
     bind_res (read_word data 8) (\<lambda>num_hashes.
     bind_res (map_res (read_elem data 16) [0..<num_words num_bits]) (\<lambda>ws.
       Inr \<lparr>bf_bits = ws, bf_num_hashes = num_hashes, bf_num_bits = num_bits\<rparr>)))"

section \<open>The blocked filter\<close>

record BlockedBloomFilter =
  bb_blocks :: "BloomFilter list"
  bb_block_size :: u64
  bb_num_hashes :: u64
  bb_bits_per_block :: u64

definition Blocked_new :: "u64 \<Rightarrow> u64 \<Rightarrow> u64 \<Rightarrow> BlockedBloomFilter res" where
  "Blocked_new total_bits block_size num_hashes =
     (if block_size = 0 then Inl DivByZero
      else Inr \<lparr>bb_blocks = replicate (unat ((total_bits + block_size - 1) div block_size))
                  (BloomFilter_new total_bits num_hashes),
                bb_block_size = block_size, bb_num_hashes = num_hashes,
                bb_bits_per_block = total_bits\<rparr>)"

definition Blocked_Add :: "'a::len word \<Rightarrow> nat \<Rightarrow> BlockedBloomFilter \<Rightarrow> BlockedBloomFilter res" where
  "Blocked_Add value block_idx bb =
     (if block_idx < length (bb_blocks bb)
      then bind_res (Bloom_Add value (bb_blocks bb ! block_idx))
             (\<lambda>bf. Inr (bb\<lparr>bb_blocks := (bb_blocks bb)[block_idx := bf]\<rparr>))
      else Inr bb)"

definition Blocked_MightContain :: "'a::len word \<Rightarrow> nat \<Rightarrow> BlockedBloomFilter \<Rightarrow> bool res" where
  "Blocked_MightContain value block_idx bb =
     (if block_idx \<ge> length (bb_blocks bb) then Inr False
      else Bloom_MightContain value (bb_blocks bb ! block_idx))"

definition Blocked_MightContainBatch ::
  "'a::len word list \<Rightarrow> nat \<Rightarrow> BlockedBloomFilter \<Rightarrow> bool list res" where
  "Blocked_MightContainBatch values block_idx bb =
     (if block_idx \<ge> length (bb_blocks bb) then Inr (replicate (length values) False)
      else Bloom_MightContainBatch values (bb_blocks bb ! block_idx))"

section \<open>The invariant and the abstraction\<close>

definition Bloom_inv :: "BloomFilter \<Rightarrow> bool" where
  "Bloom_inv bf \<longleftrightarrow> bf_num_bits bf \<noteq> 0 \<and> unat (bf_num_bits bf) + 63 < 2 ^ 64 \<and>
     length (bf_bits bf) = num_words (bf_num_bits bf)"

definition bloom_abs :: "BloomFilter \<Rightarrow> nat set" where
  "bloom_abs bf = {k. pbit (bf_bits bf) k}"

definition probe :: "BloomFilter \<Rightarrow> u64 \<Rightarrow> nat \<Rightarrow> nat" where
  "probe bf val i = unat ((hash1 val + of_nat i * hash2 val) mod bf_num_bits bf)"

definition probes :: "BloomFilter \<Rightarrow> u64 \<Rightarrow> nat set" where
  "probes bf val = probe bf val ` {0..<unat (bf_num_hashes bf)}"

text \<open>Two filters of the same shape send a value to the same positions.\<close>

definition same_shape :: "BloomFilter \<Rightarrow> BloomFilter \<Rightarrow> bool" where
  "same_shape a b \<longleftrightarrow> bf_num_bits a = bf_num_bits b \<and> bf_num_hashes a = bf_num_hashes b \<and>
     length (bf_bits a) = length (bf_bits b)"

lemma same_shape_facts:
  assumes "same_shape a b"
  shows "probe a = probe b" and "probes a = probes b" and "Bloom_inv a \<longleftrightarrow> Bloom_inv b"
  using assms by (auto simp: same_shape_def probe_def probes_def Bloom_inv_def fun_eq_iff)

lemma same_shape_trans: "same_shape a b \<Longrightarrow> same_shape b c \<Longrightarrow> same_shape a c"
  and same_shape_refl [simp]: "same_shape a a"
  by (simp_all add: same_shape_def)

lemma num_words_unat:
  assumes "unat n + 63 < 2 ^ 64"
  shows "num_words n = (unat n + 63) div 64"
proof -
  have "unat (n + 63) = unat n + 63" using assms by (simp add: unat_add_lem [THEN iffD1])
  then show ?thesis by (simp add: num_words_def unat_div_distrib)
qed

lemma Bloom_inv_bound:
  assumes "Bloom_inv bf"
  shows "unat (h mod bf_num_bits bf) div 64 < length (bf_bits bf)"
proof -
  have "unat (h mod bf_num_bits bf) < unat (bf_num_bits bf)"
    using assms by (simp add: Bloom_inv_def unat_mod_distrib unat_gt_0)
  then show ?thesis
    using less_ceil [of 64 _ "unat (bf_num_bits bf)"] assms
    by (simp add: Bloom_inv_def num_words_unat)
qed

lemma Bloom_inv_new:
  "n \<noteq> 0 \<Longrightarrow> unat n + 63 < 2 ^ 64 \<Longrightarrow> Bloom_inv (BloomFilter_new n h)"
  and bloom_abs_new: "bloom_abs (BloomFilter_new n h) = {}"
  by (simp_all add: Bloom_inv_def BloomFilter_new_def bloom_abs_def pbit_def)

section \<open>Facts on adding and querying\<close>

lemma set_bit_at_abs:
  assumes "k div 64 < length (bf_bits bf)"
  shows "\<exists>bf'. set_bit_at k bf = Inr bf' \<and> same_shape bf' bf \<and> bloom_abs bf' = insert k (bloom_abs bf)"
proof -
  let ?ws = "(bf_bits bf)[k div 64 := bf_bits bf ! (k div 64) OR 2 ^ (k mod 64)]"
  have "bit (2 ^ (k mod 64) :: u64) (j mod 64) \<longleftrightarrow> j mod 64 = k mod 64" for j
    by (auto simp: bit_exp_iff)
  moreover have "j div 64 = k div 64 \<and> j mod 64 = k mod 64 \<longleftrightarrow> j = k" for j :: nat
    by (metis div_mult_mod_eq)
  ultimately have "pbit ?ws j \<longleftrightarrow> pbit (bf_bits bf) j \<or> j = k" for j
    using assms by (simp add: pbit_or_update)
  then have "{j. pbit ?ws j} = insert k (bloom_abs bf)" by (auto simp: bloom_abs_def)
  then show ?thesis
    using assms by (simp add: set_bit_at_def upd_res_def same_shape_def bloom_abs_def)
qed

lemma test_bit_at_abs:
  assumes "k div 64 < length (bf_bits bf)"
  shows "test_bit_at k bf = Inr (k \<in> bloom_abs bf)"
  using assms by (simp add: test_bit_at_def nth_res_def bloom_abs_def pbit_def and_exp_eq_0_iff_not_bit)

lemma add_hashes_fold:
  assumes "Bloom_inv bf"
  shows "\<exists>bf'. fold_res (\<lambda>i bf. bind_res (bit_index bf (hash1 val + of_nat i * hash2 val))
        (\<lambda>k. set_bit_at k bf)) is bf = Inr bf' \<and>
      same_shape bf' bf \<and> bloom_abs bf' = bloom_abs bf \<union> probe bf val ` set is"
  using assms
proof (induction "is" arbitrary: bf)
  case (Cons i "is")
  have "probe bf val i div 64 < length (bf_bits bf)"
    using Bloom_inv_bound [OF Cons.prems] by (simp add: probe_def)
  from set_bit_at_abs [OF this] obtain bf1 where s: "set_bit_at (probe bf val i) bf = Inr bf1"
    "same_shape bf1 bf" "bloom_abs bf1 = insert (probe bf val i) (bloom_abs bf)" by blast
  have "Bloom_inv bf1" using s(2) Cons.prems by (simp add: same_shape_facts)
  from Cons.IH [OF this] s Cons.prems show ?case
    by (auto simp: bit_index_def Bloom_inv_def same_shape_facts [OF s(2)]
        intro: same_shape_trans simp flip: probe_def)
qed simp

lemma add_hashes_abs:
  assumes "Bloom_inv bf"
  obtains bf' where "add_hashes val bf = Inr bf'" and "same_shape bf' bf" and "Bloom_inv bf'"
    and "bloom_abs bf' = bloom_abs bf \<union> probes bf val"
  using add_hashes_fold [OF assms, of val "[0..<unat (bf_num_hashes bf)]"] assms
  by (auto simp: add_hashes_def Let_def probes_def same_shape_facts)

lemma query_hashes_abs:
  assumes "Bloom_inv bf"
  shows "query_hashes (hash1 val) (hash2 val) bf is = Inr (probe bf val ` set is \<subseteq> bloom_abs bf)"
proof (induction "is")
  case (Cons i "is")
  have "probe bf val i div 64 < length (bf_bits bf)"
    using Bloom_inv_bound [OF assms] by (simp add: probe_def)
  then show ?case
    using Cons assms by (simp add: bit_index_def Bloom_inv_def test_bit_at_abs flip: probe_def)
qed simp

lemma might_contain_abs:
  assumes "Bloom_inv bf"
  shows "might_contain val bf = Inr (probes bf val \<subseteq> bloom_abs bf)"
  using query_hashes_abs [OF assms, of val "[0..<unat (bf_num_hashes bf)]"]
  by (simp add: might_contain_def probes_def)

lemma Bloom_AddBatch_abs:
  assumes "Bloom_inv bf"
  shows "\<exists>bf'. Bloom_AddBatch vs bf = Inr bf' \<and> same_shape bf' bf \<and> Bloom_inv bf' \<and>
    bloom_abs bf' = bloom_abs bf \<union> (\<Union>v \<in> set vs. probes bf (ucast v))"
  using assms
proof (induction vs arbitrary: bf)
  case Nil
  then show ?case by (simp add: Bloom_AddBatch_def)
next
  case (Cons v vs)
  obtain bf1 where b: "add_hashes (ucast v) bf = Inr bf1" "same_shape bf1 bf" "Bloom_inv bf1"
    "bloom_abs bf1 = bloom_abs bf \<union> probes bf (ucast v)"
    using add_hashes_abs [OF Cons.prems] by blast
  obtain bf2 where "Bloom_AddBatch vs bf1 = Inr bf2" "same_shape bf2 bf1" "Bloom_inv bf2"
    "bloom_abs bf2 = bloom_abs bf1 \<union> (\<Union>v \<in> set vs. probes bf1 (ucast v))"
    using Cons.IH [OF b(3)] by blast
  then show ?case
    using b by (auto simp: Bloom_AddBatch_def Bloom_Add_def same_shape_facts [OF b(2)]
        intro: same_shape_trans)
qed

text \<open>The filter is a block summary for equality.\<close>

definition bloom_covers :: "BloomFilter \<Rightarrow> 'a::len word set \<Rightarrow> bool" where
  "bloom_covers bf V \<longleftrightarrow> Bloom_inv bf \<and> (\<forall>v \<in> V. probes bf (ucast v) \<subseteq> bloom_abs bf)"

interpretation bloom: block_summary "\<lambda>bf c. Bloom_MightContain c bf = Inr True" bloom_covers "(=)"
  by unfold_locales (auto simp: bloom_covers_def Bloom_MightContain_def might_contain_abs)

lemma Bloom_AddBatch_covers:
  assumes "Bloom_inv bf" and "Bloom_AddBatch vs bf = Inr bf'"
  shows "bloom_covers bf' (set vs)"
  using Bloom_AddBatch_abs [OF assms(1), of vs] assms(2)
  by (auto simp: bloom_covers_def same_shape_facts)

section \<open>Facts on merging, counting and the serialised form\<close>

lemma Bloom_Merge_abs:
  assumes "same_shape bf other"
  obtains bf' where "Bloom_Merge other bf = Inr bf'" and "same_shape bf' bf"
    and "bloom_abs bf' = bloom_abs bf \<union> bloom_abs other"
proof -
  let ?f = "\<lambda>i. bf_bits bf ! i OR bf_bits other ! i" and ?n = "length (bf_bits bf)"
  have len: "length (bf_bits other) = ?n" using assms by (simp add: same_shape_def)
  have "Bloom_Merge other bf = Inr (bf\<lparr>bf_bits := map ?f [0..<?n]\<rparr>)"
    using assms map_res_Inr [of "[0..<?n]" "\<lambda>i. bind_res (nth_res (bf_bits other) i)
        (\<lambda>w. Inr (bf_bits bf ! i OR w))" ?f] len
    by (simp add: Bloom_Merge_def same_shape_def nth_res_def)
  moreover have "pbit (map ?f [0..<?n]) k \<longleftrightarrow> pbit (bf_bits bf) k \<or> pbit (bf_bits other) k" for k
    using len by (auto simp: pbit_def bit_or_iff)
  ultimately show ?thesis
    using that by (auto simp: same_shape_def bloom_abs_def)
qed

lemma Bloom_Merge_other_shape:
  "bf_num_bits bf \<noteq> bf_num_bits other \<or> bf_num_hashes bf \<noteq> bf_num_hashes other \<Longrightarrow>
     Bloom_Merge other bf = Inr bf"
  by (simp add: Bloom_Merge_def)

definition bloom_image :: "BloomFilter \<Rightarrow> byte list" where
  "bloom_image bf =
     bytes_of (bf_num_bits bf) @ bytes_of (bf_num_hashes bf) @ bytes_of_array (bf_bits bf)"

lemma Bloom_Write_contents:
  "Buffer_inv b \<Longrightarrow> Buffer_inv (Bloom_Write bf b) \<and>
     contents (Bloom_Write bf b) = contents b @ bloom_image bf"
  by (simp add: Bloom_Write_def bloom_image_def)

lemma Bloom_Read_image:
  assumes "length (bf_bits bf) = num_words (bf_num_bits bf)"
  shows "Bloom_Read (bloom_image bf @ rest) = Inr bf"
proof -
  let ?n = "bf_num_bits bf" and ?h = "bf_num_hashes bf" and ?ws = "bf_bits bf"
  let ?d = "bloom_image bf @ rest"
  have "read_word ?d 0 = Inr ?n"
    using read_word_append [of "[]" 0 ?n] by (simp add: bloom_image_def)
  moreover have "read_word ?d 8 = Inr ?h"
    using read_word_append [of "bytes_of ?n" 8 ?h] by (simp add: bloom_image_def)
  moreover have "map_res (read_elem ?d 16) [0..<num_words ?n] = Inr ?ws"
    using map_res_upt_nth [of ?ws "read_elem ?d 16"]
      read_elem_append [of "bytes_of ?n @ bytes_of ?h" 16 _ ?ws rest]
    by (simp add: bloom_image_def assms)
  ultimately show ?thesis by (simp add: Bloom_Read_def)
qed

lemma popcount_card: "popcount w = card {i. bit w i}"
proof -
  have "set (filter (bit w) [0..<LENGTH('a)]) = {i. bit (w :: 'a word) i}"
    by (auto dest: bit_imp_le_length)
  moreover have "distinct (filter (bit w) [0..<LENGTH('a)])" by simp
  ultimately show ?thesis unfolding popcount_def by (metis distinct_card)
qed

lemma popcount_le: "popcount (w :: 'a::len word) \<le> LENGTH('a)"
  unfolding popcount_def using length_filter_le [of "bit w" "[0..<LENGTH('a)]"] by simp

text \<open>\<^verbatim>\<open>BitsSet\<close> counts the positions of the abstraction.\<close>

lemma pbit_Cons: "{k. pbit (w # ws) k} = {k. bit (w :: u64) k} \<union> (+) 64 ` {k. pbit ws k}"
proof -
  have "pbit (w # ws) k \<longleftrightarrow> (if k < 64 then bit w k else pbit ws (k - 64))" for k
  proof (cases "k < 64")
    case False
    then obtain m where "k = m + 64" by (metis add.commute le_Suc_ex not_less)
    moreover have "(m + 64) div 64 = Suc (m div 64)" by simp
    ultimately show ?thesis by (simp add: pbit_def)
  qed (simp add: pbit_def)
  moreover have "\<not> bit w k" if "\<not> k < 64" for k using that by (auto dest: bit_imp_le_length)
  ultimately have "pbit (w # ws) k \<longleftrightarrow> bit w k \<or> (64 \<le> k \<and> pbit ws (k - 64))" for k
    by (cases "k < 64") auto
  then have "{k. pbit (w # ws) k} = {k. bit w k} \<union> {k. 64 \<le> k \<and> pbit ws (k - 64)}"
    by blast
  also have "{k. 64 \<le> k \<and> pbit ws (k - 64)} = (+) 64 ` {k. pbit ws k}"
  proof (intro equalityI subsetI)
    fix k assume "k \<in> {k. 64 \<le> k \<and> pbit ws (k - 64)}"
    then show "k \<in> (+) 64 ` {k. pbit ws k}" by (intro image_eqI [of _ _ "k - 64"]) simp_all
  qed auto
  finally show ?thesis .
qed

lemma finite_pbit [simp]: "finite {k. pbit (ws :: u64 list) k}"
proof (rule finite_subset)
  show "{k. pbit ws k} \<subseteq> {0..<length ws * 64}"
    by (auto simp: pbit_def div_less_iff_less_mult)
qed simp

lemma sum_popcount: "sum_list (map popcount ws) = card {k. pbit (ws :: u64 list) k}"
proof (induction ws)
  case Nil
  then show ?case by (simp add: pbit_def)
next
  case (Cons w ws)
  have "finite {k. bit w k}" by (rule finite_subset [of _ "{0..<64}"]) (auto dest: bit_imp_le_length)
  moreover have "{k. bit w k} \<inter> (+) 64 ` {k. pbit ws k} = {}" by (auto dest: bit_imp_le_length)
  ultimately show ?case
    using Cons by (simp add: pbit_Cons card_Un_disjoint card_image popcount_card)
qed

lemma Bloom_BitsSet_abs: "Bloom_BitsSet bf = card (bloom_abs bf)"
  by (simp add: Bloom_BitsSet_def bloom_abs_def sum_popcount)

section \<open>Properties\<close>

text \<open>C22: the filter has no false negatives: after a batch is added, every value of the batch and
  every value that was possibly contained before is reported, and adding never fails on a
  well-formed filter.\<close>

theorem bloom_no_false_negatives:
  fixes vs :: "'a::len word list" and w :: "'b::len word"
  assumes "Bloom_inv bf"
  shows "\<exists>bf'. Bloom_AddBatch vs bf = Inr bf' \<and> Bloom_inv bf' \<and>
    (\<forall>v \<in> set vs. Bloom_MightContain v bf' = Inr True) \<and>
    (Bloom_MightContain w bf = Inr True \<longrightarrow> Bloom_MightContain w bf' = Inr True)"
proof -
  obtain bf' where b: "Bloom_AddBatch vs bf = Inr bf'" "same_shape bf' bf" "Bloom_inv bf'"
    "bloom_abs bf' = bloom_abs bf \<union> (\<Union>v \<in> set vs. probes bf (ucast v))"
    using Bloom_AddBatch_abs [OF assms] by blast
  have "Bloom_MightContain v bf' = Inr True" if "v \<in> set vs" for v
    using bloom.sound [OF Bloom_AddBatch_covers [OF assms b(1)] that refl] .
  moreover have "Bloom_MightContain w bf' = Inr True" if "Bloom_MightContain w bf = Inr True"
    using that b(4) assms b(3)
    by (auto simp: Bloom_MightContain_def might_contain_abs same_shape_facts [OF b(2)])
  ultimately show ?thesis using b by blast
qed

theorem bloom_no_false_negatives_witness:
  "\<exists>bf'. Bloom_AddBatch [3, - 1 :: 64 word] (BloomFilter_new 65536 7) = Inr bf' \<and>
    Bloom_MightContain (- 1 :: 64 word) bf' = Inr True"
proof -
  have "Bloom_inv (BloomFilter_new 65536 7)" by (rule Bloom_inv_new) simp_all
  from bloom_no_false_negatives [OF this, of "[3, - 1 :: 64 word]" "0 :: 64 word"] show ?thesis by auto
qed

text \<open>C27: the operations refine sets of bit positions: adding unites the positions of the value,
  querying tests their inclusion, clearing leaves none, and counting the set bits gives the
  cardinality.\<close>

theorem bloom_refines_position_set:
  fixes v :: "'a::len word"
  assumes "Bloom_inv bf"
  shows "(\<exists>bf'. Bloom_Add v bf = Inr bf' \<and> bloom_abs bf' = bloom_abs bf \<union> probes bf (ucast v)) \<and>
    Bloom_MightContain v bf = Inr (probes bf (ucast v) \<subseteq> bloom_abs bf) \<and>
    bloom_abs (BloomFilter_Clear bf) = {} \<and> Bloom_BitsSet bf = card (bloom_abs bf)"
proof -
  have "bloom_abs (BloomFilter_Clear bf) = {}"
    by (simp add: bloom_abs_def BloomFilter_Clear_def pbit_def)
  moreover obtain bf' where "add_hashes (ucast v) bf = Inr bf'" "bloom_abs bf' = bloom_abs bf \<union> probes bf (ucast v)"
    using add_hashes_abs [OF assms] by blast
  ultimately show ?thesis
    by (simp add: Bloom_Add_def Bloom_MightContain_def might_contain_abs [OF assms] Bloom_BitsSet_abs)
qed

theorem bloom_refines_position_set_witness:
  "Bloom_MightContain (5 :: 32 word) (BloomFilter_new 128 3) =
    Inr (probes (BloomFilter_new 128 3) 5 \<subseteq> bloom_abs (BloomFilter_new 128 3))"
proof -
  have "Bloom_inv (BloomFilter_new 128 3)" by (rule Bloom_inv_new) simp_all
  from bloom_refines_position_set [OF this, of "5 :: 32 word"] show ?thesis by simp
qed

text \<open>Merging a filter of the same shape keeps everything either filter reports; a filter of
  another shape is ignored.\<close>

lemma bloom_merge_keeps:
  fixes v :: "'a::len word"
  assumes "Bloom_inv bf" and "Bloom_inv other" and "bf_num_bits bf = bf_num_bits other"
    and "bf_num_hashes bf = bf_num_hashes other"
    and "Bloom_MightContain v bf = Inr True \<or> Bloom_MightContain v other = Inr True"
  shows "\<exists>bf'. Bloom_Merge other bf = Inr bf' \<and> Bloom_inv bf' \<and> Bloom_MightContain v bf' = Inr True"
proof -
  have s: "same_shape bf other" using assms(1-4) by (simp add: same_shape_def Bloom_inv_def)
  from Bloom_Merge_abs [OF s] obtain bf' where m: "Bloom_Merge other bf = Inr bf'" "same_shape bf' bf"
    "bloom_abs bf' = bloom_abs bf \<union> bloom_abs other" by blast
  have "Bloom_inv bf'" using assms(1) same_shape_facts(3) [OF m(2)] by simp
  then show ?thesis
    using assms(1,2,5) m(1,3)
    by (auto simp: Bloom_MightContain_def might_contain_abs same_shape_facts(2) [OF m(2)]
        same_shape_facts(2) [OF s])
qed

text \<open>a filter written to a buffer is read back unchanged.\<close>

lemma bloom_round_trip:
  assumes "Bloom_inv bf" and "Buffer_inv b" and "contents b = []"
  shows "Bloom_Read (contents (Bloom_Write bf b) @ rest) = Inr bf"
  using Bloom_Read_image [of bf rest] Bloom_Write_contents [OF assms(2)] assms(1,3)
  by (simp add: Bloom_inv_def)

text \<open>The AVX-512 batch query derives its probes differently from the insertion, so it reports a
  value that was just added as absent, where the scalar query reports it as present.\<close>

lemma bloom_avx512_false_negative:
  "\<exists>bf. Bloom_AddBatch (replicate 8 1 :: 64 word list) (BloomFilter_new 64 1) = Inr bf \<and>
    Bloom_MightContainBatchAvx512 False (replicate 8 1) bf = Inr (replicate 8 True) \<and>
    Bloom_MightContainBatchAvx512 True (replicate 8 1) bf = Inr (replicate 8 False)"
proof (intro exI conjI)
  let ?bf = "\<lparr>bf_bits = [4294967296], bf_num_hashes = 1, bf_num_bits = 64\<rparr>"
  show "Bloom_AddBatch (replicate 8 1 :: 64 word list) (BloomFilter_new 64 1) = Inr ?bf" by code_simp
  show "Bloom_MightContainBatchAvx512 False (replicate 8 1) ?bf = Inr (replicate 8 True)" by code_simp
  show "Bloom_MightContainBatchAvx512 True (replicate 8 1) ?bf = Inr (replicate 8 False)" by code_simp
qed

end
