(* ===== verification/Segments.thy ===== *)
theory Segments
  imports Columns ZoneMaps BloomFilters
begin

text \<open>
  \<^verbatim>\<open>include/columnar/segment.h\<close>: the immutable file of a table fragment. A writer collects encoded
  columns, zone maps and Bloom filters and lays them out behind a header; a reader opens the file,
  decodes columns on demand and caches them; \<^verbatim>\<open>Segment\<close> is the handle the scanner and the merger use.
  Files are byte lists; \<^verbatim>\<open>ofstream\<close> and \<^verbatim>\<open>ifstream\<close> are a position (and a failure flag) over them.
  The header's records are written as the bytes of the C++ objects: the layout is the one of the
  x86-64 ABI, with padding written as zero bytes, which no reader looks at.
\<close>

section \<open>File streams\<close>

record OFile =
  of_bytes :: "byte list"
  of_pos :: nat

definition file_write :: "byte list \<Rightarrow> OFile \<Rightarrow> OFile" where
  "file_write bs f =
     f\<lparr>of_bytes := blit (of_bytes f) (of_pos f) bs, of_pos := of_pos f + length bs\<rparr>"

definition file_seekp :: "nat \<Rightarrow> OFile \<Rightarrow> OFile" where
  "file_seekp p f = f\<lparr>of_pos := p\<rparr>"

record IFile =
  if_bytes :: "byte list"
  if_pos :: nat
  if_fail :: bool

text \<open>A short read delivers what is there and sets the failure flag; on a failed stream seeking
  and reading do nothing.\<close>

definition file_seekg :: "nat \<Rightarrow> IFile \<Rightarrow> IFile" where
  "file_seekg p f = (if if_fail f then f else f\<lparr>if_pos := p\<rparr>)"

definition file_read :: "nat \<Rightarrow> IFile \<Rightarrow> byte list \<times> IFile" where
  "file_read n f =
     (if if_fail f then ([], f)
      else let got = take n (drop (if_pos f) (if_bytes f))
           in (got, f\<lparr>if_pos := if_pos f + length got, if_fail := length got < n\<rparr>))"

text \<open>Reading into memory that holds \<open>old\<close>.\<close>

definition read_over :: "byte list \<Rightarrow> IFile \<Rightarrow> byte list \<times> IFile" where
  "read_over old f =
     (case file_read (length old) f of (got, f') \<Rightarrow> (got @ drop (length got) old, f'))"

section \<open>The header and its image\<close>

record ColumnMeta =
  cm_offset :: u32
  cm_size :: u32
  cm_type :: DataType
  cm_encoding :: EncodingType
  cm_stats :: ColumnStats
  cm_zone_map_offset :: u32
  cm_zone_map_size :: u32
  cm_bloom_offset :: u32
  cm_bloom_size :: u32

record SegmentHeader =
  sh_magic :: u32
  sh_version :: u32
  sh_num_columns :: u32
  sh_num_rows :: u64
  sh_created_ts :: u64
  sh_checksum :: u64
  sh_columns :: "ColumnMeta list"

definition SegmentHeader_default :: SegmentHeader where
  "SegmentHeader_default =
     \<lparr>sh_magic = 0x434F4C53, sh_version = 1, sh_num_columns = 0, sh_num_rows = 0,
      sh_created_ts = 0, sh_checksum = 0, sh_columns = []\<rparr>"

definition ColumnMeta_default :: ColumnMeta where
  "ColumnMeta_default =
     \<lparr>cm_offset = 0, cm_size = 0, cm_type = Boolean, cm_encoding = Plain,
      cm_stats = ColumnStats_default, cm_zone_map_offset = 0, cm_zone_map_size = 0,
      cm_bloom_offset = 0, cm_bloom_size = 0\<rparr>"

fun byte_of_type :: "DataType \<Rightarrow> byte" where
  "byte_of_type Boolean = 0" | "byte_of_type Int32 = 1" | "byte_of_type Int64 = 2"
| "byte_of_type Float = 3" | "byte_of_type Double = 4" | "byte_of_type Varchar = 5"

definition type_of_byte :: "byte \<Rightarrow> DataType res" where
  "type_of_byte b =
     (if b = 0 then Inr Boolean else if b = 1 then Inr Int32 else if b = 2 then Inr Int64
      else if b = 3 then Inr Float else if b = 4 then Inr Double else if b = 5 then Inr Varchar
      else Inl Unmodelled)"

fun byte_of_encoding :: "EncodingType \<Rightarrow> byte" where
  "byte_of_encoding Plain = 0" | "byte_of_encoding Dictionary = 1" | "byte_of_encoding RLE = 2"
| "byte_of_encoding BitPack = 3" | "byte_of_encoding FOR = 4" | "byte_of_encoding ZSTD = 5"
| "byte_of_encoding LZ4 = 6" | "byte_of_encoding Delta = 7"

definition encoding_of_byte :: "byte \<Rightarrow> EncodingType res" where
  "encoding_of_byte b =
     (if b = 0 then Inr Plain else if b = 1 then Inr Dictionary else if b = 2 then Inr RLE
      else if b = 3 then Inr BitPack else if b = 4 then Inr FOR else if b = 5 then Inr ZSTD
      else if b = 6 then Inr LZ4 else if b = 7 then Inr Delta else Inl Unmodelled)"

definition bool_of_byte :: "byte \<Rightarrow> bool res" where
  "bool_of_byte b = (if b = 0 then Inr False else if b = 1 then Inr True else Inl Unmodelled)"

definition pad :: "nat \<Rightarrow> byte list" where
  "pad n = replicate n 0"

text \<open>\<^verbatim>\<open>ColumnStats\<close> takes 104 bytes, the two unused string views among them, \<^verbatim>\<open>ColumnMeta\<close> 136.\<close>

definition stats_bytes :: "ColumnStats \<Rightarrow> byte list" where
  "stats_bytes s =
     [byte_of_type (cs_type s)] @ pad 7 @ bytes_of (null_count s) @ bytes_of (distinct_count s) @
     bytes_of (total_count s) @ bytes_of (min_int s) @ bytes_of (max_int s) @ bytes_of (min_fp s) @
     bytes_of (max_fp s) @ pad 32 @ [byte_of_bool (has_min_max s)] @ pad 7"

definition meta_bytes :: "ColumnMeta \<Rightarrow> byte list" where
  "meta_bytes m =
     bytes_of (cm_offset m) @ bytes_of (cm_size m) @
     [byte_of_type (cm_type m), byte_of_encoding (cm_encoding m)] @ pad 6 @ stats_bytes (cm_stats m) @
     bytes_of (cm_zone_map_offset m) @ bytes_of (cm_zone_map_size m) @
     bytes_of (cm_bloom_offset m) @ bytes_of (cm_bloom_size m)"

definition sizeof_ColumnMeta :: nat where
  "sizeof_ColumnMeta = 136"

definition stats_of_bytes :: "byte list \<Rightarrow> ColumnStats res" where
  "stats_of_bytes bs =
     bind_res (nth_res bs 0) (\<lambda>t. bind_res (type_of_byte t) (\<lambda>type.
     bind_res (read_word bs 8) (\<lambda>nc. bind_res (read_word bs 16) (\<lambda>dc.
     bind_res (read_word bs 24) (\<lambda>tc. bind_res (read_word bs 32) (\<lambda>mn.
     bind_res (read_word bs 40) (\<lambda>mx. bind_res (read_word bs 48) (\<lambda>fmn.
     bind_res (read_word bs 56) (\<lambda>fmx. bind_res (nth_res bs 96) (\<lambda>h.
     bind_res (bool_of_byte h) (\<lambda>hmm.
       Inr \<lparr>cs_type = type, null_count = nc, distinct_count = dc, total_count = tc, min_int = mn,
            max_int = mx, min_fp = fmn, max_fp = fmx, has_min_max = hmm\<rparr>)))))))))))"

definition meta_of_bytes :: "byte list \<Rightarrow> ColumnMeta res" where
  "meta_of_bytes bs =
     bind_res (read_word bs 0) (\<lambda>offset. bind_res (read_word bs 4) (\<lambda>sz.
     bind_res (nth_res bs 8) (\<lambda>t. bind_res (type_of_byte t) (\<lambda>type.
     bind_res (nth_res bs 9) (\<lambda>e. bind_res (encoding_of_byte e) (\<lambda>enc.
     bind_res (stats_of_bytes (take 104 (drop 16 bs))) (\<lambda>stats.
     bind_res (read_word bs 120) (\<lambda>zo. bind_res (read_word bs 124) (\<lambda>zs.
     bind_res (read_word bs 128) (\<lambda>bo. bind_res (read_word bs 132) (\<lambda>bz.
       Inr \<lparr>cm_offset = offset, cm_size = sz, cm_type = type, cm_encoding = enc, cm_stats = stats,
            cm_zone_map_offset = zo, cm_zone_map_size = zs, cm_bloom_offset = bo,
            cm_bloom_size = bz\<rparr>)))))))))))"

definition header_bytes :: "SegmentHeader \<Rightarrow> byte list" where
  "header_bytes h =
     bytes_of (sh_magic h) @ bytes_of (sh_version h) @ bytes_of (sh_num_columns h) @
     bytes_of (sh_num_rows h) @ bytes_of (sh_created_ts h) @ bytes_of (sh_checksum h) @
     concat (map meta_bytes (sh_columns h))"

definition kFixedHeaderSize :: nat where
  "kFixedHeaderSize = 36"

section \<open>The writer\<close>

record SegmentWriter =
  sw_file :: OFile
  sw_header :: SegmentHeader
  sw_column_buffers :: "Buffer list"
  sw_zone_maps :: "ZoneMap list"
  sw_bloom_filters :: "BloomFilter list"
  sw_column_stats :: "ColumnStats list"
  sw_column_encodings :: "EncodingType list"
  sw_row_count :: nat
  sw_timestamp :: u64

text \<open>\<open>opened\<close> tells whether the file could be created. The timestamp member is still zero when
  the constructor copies it into the header.\<close>

definition SegmentWriter_new :: "bool \<Rightarrow> SegmentWriter res" where
  "SegmentWriter_new opened =
     (if opened
      then Inr \<lparr>sw_file = \<lparr>of_bytes = [], of_pos = 0\<rparr>, sw_header = SegmentHeader_default\<lparr>sh_created_ts := 0\<rparr>,
                sw_column_buffers = [], sw_zone_maps = [], sw_bloom_filters = [],
                sw_column_stats = [], sw_column_encodings = [], sw_row_count = 0, sw_timestamp = 0\<rparr>
      else Inl RuntimeError)"

definition Writer_SetTimestamp :: "u64 \<Rightarrow> SegmentWriter \<Rightarrow> SegmentWriter" where
  "Writer_SetTimestamp ts w = w\<lparr>sw_timestamp := ts\<rparr>"

definition of_modelled :: "'a res option \<Rightarrow> 'a res" where
  "of_modelled r = (case r of None \<Rightarrow> Inl Unmodelled | Some x \<Rightarrow> x)"

text \<open>What \<^verbatim>\<open>AddColumn\<close> uses of the value type: its order, its equality and its conversion to
  \<^verbatim>\<open>int64_t\<close>, which is undefined for floating-point values out of range.\<close>

record 'v Numeric =
  num_less :: "'v \<Rightarrow> 'v \<Rightarrow> bool"
  num_eq :: "'v \<Rightarrow> 'v \<Rightarrow> bool"
  num_int :: "'v \<Rightarrow> u64 res"

definition int_numeric :: "'a::len word Numeric" where
  "int_numeric = \<lparr>num_less = (<s), num_eq = (=), num_int = (\<lambda>v. Inr (scast v))\<rparr>"

definition float_numeric :: "u32 Numeric" where
  "float_numeric = \<lparr>num_less = fp_less, num_eq = fp_eq, num_int = int_of_float\<rparr>"

definition double_numeric :: "u64 Numeric" where
  "double_numeric = \<lparr>num_less = fp_less, num_eq = fp_eq, num_int = int_of_double\<rparr>"

text \<open>The elements of \<^verbatim>\<open>std::unordered_set\<close> built from the values.\<close>

definition distinct_values :: "('v \<Rightarrow> 'v \<Rightarrow> bool) \<Rightarrow> 'v list \<Rightarrow> 'v list" where
  "distinct_values eq vs = fold (\<lambda>v seen. if list_ex (\<lambda>u. eq u v) seen then seen else seen @ [v]) vs []"

text \<open>The bounds start from the first value, null or not; \<^verbatim>\<open>nulls[i]\<close> is read for the others.\<close>

definition AddColumn_bounds :: "'v Numeric \<Rightarrow> 'v list \<Rightarrow> bool list \<Rightarrow> ('v \<times> 'v) res" where
  "AddColumn_bounds N values nulls =
     fold_res (\<lambda>i (mn, mx). bind_res (nth_res nulls i) (\<lambda>null.
         Inr (if \<not> null then (if num_less N (values ! i) mn then values ! i else mn,
                              if num_less N mx (values ! i) then values ! i else mx) else (mn, mx))))
       [1..<length values] (values ! 0, values ! 0)"

definition AddColumn_stats :: "'v Numeric \<Rightarrow> DataType \<Rightarrow> 'v list \<Rightarrow> bool list \<Rightarrow> ColumnStats res" where
  "AddColumn_stats N T values nulls =
     (let s = ColumnStats_default\<lparr>cs_type := T, total_count := of_nat (length values),
                null_count := of_nat (length (filter id nulls)),
                distinct_count := of_nat (length (distinct_values (num_eq N) values))\<rparr>
      in if values = [] then Inr s
         else bind_res (AddColumn_bounds N values nulls) (\<lambda>(mn, mx).
              bind_res (num_int N mn) (\<lambda>lo. bind_res (num_int N mx) (\<lambda>hi.
                Inr (s\<lparr>has_min_max := True, min_int := lo, max_int := hi\<rparr>)))))"

definition AddColumn ::
  "'a::len word Numeric \<Rightarrow> DataType \<Rightarrow> 'a word list \<Rightarrow> bool list \<Rightarrow> EncodingType \<Rightarrow> SegmentWriter \<Rightarrow> SegmentWriter res" where
  "AddColumn N T values nulls encoding w =
     bind_res (of_modelled (Encoder_Encode (CreateEncoder encoding T) (bytes_of_array values)
                 (length values) Buffer_empty)) (\<lambda>buffer.
     bind_res (AddColumn_stats N T values nulls) (\<lambda>stats.
       Inr (w\<lparr>sw_column_stats := sw_column_stats w @ [ColumnStats_copy stats],
              sw_column_encodings := sw_column_encodings w @ [encoding],
              sw_column_buffers := sw_column_buffers w @ [buffer],
              sw_header := (sw_header w)\<lparr>sh_num_columns := sh_num_columns (sw_header w) + 1\<rparr>,
              sw_row_count := max (sw_row_count w) (length values)\<rparr>)))"

definition AddColumn_Int32 :: "u32 list \<Rightarrow> bool list \<Rightarrow> EncodingType \<Rightarrow> SegmentWriter \<Rightarrow> SegmentWriter res" where
  "AddColumn_Int32 = AddColumn int_numeric Int32"

definition AddColumn_Int64 :: "u64 list \<Rightarrow> bool list \<Rightarrow> EncodingType \<Rightarrow> SegmentWriter \<Rightarrow> SegmentWriter res" where
  "AddColumn_Int64 = AddColumn int_numeric Int64"

definition AddColumn_Float :: "u32 list \<Rightarrow> bool list \<Rightarrow> EncodingType \<Rightarrow> SegmentWriter \<Rightarrow> SegmentWriter res" where
  "AddColumn_Float = AddColumn float_numeric Float"

definition AddColumn_Double :: "u64 list \<Rightarrow> bool list \<Rightarrow> EncodingType \<Rightarrow> SegmentWriter \<Rightarrow> SegmentWriter res" where
  "AddColumn_Double = AddColumn double_numeric Double"

definition AddZoneMap :: "nat \<Rightarrow> ZoneMap \<Rightarrow> SegmentWriter \<Rightarrow> SegmentWriter" where
  "AddZoneMap col_idx zm w =
     (let zs = (if length (sw_zone_maps w) \<le> col_idx
                then resize (ZoneMap_new 65536) (col_idx + 1) (sw_zone_maps w) else sw_zone_maps w)
      in w\<lparr>sw_zone_maps := zs[col_idx := zm]\<rparr>)"

definition AddBloomFilter :: "nat \<Rightarrow> BloomFilter \<Rightarrow> SegmentWriter \<Rightarrow> SegmentWriter" where
  "AddBloomFilter col_idx bf w =
     (let bs = (if length (sw_bloom_filters w) \<le> col_idx
                then resize BloomFilter_default (col_idx + 1) (sw_bloom_filters w) else sw_bloom_filters w)
      in w\<lparr>sw_bloom_filters := bs[col_idx := bf]\<rparr>)"

text \<open>The three steps of the loop body of \<^verbatim>\<open>Finish\<close>: each extends the file and the record of the
  column.\<close>

definition Finish_data :: "SegmentWriter \<Rightarrow> nat \<Rightarrow> OFile \<times> ColumnMeta \<Rightarrow> OFile \<times> ColumnMeta" where
  "Finish_data w i p = (case p of (f, m) \<Rightarrow>
     (let buffer = sw_column_buffers w ! i;
          m1 = m\<lparr>cm_offset := of_nat (of_pos f), cm_size := of_nat (Buffer_Size buffer)\<rparr>
      in (file_write (take (unat (cm_size m1)) (contents buffer)) f, m1)))"

definition Finish_zone_map :: "SegmentWriter \<Rightarrow> nat \<Rightarrow> OFile \<times> ColumnMeta \<Rightarrow> OFile \<times> ColumnMeta" where
  "Finish_zone_map w i p = (case p of (f, m) \<Rightarrow>
     (if i < length (sw_zone_maps w) \<and> NumBlocks (sw_zone_maps w ! i) > 0
      then let zm_buf = ZoneMap_Write (sw_zone_maps w ! i) Buffer_empty
           in (file_write (contents zm_buf) f,
               m\<lparr>cm_zone_map_offset := of_nat (of_pos f), cm_zone_map_size := of_nat (Buffer_Size zm_buf)\<rparr>)
      else (f, m)))"

definition Finish_bloom :: "SegmentWriter \<Rightarrow> nat \<Rightarrow> OFile \<times> ColumnMeta \<Rightarrow> OFile \<times> ColumnMeta" where
  "Finish_bloom w i p = (case p of (f, m) \<Rightarrow>
     (if i < length (sw_bloom_filters w) \<and> Bloom_Size (sw_bloom_filters w ! i) > 0
      then let bf_buf = Bloom_Write (sw_bloom_filters w ! i) Buffer_empty
           in (file_write (contents bf_buf) f,
               m\<lparr>cm_bloom_offset := of_nat (of_pos f), cm_bloom_size := of_nat (Buffer_Size bf_buf)\<rparr>)
      else (f, m)))"

definition Finish_column :: "SegmentWriter \<Rightarrow> nat \<Rightarrow> OFile \<times> ColumnMeta list \<Rightarrow> OFile \<times> ColumnMeta list" where
  "Finish_column w i s = (case s of (f, ms) \<Rightarrow>
     (let m = ColumnMeta_default\<lparr>cm_type := cs_type (sw_column_stats w ! i),
                cm_encoding := sw_column_encodings w ! i,
                cm_stats := ColumnStats_assign ColumnStats_default (sw_column_stats w ! i)\<rparr>;
          (f', m') = Finish_bloom w i (Finish_zone_map w i (Finish_data w i (f, m)))
      in (f', ms @ [m'\<lparr>cm_stats := ColumnStats_copy (cm_stats m')\<rparr>])))"

text \<open>The bytes of the finished file and the header handed to the \<^verbatim>\<open>Segment\<close>.\<close>

definition Writer_Finish :: "SegmentWriter \<Rightarrow> byte list \<times> SegmentHeader" where
  "Writer_Finish w =
     (let h = (sw_header w)\<lparr>sh_num_rows := of_nat (sw_row_count w)\<rparr>;
          header_size = kFixedHeaderSize + unat (sh_num_columns h) * sizeof_ColumnMeta;
          f0 = file_write (replicate header_size 0) (sw_file w);
          (f1, ms) = fold (Finish_column w) [0..<length (sw_column_buffers w)] (f0, sh_columns h);
          h' = h\<lparr>sh_columns := ms\<rparr>;
          f2 = file_write (header_bytes h') (file_seekp 0 f1)
      in (of_bytes f2, h'))"

section \<open>The reader\<close>

record SegmentReader =
  sr_file :: IFile
  sr_header :: SegmentHeader
  sr_cached_columns :: "Column option list"

definition read_field :: "'a::len word \<Rightarrow> IFile \<Rightarrow> 'a word \<times> IFile" where
  "read_field old f = (case read_over (bytes_of old) f of (bs, f') \<Rightarrow> (word_of_bytes bs, f'))"

definition chunk :: "nat \<Rightarrow> byte list \<Rightarrow> nat \<Rightarrow> byte list" where
  "chunk n bs i = take n (drop (i * n) bs)"

definition ReadHeader :: "IFile \<Rightarrow> (SegmentHeader \<times> IFile) res" where
  "ReadHeader f =
     (let h = SegmentHeader_default;
          (magic, f) = read_field (sh_magic h) (file_seekg 0 f);
          (version, f) = read_field (sh_version h) f;
          (num_columns, f) = read_field (sh_num_columns h) f;
          (num_rows, f) = read_field (sh_num_rows h) f;
          (created_ts, f) = read_field (sh_created_ts h) f;
          (checksum, f) = read_field (sh_checksum h) f;
          n = unat num_columns;
          (bs, f) = read_over (concat (replicate n (meta_bytes ColumnMeta_default))) f
      in bind_res (map_res (\<lambda>i. meta_of_bytes (chunk sizeof_ColumnMeta bs i)) [0..<n]) (\<lambda>columns.
           Inr (\<lparr>sh_magic = magic, sh_version = version, sh_num_columns = num_columns,
                 sh_num_rows = num_rows, sh_created_ts = created_ts, sh_checksum = checksum,
                 sh_columns = columns\<rparr>, f)))"

text \<open>\<open>file\<close> is the content of the file, or \<open>None\<close> when it cannot be opened.\<close>

definition SegmentReader_new :: "byte list option \<Rightarrow> SegmentReader res" where
  "SegmentReader_new file =
     (case file of
        None \<Rightarrow> Inl RuntimeError
      | Some bs \<Rightarrow> bind_res (ReadHeader \<lparr>if_bytes = bs, if_pos = 0, if_fail = False\<rparr>) (\<lambda>(h, f).
          Inr \<lparr>sr_file = f, sr_header = h, sr_cached_columns = []\<rparr>))"

text \<open>Seek, then read into a zero-initialised vector.\<close>

definition read_block :: "u32 \<Rightarrow> u32 \<Rightarrow> SegmentReader \<Rightarrow> byte list \<times> SegmentReader" where
  "read_block offset sz r =
     (case read_over (replicate (unat sz) 0) (file_seekg (unat offset) (sr_file r)) of
        (bs, f) \<Rightarrow> (bs, r\<lparr>sr_file := f\<rparr>))"

definition decode_column :: "ColumnMeta \<Rightarrow> byte list \<Rightarrow> Column res" where
  "decode_column m encoded_data =
     (case ColumnFactory_Create (cm_type m) 0 of
        None \<Rightarrow> Inl NullDeref
      | Some column \<Rightarrow>
          of_modelled (Column_Decode (CreateDecoder (cm_encoding m) (cm_type m)) encoded_data column))"

definition Reader_GetColumn :: "nat \<Rightarrow> SegmentReader \<Rightarrow> (Column \<times> SegmentReader) res" where
  "Reader_GetColumn idx r =
     (case (if idx < length (sr_cached_columns r) then sr_cached_columns r ! idx else None) of
        Some c \<Rightarrow> Inr (c, r)
      | None \<Rightarrow>
          (let cached = (if length (sr_cached_columns r) \<le> idx
                         then resize None (idx + 1) (sr_cached_columns r) else sr_cached_columns r)
           in bind_res (nth_res (sh_columns (sr_header r)) idx) (\<lambda>m.
              case read_block (cm_offset m) (cm_size m) r of (encoded_data, r1) \<Rightarrow>
                bind_res (decode_column m encoded_data) (\<lambda>column.
                  Inr (column, r1\<lparr>sr_cached_columns := cached[idx := Some column]\<rparr>)))))"

definition Reader_GetZoneMap :: "nat \<Rightarrow> SegmentReader \<Rightarrow> (ZoneMap \<times> SegmentReader) res" where
  "Reader_GetZoneMap idx r =
     bind_res (nth_res (sh_columns (sr_header r)) idx) (\<lambda>m.
       if cm_zone_map_size m = 0 then Inr (ZoneMap_new 65536, r)
       else case read_block (cm_zone_map_offset m) (cm_zone_map_size m) r of (data, r1) \<Rightarrow>
              bind_res (ZoneMap_Read data) (\<lambda>zm. Inr (zm, r1)))"

definition Reader_GetBloomFilter :: "nat \<Rightarrow> SegmentReader \<Rightarrow> (BloomFilter \<times> SegmentReader) res" where
  "Reader_GetBloomFilter idx r =
     bind_res (nth_res (sh_columns (sr_header r)) idx) (\<lambda>m.
       if cm_bloom_size m = 0 then Inr (BloomFilter_default, r)
       else case read_block (cm_bloom_offset m) (cm_bloom_size m) r of (data, r1) \<Rightarrow>
              bind_res (Bloom_Read data) (\<lambda>bf. Inr (bf, r1)))"

section \<open>The segment handle\<close>

text \<open>The handle has a column cache of its own, which nothing ever fills.\<close>

record Segment =
  sg_header :: SegmentHeader
  sg_reader :: SegmentReader
  sg_column_cache :: "Column option list"

definition header_copy :: "SegmentHeader \<Rightarrow> SegmentHeader" where
  "header_copy h =
     h\<lparr>sh_columns := map (\<lambda>m. m\<lparr>cm_stats := ColumnStats_copy (cm_stats m)\<rparr>) (sh_columns h)\<rparr>"

definition Segment_new :: "byte list option \<Rightarrow> SegmentHeader \<Rightarrow> Segment res" where
  "Segment_new file header =
     bind_res (SegmentReader_new file) (\<lambda>r.
       Inr \<lparr>sg_header = header_copy header, sg_reader = r,
            sg_column_cache = replicate (unat (sh_num_columns header)) None\<rparr>)"

definition Segment_Open :: "byte list option \<Rightarrow> Segment res" where
  "Segment_Open file = bind_res (SegmentReader_new file) (\<lambda>r. Segment_new file (sr_header r))"

definition Segment_NumRows :: "Segment \<Rightarrow> u64" where
  "Segment_NumRows s = sh_num_rows (sg_header s)"

definition Segment_NumColumns :: "Segment \<Rightarrow> u32" where
  "Segment_NumColumns s = sh_num_columns (sg_header s)"

definition Segment_ColumnType :: "Segment \<Rightarrow> nat \<Rightarrow> DataType res" where
  "Segment_ColumnType s idx = bind_res (nth_res (sh_columns (sg_header s)) idx) (\<lambda>m. Inr (cm_type m))"

definition Segment_ColumnEncoding :: "Segment \<Rightarrow> nat \<Rightarrow> EncodingType res" where
  "Segment_ColumnEncoding s idx =
     bind_res (nth_res (sh_columns (sg_header s)) idx) (\<lambda>m. Inr (cm_encoding m))"

definition Segment_GetColumnStats :: "Segment \<Rightarrow> nat \<Rightarrow> ColumnStats res" where
  "Segment_GetColumnStats s idx =
     bind_res (nth_res (sh_columns (sg_header s)) idx) (\<lambda>m. Inr (cm_stats m))"

definition Segment_GetColumn :: "nat \<Rightarrow> Segment \<Rightarrow> (Column \<times> Segment) res" where
  "Segment_GetColumn idx s =
     (case (if idx < length (sg_column_cache s) then sg_column_cache s ! idx else None) of
        Some c \<Rightarrow> Inr (c, s)
      | None \<Rightarrow> bind_res (Reader_GetColumn idx (sg_reader s)) (\<lambda>(c, r). Inr (c, s\<lparr>sg_reader := r\<rparr>)))"

definition Segment_GetZoneMap :: "nat \<Rightarrow> Segment \<Rightarrow> (ZoneMap \<times> Segment) res" where
  "Segment_GetZoneMap idx s =
     bind_res (Reader_GetZoneMap idx (sg_reader s)) (\<lambda>(z, r). Inr (z, s\<lparr>sg_reader := r\<rparr>))"

definition Segment_GetBloomFilter :: "nat \<Rightarrow> Segment \<Rightarrow> (BloomFilter \<times> Segment) res" where
  "Segment_GetBloomFilter idx s =
     bind_res (Reader_GetBloomFilter idx (sg_reader s)) (\<lambda>(b, r). Inr (b, s\<lparr>sg_reader := r\<rparr>))"

definition Segment_GetDecoder :: "Segment \<Rightarrow> nat \<Rightarrow> Decoder res" where
  "Segment_GetDecoder s idx =
     bind_res (nth_res (sh_columns (sg_header s)) idx) (\<lambda>m. Inr (CreateDecoder (cm_encoding m) (cm_type m)))"

text \<open>The prefetch threads each load one column under the lock, in some order: \<open>cols\<close> is that order.\<close>

definition Segment_PrefetchColumns :: "nat list \<Rightarrow> Segment \<Rightarrow> Segment res" where
  "Segment_PrefetchColumns cols s =
     fold_res (\<lambda>c s. bind_res (Segment_GetColumn c s) (\<lambda>(_, s'). Inr s')) cols s"

text \<open>\<^verbatim>\<open>GetColumnData\<close> casts the column to the type the handle's header names.\<close>

definition Segment_GetColumnData :: "nat \<Rightarrow> nat \<Rightarrow> nat \<Rightarrow> Segment \<Rightarrow> (byte list \<times> Segment) res" where
  "Segment_GetColumnData col offset count s =
     bind_res (Segment_ColumnType s col) (\<lambda>type.
     bind_res (Segment_GetColumn col s) (\<lambda>(column, s').
       if IsNumeric type
       then if Column_Type column = type
            then bind_res (Column_ReadValues offset count column) (\<lambda>bs. Inr (bs, s'))
            else Inl Unmodelled
       else Inr (replicate (count * TypeSize type) 0, s')))"

text \<open>\<^verbatim>\<open>Finish\<close> closes the file and opens a handle on it with the writer's header.\<close>

definition Finish_segment :: "SegmentWriter \<Rightarrow> Segment res" where
  "Finish_segment w = (case Writer_Finish w of (fbytes, h) \<Rightarrow> Segment_new (Some fbytes) h)"

text \<open>The destructor finishes a file that is still open; the handle is dropped.\<close>

definition SegmentWriter_destroy :: "bool \<Rightarrow> SegmentWriter \<Rightarrow> byte list" where
  "SegmentWriter_destroy is_open w = (if is_open then fst (Writer_Finish w) else of_bytes (sw_file w))"

definition Segment_Create :: "bool \<Rightarrow> u64 \<Rightarrow> Segment res" where
  "Segment_Create opened timestamp =
     bind_res (SegmentWriter_new opened) (\<lambda>w. Finish_segment (Writer_SetTimestamp timestamp w))"

section \<open>Facts on the header image\<close>

lemma type_of_byte_of [simp]: "type_of_byte (byte_of_type t) = Inr t"
  by (cases t) (simp_all add: type_of_byte_def)

lemma encoding_of_byte_of [simp]: "encoding_of_byte (byte_of_encoding e) = Inr e"
  by (cases e) (simp_all add: encoding_of_byte_def)

lemma bool_of_byte_of [simp]: "bool_of_byte (byte_of_bool b) = Inr b"
  by (cases b) (simp_all add: bool_of_byte_def byte_of_bool_def)

lemma length_pad [simp]: "length (pad n) = n"
  by (simp add: pad_def)

lemma length_stats_bytes [simp]: "length (stats_bytes s) = 104"
  by (simp add: stats_bytes_def)

lemma length_meta_bytes [simp]: "length (meta_bytes m) = 136"
  by (simp add: meta_bytes_def)

lemma stats_of_bytes_of [simp]: "stats_of_bytes (stats_bytes s) = Inr s"
  by (simp add: stats_of_bytes_def stats_bytes_def image_reads)

lemma meta_of_bytes_of [simp]: "meta_of_bytes (meta_bytes m) = Inr m"
proof -
  have "take 104 (drop 16 (meta_bytes m)) = stats_bytes (cm_stats m)"
    by (simp add: meta_bytes_def numeral_eq_Suc [symmetric])
  then show ?thesis
    by (simp add: meta_of_bytes_def) (simp add: meta_bytes_def image_reads)
qed

lemma length_metas [simp]: "length (concat (map meta_bytes ms)) = length ms * 136"
  by (induction ms) simp_all

lemma chunk_metas:
  "i < length ms \<Longrightarrow> chunk 136 (concat (map meta_bytes ms)) i = meta_bytes (ms ! i)"
proof (induction ms arbitrary: i)
  case Nil
  then show ?case by simp
next
  case (Cons m ms)
  then show ?case by (cases i) (simp_all add: chunk_def)
qed

lemma length_header_bytes: "length (header_bytes h) = 36 + length (sh_columns h) * 136"
  by (simp add: header_bytes_def)

section \<open>Facts on streams\<close>

definition remaining :: "IFile \<Rightarrow> byte list" where
  "remaining f = drop (if_pos f) (if_bytes f)"

definition advance :: "nat \<Rightarrow> IFile \<Rightarrow> IFile" where
  "advance n f = f\<lparr>if_pos := if_pos f + n\<rparr>"

lemma advance_sel [simp]: "if_bytes (advance n f) = if_bytes f" "if_fail (advance n f) = if_fail f"
  by (simp_all add: advance_def)

lemma remaining_advance: "remaining f = bs @ rest \<Longrightarrow> remaining (advance (length bs) f) = rest"
proof -
  assume "remaining f = bs @ rest"
  then have "drop (length bs) (remaining f) = rest" by simp
  then show ?thesis by (simp add: remaining_def advance_def add.commute)
qed

lemma read_over_exact:
  assumes "\<not> if_fail f" and "remaining f = bs @ rest" and "length bs = length old"
  shows "read_over old f = (bs, advance (length old) f)"
proof -
  have "take (length old) (drop (if_pos f) (if_bytes f)) = bs"
    using assms(2,3) by (simp add: remaining_def)
  then show ?thesis using assms(1,3) by (simp add: read_over_def file_read_def advance_def Let_def)
qed

lemma read_field_exact:
  fixes w old :: "'a::len word"
  assumes "8 dvd LENGTH('a)" and "\<not> if_fail f" and "remaining f = bytes_of w @ rest"
  shows "read_field old f = (w, advance (sizeof TYPE('a)) f)"
    and "remaining (advance (sizeof TYPE('a)) f) = rest"
  using read_over_exact [OF assms(2,3), of "bytes_of old"] remaining_advance [OF assms(3)] assms(1)
  by (simp_all add: read_field_def)

lemma ReadHeader_image:
  assumes "length (sh_columns h) = unat (sh_num_columns h)"
  shows "\<exists>f. ReadHeader \<lparr>if_bytes = header_bytes h @ rest, if_pos = 0, if_fail = False\<rparr> = Inr (h, f) \<and>
    \<not> if_fail f \<and> if_bytes f = header_bytes h @ rest"
proof -
  let ?f0 = "\<lparr>if_bytes = header_bytes h @ rest, if_pos = 0, if_fail = False\<rparr>"
  let ?ms = "concat (map meta_bytes (sh_columns h))" and ?n = "unat (sh_num_columns h)"
  define f1 where "f1 = advance 4 ?f0"
  define f2 where "f2 = advance 4 f1"
  define f3 where "f3 = advance 4 f2"
  define f4 where "f4 = advance 8 f3"
  define f5 where "f5 = advance 8 f4"
  define f6 where "f6 = advance 8 f5"
  note fs = f1_def f2_def f3_def f4_def f5_def f6_def
  have r0: "remaining ?f0 = bytes_of (sh_magic h) @ bytes_of (sh_version h) @ bytes_of (sh_num_columns h) @
      bytes_of (sh_num_rows h) @ bytes_of (sh_created_ts h) @ bytes_of (sh_checksum h) @ ?ms @ rest"
    by (simp add: remaining_def header_bytes_def)
  have 0: "\<not> if_fail ?f0" "\<not> if_fail f1" "\<not> if_fail f2" "\<not> if_fail f3" "\<not> if_fail f4" "\<not> if_fail f5"
    "\<not> if_fail f6" by (simp_all add: fs)
  have 1: "read_field old ?f0 = (sh_magic h, f1)" "remaining f1 = bytes_of (sh_version h) @
      bytes_of (sh_num_columns h) @ bytes_of (sh_num_rows h) @ bytes_of (sh_created_ts h) @
      bytes_of (sh_checksum h) @ ?ms @ rest" for old
    using read_field_exact [OF _ 0(1) r0] by (simp_all add: f1_def)
  have 2: "read_field old f1 = (sh_version h, f2)" "remaining f2 = bytes_of (sh_num_columns h) @
      bytes_of (sh_num_rows h) @ bytes_of (sh_created_ts h) @ bytes_of (sh_checksum h) @ ?ms @ rest" for old
    using read_field_exact [OF _ 0(2) 1(2)] by (simp_all add: f2_def)
  have 3: "read_field old f2 = (sh_num_columns h, f3)" "remaining f3 = bytes_of (sh_num_rows h) @
      bytes_of (sh_created_ts h) @ bytes_of (sh_checksum h) @ ?ms @ rest" for old
    using read_field_exact [OF _ 0(3) 2(2)] by (simp_all add: f3_def)
  have 4: "read_field old f3 = (sh_num_rows h, f4)" "remaining f4 = bytes_of (sh_created_ts h) @
      bytes_of (sh_checksum h) @ ?ms @ rest" for old
    using read_field_exact [OF _ 0(4) 3(2)] by (simp_all add: f4_def)
  have 5: "read_field old f4 = (sh_created_ts h, f5)" "remaining f5 = bytes_of (sh_checksum h) @ ?ms @ rest" for old
    using read_field_exact [OF _ 0(5) 4(2)] by (simp_all add: f5_def)
  have 6: "read_field old f5 = (sh_checksum h, f6)" "remaining f6 = ?ms @ rest" for old
    using read_field_exact [OF _ 0(6) 5(2)] by (simp_all add: f6_def)
  have len: "length (concat (replicate ?n (meta_bytes ColumnMeta_default))) = ?n * 136"
    using length_metas [of "replicate ?n ColumnMeta_default"] by simp
  have 7: "read_over (concat (replicate ?n (meta_bytes ColumnMeta_default))) f6 = (?ms, advance (?n * 136) f6)"
    using read_over_exact [OF 0(7) 6(2), of "concat (replicate ?n (meta_bytes ColumnMeta_default))"] assms
    unfolding len by simp
  have 8: "map_res (\<lambda>i. meta_of_bytes (chunk sizeof_ColumnMeta ?ms i)) [0..<?n] = Inr (sh_columns h)"
    unfolding assms [symmetric] by (rule map_res_upt_nth) (simp add: sizeof_ColumnMeta_def chunk_metas)
  have "file_seekg 0 ?f0 = ?f0" by (simp add: file_seekg_def)
  then have "ReadHeader ?f0 = Inr (h, advance (?n * 136) f6)"
    by (simp add: ReadHeader_def Let_def 1(1) 2(1) 3(1) 4(1) 5(1) 6(1) 7 8)
  moreover have "if_bytes (advance (?n * 136) f6) = header_bytes h @ rest" by (simp add: fs)
  ultimately show ?thesis using 0(7) by auto
qed

lemma read_block_exact:
  assumes "\<not> if_fail (sr_file r)" and "unat offset + unat sz \<le> length (if_bytes (sr_file r))"
  shows "\<exists>r'. read_block offset sz r = (take (unat sz) (drop (unat offset) (if_bytes (sr_file r))), r') \<and>
    \<not> if_fail (sr_file r') \<and> if_bytes (sr_file r') = if_bytes (sr_file r) \<and> sr_header r' = sr_header r \<and>
    sr_cached_columns r' = sr_cached_columns r"
proof -
  let ?f = "file_seekg (unat offset) (sr_file r)" and ?bs = "if_bytes (sr_file r)"
  have f: "\<not> if_fail ?f" "if_bytes ?f = ?bs" "remaining ?f = drop (unat offset) ?bs"
    using assms(1) by (simp_all add: file_seekg_def remaining_def)
  have "remaining ?f = take (unat sz) (drop (unat offset) ?bs) @ drop (unat sz) (drop (unat offset) ?bs)"
    unfolding f(3) by (rule append_take_drop_id [symmetric])
  from read_over_exact [OF f(1) this, of "replicate (unat sz) 0"] assms(2)
  have "read_over (replicate (unat sz) 0) ?f = (take (unat sz) (drop (unat offset) ?bs), advance (unat sz) ?f)"
    by simp
  then show ?thesis using f by (simp add: read_block_def)
qed

section \<open>The layout of a finished file\<close>

definition zone_map_block :: "SegmentWriter \<Rightarrow> nat \<Rightarrow> byte list" where
  "zone_map_block w i =
     (if i < length (sw_zone_maps w) \<and> NumBlocks (sw_zone_maps w ! i) > 0
      then zone_map_image (sw_zone_maps w ! i) else [])"

definition bloom_block :: "SegmentWriter \<Rightarrow> nat \<Rightarrow> byte list" where
  "bloom_block w i =
     (if i < length (sw_bloom_filters w) \<and> Bloom_Size (sw_bloom_filters w ! i) > 0
      then bloom_image (sw_bloom_filters w ! i) else [])"

definition data_block :: "SegmentWriter \<Rightarrow> nat \<Rightarrow> byte list" where
  "data_block w i = contents (sw_column_buffers w ! i)"

definition piece :: "SegmentWriter \<Rightarrow> nat \<Rightarrow> byte list" where
  "piece w i = data_block w i @ zone_map_block w i @ bloom_block w i"

text \<open>The record of column \<open>i\<close> when its data starts at position \<open>p\<close>.\<close>

definition meta_at :: "SegmentWriter \<Rightarrow> nat \<Rightarrow> nat \<Rightarrow> ColumnMeta" where
  "meta_at w i p =
     \<lparr>cm_offset = of_nat p, cm_size = of_nat (length (data_block w i)),
      cm_type = cs_type (sw_column_stats w ! i), cm_encoding = sw_column_encodings w ! i,
      cm_stats = ColumnStats_copy (ColumnStats_assign ColumnStats_default (sw_column_stats w ! i)),
      cm_zone_map_offset = (if zone_map_block w i = [] then 0 else of_nat (p + length (data_block w i))),
      cm_zone_map_size = of_nat (length (zone_map_block w i)),
      cm_bloom_offset = (if bloom_block w i = [] then 0
         else of_nat (p + length (data_block w i) + length (zone_map_block w i))),
      cm_bloom_size = of_nat (length (bloom_block w i))\<rparr>"

definition file_at_end :: "byte list \<Rightarrow> OFile" where
  "file_at_end bs = \<lparr>of_bytes = bs, of_pos = length bs\<rparr>"

lemma write_at_end [simp]: "file_write bs (file_at_end pre) = file_at_end (pre @ bs)"
  by (simp add: file_write_def file_at_end_def blit_def)

lemma pos_at_end [simp]: "of_pos (file_at_end bs) = length bs"
  by (simp add: file_at_end_def)

lemma index_images_nonempty [simp]: "zone_map_image zm \<noteq> []" "bloom_image bf \<noteq> []"
  by (simp_all add: zone_map_image_def bloom_image_def bytes_of_def)

lemma index_buffers:
  "contents (ZoneMap_Write zm Buffer_empty) = zone_map_image zm"
  "Buffer_Size (ZoneMap_Write zm Buffer_empty) = length (zone_map_image zm)"
  "contents (Bloom_Write bf Buffer_empty) = bloom_image bf"
  "Buffer_Size (Bloom_Write bf Buffer_empty) = length (bloom_image bf)"
  using ZoneMap_Write_contents [of Buffer_empty zm] Bloom_Write_contents [of Buffer_empty bf]
    size_contents [of "ZoneMap_Write zm Buffer_empty"] size_contents [of "Bloom_Write bf Buffer_empty"]
  by simp_all

lemma Finish_data_at_end:
  assumes "Buffer_inv (sw_column_buffers w ! i)" and "length (data_block w i) < 2 ^ 32"
  shows "Finish_data w i (file_at_end pre, m) = (file_at_end (pre @ data_block w i),
    m\<lparr>cm_offset := of_nat (length pre), cm_size := of_nat (length (data_block w i))\<rparr>)"
proof -
  have "Buffer_Size (sw_column_buffers w ! i) = length (data_block w i)"
    using size_contents [OF assms(1)] by (simp add: data_block_def)
  moreover have "unat (of_nat (length (data_block w i)) :: u32) = length (data_block w i)"
    using assms(2) by (simp add: unat_of_nat)
  ultimately show ?thesis by (simp add: Finish_data_def Let_def flip: data_block_def)
qed

lemma Finish_zone_map_at_end:
  assumes "cm_zone_map_offset m = 0" and "cm_zone_map_size m = 0"
  shows "Finish_zone_map w i (file_at_end pre, m) = (file_at_end (pre @ zone_map_block w i),
    m\<lparr>cm_zone_map_offset := (if zone_map_block w i = [] then 0 else of_nat (length pre)),
      cm_zone_map_size := of_nat (length (zone_map_block w i))\<rparr>)"
  using assms by (simp add: Finish_zone_map_def zone_map_block_def index_buffers Let_def)

lemma Finish_bloom_at_end:
  assumes "cm_bloom_offset m = 0" and "cm_bloom_size m = 0"
  shows "Finish_bloom w i (file_at_end pre, m) = (file_at_end (pre @ bloom_block w i),
    m\<lparr>cm_bloom_offset := (if bloom_block w i = [] then 0 else of_nat (length pre)),
      cm_bloom_size := of_nat (length (bloom_block w i))\<rparr>)"
  using assms by (simp add: Finish_bloom_def bloom_block_def index_buffers Let_def)

lemma Finish_column_at_end:
  assumes "Buffer_inv (sw_column_buffers w ! i)" and "length (data_block w i) < 2 ^ 32"
  shows "Finish_column w i (file_at_end pre, ms) =
    (file_at_end (pre @ piece w i), ms @ [meta_at w i (length pre)])"
  by (simp add: Finish_column_def Finish_data_at_end [OF assms] Finish_zone_map_at_end Finish_bloom_at_end
      ColumnMeta_default_def meta_at_def piece_def add.assoc del: of_nat_add)

definition header_size :: "SegmentWriter \<Rightarrow> nat" where
  "header_size w = 36 + unat (sh_num_columns (sw_header w)) * 136"

definition start :: "SegmentWriter \<Rightarrow> nat \<Rightarrow> nat" where
  "start w i = header_size w + length (concat (map (piece w) [0..<i]))"

definition writer_ok :: "SegmentWriter \<Rightarrow> bool" where
  "writer_ok w \<longleftrightarrow> sw_file w = file_at_end [] \<and> sh_columns (sw_header w) = [] \<and>
     length (sw_column_buffers w) = unat (sh_num_columns (sw_header w)) \<and>
     length (sw_column_stats w) = length (sw_column_buffers w) \<and>
     length (sw_column_encodings w) = length (sw_column_buffers w) \<and>
     (\<forall>b \<in> set (sw_column_buffers w). Buffer_inv b)"

lemma start_Suc: "start w (Suc i) = start w i + length (piece w i)"
  by (simp add: start_def)

lemma start_mono: "i \<le> j \<Longrightarrow> start w i \<le> start w j"
  by (rule lift_Suc_mono_le) (simp_all add: start_Suc)

lemma Finish_columns:
  assumes "writer_ok w" and "start w (length (sw_column_buffers w)) < 2 ^ 32"
    and "k \<le> length (sw_column_buffers w)"
  shows "fold (Finish_column w) [0..<k] (file_at_end (replicate (header_size w) 0), []) =
    (file_at_end (replicate (header_size w) 0 @ concat (map (piece w) [0..<k])),
     map (\<lambda>i. meta_at w i (start w i)) [0..<k])"
  using assms(3)
proof (induction k)
  case 0
  then show ?case by simp
next
  case (Suc k)
  have "start w (Suc k) < 2 ^ 32" using start_mono [OF Suc.prems, of w] assms(2) by linarith
  then have "length (data_block w k) < 2 ^ 32" by (simp add: start_Suc piece_def)
  moreover have "Buffer_inv (sw_column_buffers w ! k)" using assms(1) Suc.prems by (simp add: writer_ok_def)
  ultimately show ?case using Suc by (simp add: Finish_column_at_end start_def add.commute)
qed

definition final_header :: "SegmentWriter \<Rightarrow> SegmentHeader" where
  "final_header w = (sw_header w)\<lparr>sh_num_rows := of_nat (sw_row_count w),
     sh_columns := map (\<lambda>i. meta_at w i (start w i)) [0..<length (sw_column_buffers w)]\<rparr>"

lemma Writer_Finish_layout:
  assumes "writer_ok w" and "start w (length (sw_column_buffers w)) < 2 ^ 32"
  shows "Writer_Finish w =
    (header_bytes (final_header w) @ concat (map (piece w) [0..<length (sw_column_buffers w)]), final_header w)"
proof -
  let ?n = "length (sw_column_buffers w)" and ?hs = "header_size w"
  have hs: "kFixedHeaderSize + unat (sh_num_columns (sw_header w)) * sizeof_ColumnMeta = ?hs"
    by (simp add: kFixedHeaderSize_def sizeof_ColumnMeta_def header_size_def)
  have len: "length (header_bytes (final_header w)) = ?hs"
    using assms(1) by (simp add: length_header_bytes final_header_def header_size_def writer_ok_def)
  have f: "sw_file w = file_at_end []" "sh_columns (sw_header w) = []"
    using assms(1) by (simp_all add: writer_ok_def)
  have "file_write (header_bytes (final_header w))
      (file_seekp 0 (file_at_end (replicate ?hs 0 @ concat (map (piece w) [0..<?n])))) =
      \<lparr>of_bytes = header_bytes (final_header w) @ concat (map (piece w) [0..<?n]), of_pos = ?hs\<rparr>"
    by (simp add: file_write_def file_seekp_def file_at_end_def blit_def len)
  then show ?thesis
    using Finish_columns [OF assms le_refl] f hs
    by (simp add: Writer_Finish_def Let_def final_header_def)
qed

text \<open>Where each piece of a column is found in the file.\<close>

lemma take_drop_mid: "length pre = p \<Longrightarrow> length bs = n \<Longrightarrow> take n (drop p (pre @ bs @ rest)) = bs"
  by simp

lemma piece_in_file:
  assumes "writer_ok w" and "i < length (sw_column_buffers w)"
  defines "fbytes \<equiv> header_bytes (final_header w) @ concat (map (piece w) [0..<length (sw_column_buffers w)])"
  shows "\<exists>pre rest. fbytes = pre @ piece w i @ rest \<and> length pre = start w i"
proof -
  let ?n = "length (sw_column_buffers w)"
  have "[0..<?n] = [0..<i] @ i # [Suc i..<?n]"
    using assms(2) upt_add_eq_append [of 0 i "?n - i"] by (simp add: upt_conv_Cons)
  then have "fbytes = (header_bytes (final_header w) @ concat (map (piece w) [0..<i])) @ piece w i @
      concat (map (piece w) [Suc i..<?n])"
    by (simp add: fbytes_def)
  moreover have "length (header_bytes (final_header w) @ concat (map (piece w) [0..<i])) = start w i"
    using assms(1) by (simp add: start_def length_header_bytes final_header_def header_size_def writer_ok_def)
  ultimately show ?thesis by blast
qed

lemma blocks_in_file:
  assumes "writer_ok w" and "i < length (sw_column_buffers w)"
    and "start w (length (sw_column_buffers w)) < 2 ^ 32"
  defines "fbytes \<equiv> header_bytes (final_header w) @ concat (map (piece w) [0..<length (sw_column_buffers w)])"
    and "m \<equiv> meta_at w i (start w i)"
  shows "unat (cm_offset m) + unat (cm_size m) \<le> length fbytes"
    and "take (unat (cm_size m)) (drop (unat (cm_offset m)) fbytes) = data_block w i"
    and "unat (cm_zone_map_offset m) + unat (cm_zone_map_size m) \<le> length fbytes"
    and "take (unat (cm_zone_map_size m)) (drop (unat (cm_zone_map_offset m)) fbytes) = zone_map_block w i"
    and "unat (cm_bloom_offset m) + unat (cm_bloom_size m) \<le> length fbytes"
    and "take (unat (cm_bloom_size m)) (drop (unat (cm_bloom_offset m)) fbytes) = bloom_block w i"
    and "cm_zone_map_size m = 0 \<longleftrightarrow> zone_map_block w i = []" and "cm_bloom_size m = 0 \<longleftrightarrow> bloom_block w i = []"
proof -
  obtain pre rest where fbytes: "fbytes = pre @ data_block w i @ zone_map_block w i @ bloom_block w i @ rest"
    and pre: "length pre = start w i"
    using piece_in_file [OF assms(1,2)] unfolding fbytes_def piece_def by auto
  have lim: "start w i + length (data_block w i) + length (zone_map_block w i) + length (bloom_block w i) < 2 ^ 32"
    using start_mono [of "Suc i" "length (sw_column_buffers w)" w] assms(2,3) by (simp add: start_Suc piece_def)
  have u: "unat (of_nat k :: u32) = k" if "k \<le> start w i + length (data_block w i) + length (zone_map_block w i) +
      length (bloom_block w i)" for k
    using that lim by (simp add: unat_of_nat)
  have z: "(of_nat k :: u32) = 0 \<longleftrightarrow> k = 0" if "k \<le> start w i + length (data_block w i) +
      length (zone_map_block w i) + length (bloom_block w i)" for k
  proof
    assume "(of_nat k :: u32) = 0"
    then have "unat (of_nat k :: u32) = 0" by (simp only: unat_0)
    then show "k = 0" by (simp only: u [OF that])
  qed simp
  show "unat (cm_offset m) + unat (cm_size m) \<le> length fbytes"
    and "take (unat (cm_size m)) (drop (unat (cm_offset m)) fbytes) = data_block w i"
    by (simp_all add: m_def meta_at_def u fbytes pre del: of_nat_add)
  show "unat (cm_zone_map_offset m) + unat (cm_zone_map_size m) \<le> length fbytes"
    and "take (unat (cm_zone_map_size m)) (drop (unat (cm_zone_map_offset m)) fbytes) = zone_map_block w i"
    by (simp_all add: m_def meta_at_def u fbytes pre del: of_nat_add)
  show "unat (cm_bloom_offset m) + unat (cm_bloom_size m) \<le> length fbytes"
    and "take (unat (cm_bloom_size m)) (drop (unat (cm_bloom_offset m)) fbytes) = bloom_block w i"
    by (simp_all add: m_def meta_at_def u fbytes pre del: of_nat_add)
  show "cm_zone_map_size m = 0 \<longleftrightarrow> zone_map_block w i = []" "cm_bloom_size m = 0 \<longleftrightarrow> bloom_block w i = []"
    by (simp_all add: m_def meta_at_def z)
qed

section \<open>What a segment serves\<close>

text \<open>A column as it is given to the writer, and what a reader has to return for it.\<close>

datatype ColumnSpec = Spec32 EncodingType "32 word list" | Spec64 EncodingType "64 word list"

fun spec_type :: "ColumnSpec \<Rightarrow> DataType" where
  "spec_type (Spec32 e xs) = Int32" | "spec_type (Spec64 e xs) = Int64"

fun spec_encoding :: "ColumnSpec \<Rightarrow> EncodingType" where
  "spec_encoding (Spec32 e xs) = e" | "spec_encoding (Spec64 e xs) = e"

fun spec_rows :: "ColumnSpec \<Rightarrow> nat" where
  "spec_rows (Spec32 e xs) = length xs" | "spec_rows (Spec64 e xs) = length xs"

fun spec_block :: "ColumnSpec \<Rightarrow> byte list" where
  "spec_block (Spec32 e xs) = block_image e xs" | "spec_block (Spec64 e xs) = block_image e xs"

fun spec_column :: "ColumnSpec \<Rightarrow> Column" where
  "spec_column (Spec32 e xs) = Int32Column (column_of_values xs)"
| "spec_column (Spec64 e xs) = Int64Column (column_of_values xs)"

fun spec_ok :: "ColumnSpec \<Rightarrow> bool" where
  "spec_ok (Spec32 e xs) = (fixed_width e \<and> encodable_as e xs)"
| "spec_ok (Spec64 e xs) = (fixed_width e \<and> encodable_as e xs)"

fun add_spec :: "ColumnSpec \<Rightarrow> bool list \<Rightarrow> SegmentWriter \<Rightarrow> SegmentWriter res" where
  "add_spec (Spec32 e xs) nulls w = AddColumn_Int32 xs nulls e w"
| "add_spec (Spec64 e xs) nulls w = AddColumn_Int64 xs nulls e w"

definition writer_holds :: "SegmentWriter \<Rightarrow> ColumnSpec list \<Rightarrow> bool" where
  "writer_holds w cs \<longleftrightarrow> writer_ok w \<and> length (sw_column_buffers w) = length cs \<and>
     (\<forall>i < length cs. data_block w i = spec_block (cs ! i) \<and>
        cs_type (sw_column_stats w ! i) = spec_type (cs ! i) \<and>
        sw_column_encodings w ! i = spec_encoding (cs ! i)) \<and>
     sw_row_count w = Max (insert 0 (spec_rows ` set cs))"

lemma copy_type [simp]: "cs_type (ColumnStats_copy s) = cs_type s"
  by (simp add: ColumnStats_copy_def ColumnStats_assign_def Let_def)

lemma AddColumn_bounds_defined:
  assumes "length values \<le> length nulls"
  shows "\<exists>p. AddColumn_bounds N values nulls = Inr p"
proof -
  let ?step = "\<lambda>i (mn, mx). bind_res (nth_res nulls i) (\<lambda>null.
    Inr (if \<not> null then (if num_less N (values ! i) mn then values ! i else mn,
                         if num_less N mx (values ! i) then values ! i else mx) else (mn, mx)))"
  have "\<exists>p. fold_res ?step is s = Inr p" if "set is \<subseteq> {..<length nulls}" for "is" s
    using that by (induction "is" arbitrary: s) (auto simp: nth_res_def split: prod.splits)
  moreover have "set [1..<length values] \<subseteq> {..<length nulls}" using assms by auto
  ultimately show ?thesis unfolding AddColumn_bounds_def by blast
qed

lemma AddColumn_stats_defined:
  assumes "length values \<le> length nulls"
  shows "\<exists>s. AddColumn_stats int_numeric T values nulls = Inr s \<and> cs_type s = T"
  using AddColumn_bounds_defined [OF assms, of int_numeric]
  by (cases "values = []") (auto simp: AddColumn_stats_def int_numeric_def Let_def split: prod.splits)

text \<open>A floating-point column whose first value has no 64-bit integer part is undefined behaviour.\<close>

lemma AddColumn_double_undefined:
  "int_of_double v = Inl err \<Longrightarrow> AddColumn_stats double_numeric Double [v] nulls = Inl err"
  by (simp add: AddColumn_stats_def AddColumn_bounds_def double_numeric_def Let_def)

lemma AddColumn_holds:
  fixes xs :: "'a::len word list"
  assumes h: "writer_holds w cs" and "length cs + 1 < 2 ^ 32" and "length xs \<le> length nulls"
    and enc: "\<exists>b. Encoder_Encode (CreateEncoder e T) (bytes_of_array xs) (length xs) Buffer_empty = Some (Inr b) \<and>
      Buffer_inv b \<and> contents b = contents Buffer_empty @ spec_block c"
    and c: "spec_type c = T" "spec_encoding c = e" "spec_rows c = length xs"
  shows "\<exists>w'. AddColumn int_numeric T xs nulls e w = Inr w' \<and> writer_holds w' (cs @ [c])"
proof -
  obtain b where b: "Encoder_Encode (CreateEncoder e T) (bytes_of_array xs) (length xs) Buffer_empty = Some (Inr b)"
    "Buffer_inv b" "contents b = spec_block c" using enc by auto
  obtain s where s: "AddColumn_stats int_numeric T xs nulls = Inr s" "cs_type s = T"
    using AddColumn_stats_defined [OF assms(3)] by blast
  let ?n = "sh_num_columns (sw_header w)"
  have n: "unat ?n = length cs" using h by (simp add: writer_holds_def writer_ok_def)
  then have n1: "unat (?n + 1) = length cs + 1"
    using assms(2) by (simp add: unat_word_ariths)
  define w' where "w' = w\<lparr>sw_column_stats := sw_column_stats w @ [ColumnStats_copy s],
              sw_column_encodings := sw_column_encodings w @ [e],
              sw_column_buffers := sw_column_buffers w @ [b],
              sw_header := (sw_header w)\<lparr>sh_num_columns := ?n + 1\<rparr>,
              sw_row_count := max (sw_row_count w) (length xs)\<rparr>"
  have "AddColumn int_numeric T xs nulls e w = Inr w'"
    by (simp add: AddColumn_def of_modelled_def b(1) s(1) w'_def)
  moreover have "writer_ok w'"
    using h n1 b(2) by (simp add: w'_def writer_holds_def writer_ok_def)
  moreover have "data_block w' i = spec_block ((cs @ [c]) ! i) \<and>
      cs_type (sw_column_stats w' ! i) = spec_type ((cs @ [c]) ! i) \<and>
      sw_column_encodings w' ! i = spec_encoding ((cs @ [c]) ! i)" if "i < length (cs @ [c])" for i
    using that h b(3) c(1,2) s(2)
    by (auto simp: w'_def writer_holds_def writer_ok_def data_block_def nth_append less_Suc_eq)
  moreover have "sw_row_count w' = Max (insert 0 (spec_rows ` set (cs @ [c])))"
  proof -
    have "insert 0 (spec_rows ` set (cs @ [c])) = insert (length xs) (insert 0 (spec_rows ` set cs))"
      using c(3) by auto
    moreover have "Max (insert (length xs) (insert 0 (spec_rows ` set cs))) =
        max (length xs) (Max (insert 0 (spec_rows ` set cs)))"
      by (rule Max_insert) simp_all
    moreover have "sw_row_count w = Max (insert 0 (spec_rows ` set cs))" using h by (simp add: writer_holds_def)
    moreover have "sw_row_count w' = max (length xs) (sw_row_count w)" by (simp add: w'_def max.commute)
    ultimately show ?thesis by (simp only:)
  qed
  ultimately show ?thesis
    using h by (simp add: writer_holds_def) (simp add: w'_def)
qed

lemma add_spec_holds:
  assumes "writer_holds w cs" and "length cs + 1 < 2 ^ 32" and "spec_ok c" and "spec_rows c \<le> length nulls"
  shows "\<exists>w'. add_spec c nulls w = Inr w' \<and> writer_holds w' (cs @ [c])"
proof (cases c)
  case (Spec32 e xs)
  then show ?thesis
    using AddColumn_holds [OF assms(1,2), of xs nulls e Int32 c] assms(3,4)
      factory_encode32 [of e xs Buffer_empty] by (simp add: AddColumn_Int32_def)
next
  case (Spec64 e xs)
  then show ?thesis
    using AddColumn_holds [OF assms(1,2), of xs nulls e Int64 c] assms(3,4)
      factory_encode64 [of e xs Buffer_empty] by (simp add: AddColumn_Int64_def)
qed

lemma new_writer_holds: "\<exists>w. SegmentWriter_new True = Inr w \<and> writer_holds w []"
  by (simp add: SegmentWriter_new_def writer_holds_def writer_ok_def SegmentHeader_default_def file_at_end_def)

lemma add_specs_hold:
  assumes "writer_holds w cs" and "length cs + length specs < 2 ^ 32"
    and "\<And>c ns. (c, ns) \<in> set specs \<Longrightarrow> spec_ok c \<and> spec_rows c \<le> length ns"
  shows "\<exists>w'. fold_res (\<lambda>(c, ns). add_spec c ns) specs w = Inr w' \<and> writer_holds w' (cs @ map fst specs)"
  using assms
proof (induction specs arbitrary: w cs)
  case Nil
  then show ?case by simp
next
  case (Cons p specs)
  obtain c ns where p: "p = (c, ns)" by (cases p)
  have "spec_ok c" "spec_rows c \<le> length ns" using Cons.prems(3) [of c ns] by (simp_all add: p)
  then obtain w1 where w1: "add_spec c ns w = Inr w1" "writer_holds w1 (cs @ [c])"
    using add_spec_holds [OF Cons.prems(1), of c ns] Cons.prems(2) by auto
  have "\<exists>w'. fold_res (\<lambda>(c, ns). add_spec c ns) specs w1 = Inr w' \<and> writer_holds w' ((cs @ [c]) @ map fst specs)"
    using w1(2) Cons.prems(2,3) by (intro Cons.IH) auto
  then show ?case using w1(1) by (simp add: p)
qed

lemma index_keeps_holds:
  "writer_holds w cs \<Longrightarrow> writer_holds (AddZoneMap i zm w) cs"
  "writer_holds w cs \<Longrightarrow> writer_holds (AddBloomFilter i bf w) cs"
  by (simp_all add: writer_holds_def writer_ok_def AddZoneMap_def AddBloomFilter_def Let_def data_block_def)

text \<open>The state of a reader that serves the columns: the file is intact, every block is where the
  header says, and the cache holds nothing else than decoded columns.\<close>

definition reader_serves :: "SegmentReader \<Rightarrow> ColumnSpec list \<Rightarrow> bool" where
  "reader_serves r cs \<longleftrightarrow> \<not> if_fail (sr_file r) \<and> length (sh_columns (sr_header r)) = length cs \<and>
     (\<forall>i < length cs. let m = sh_columns (sr_header r) ! i; bs = if_bytes (sr_file r)
        in cm_type m = spec_type (cs ! i) \<and> cm_encoding m = spec_encoding (cs ! i) \<and>
           unat (cm_offset m) + unat (cm_size m) \<le> length bs \<and>
           take (unat (cm_size m)) (drop (unat (cm_offset m)) bs) = spec_block (cs ! i)) \<and>
     (\<forall>i < length (sr_cached_columns r). sr_cached_columns r ! i = None \<or>
        i < length cs \<and> sr_cached_columns r ! i = Some (spec_column (cs ! i)))"

definition segment_serves :: "Segment \<Rightarrow> ColumnSpec list \<Rightarrow> bool" where
  "segment_serves s cs \<longleftrightarrow> reader_serves (sg_reader s) cs \<and>
     sg_column_cache s = replicate (length cs) None \<and>
     length (sh_columns (sg_header s)) = length cs \<and>
     (\<forall>i < length cs. cm_type (sh_columns (sg_header s) ! i) = spec_type (cs ! i) \<and>
        cm_encoding (sh_columns (sg_header s) ! i) = spec_encoding (cs ! i))"

lemma capacity_0: "ColumnVector_with_capacity z 0 = ColumnVector_empty"
  by (simp add: ColumnVector_with_capacity_def ColumnVector_empty_def)

lemma decode_spec:
  assumes "spec_ok c" and "cm_type m = spec_type c" and "cm_encoding m = spec_encoding c"
  shows "decode_column m (spec_block c) = Inr (spec_column c)"
  using assms TypedColumn_Decode32 TypedColumn_Decode64
  by (cases c) (simp_all add: decode_column_def of_modelled_def capacity_0)

lemma reader_serves_file:
  assumes "reader_serves r cs" and "\<not> if_fail f" and "if_bytes f = if_bytes (sr_file r)"
  shows "reader_serves (r\<lparr>sr_file := f\<rparr>) cs"
  using assms by (simp add: reader_serves_def)

lemma reader_serves_at:
  assumes "reader_serves r cs" and "i < length cs"
  defines "m \<equiv> sh_columns (sr_header r) ! i" and "bs \<equiv> if_bytes (sr_file r)"
  shows "nth_res (sh_columns (sr_header r)) i = Inr m \<and> cm_type m = spec_type (cs ! i) \<and>
    cm_encoding m = spec_encoding (cs ! i) \<and> unat (cm_offset m) + unat (cm_size m) \<le> length bs \<and>
    take (unat (cm_size m)) (drop (unat (cm_offset m)) bs) = spec_block (cs ! i) \<and> \<not> if_fail (sr_file r)"
proof -
  have "\<forall>i < length cs. let m = sh_columns (sr_header r) ! i; bs = if_bytes (sr_file r)
        in cm_type m = spec_type (cs ! i) \<and> cm_encoding m = spec_encoding (cs ! i) \<and>
           unat (cm_offset m) + unat (cm_size m) \<le> length bs \<and>
           take (unat (cm_size m)) (drop (unat (cm_offset m)) bs) = spec_block (cs ! i)"
    and "length (sh_columns (sr_header r)) = length cs" and "\<not> if_fail (sr_file r)"
    using assms(1) unfolding reader_serves_def by blast+
  then show ?thesis using assms(2) unfolding m_def bs_def Let_def nth_res_def by presburger
qed

lemma reader_serves_cache:
  "reader_serves r cs \<Longrightarrow> k < length (sr_cached_columns r) \<Longrightarrow> sr_cached_columns r ! k = None \<or>
     k < length cs \<and> sr_cached_columns r ! k = Some (spec_column (cs ! k))"
  by (simp only: reader_serves_def)

lemma Reader_GetColumn_serves:
  assumes "reader_serves r cs" and "i < length cs" and "spec_ok (cs ! i)"
  shows "\<exists>r'. Reader_GetColumn i r = Inr (spec_column (cs ! i), r') \<and> reader_serves r' cs"
proof -
  let ?cache = "sr_cached_columns r"
  show ?thesis
  proof (cases "i < length ?cache \<and> ?cache ! i \<noteq> None")
    case True
    then have "?cache ! i = Some (spec_column (cs ! i))" using reader_serves_cache [OF assms(1), of i] by auto
    then show ?thesis using True assms(1) by (simp add: Reader_GetColumn_def)
  next
    case False
    define m where "m = sh_columns (sr_header r) ! i"
    have m: "nth_res (sh_columns (sr_header r)) i = Inr m" "cm_type m = spec_type (cs ! i)"
      "cm_encoding m = spec_encoding (cs ! i)" "unat (cm_offset m) + unat (cm_size m) \<le> length (if_bytes (sr_file r))"
      "take (unat (cm_size m)) (drop (unat (cm_offset m)) (if_bytes (sr_file r))) = spec_block (cs ! i)"
      and nf: "\<not> if_fail (sr_file r)"
      using reader_serves_at [OF assms(1,2)] unfolding m_def by blast+
    obtain r1 where r1: "read_block (cm_offset m) (cm_size m) r = (spec_block (cs ! i), r1)"
      "\<not> if_fail (sr_file r1)" "if_bytes (sr_file r1) = if_bytes (sr_file r)" "sr_header r1 = sr_header r"
      "sr_cached_columns r1 = sr_cached_columns r"
      using read_block_exact [OF nf m(4)] m(5) by auto
    define cached where "cached = (if length ?cache \<le> i then resize None (i + 1) ?cache else ?cache)"
    have "(if i < length ?cache then ?cache ! i else None) = None" using False by auto
    then have "Reader_GetColumn i r =
        Inr (spec_column (cs ! i), r1\<lparr>sr_cached_columns := cached[i := Some (spec_column (cs ! i))]\<rparr>)"
      by (simp add: Reader_GetColumn_def m(1) r1(1) decode_spec [OF assms(3) m(2,3)] cached_def Let_def)
    moreover have "cached[i := Some (spec_column (cs ! i))] ! k = None \<or>
        k < length cs \<and> cached[i := Some (spec_column (cs ! i))] ! k = Some (spec_column (cs ! k))"
      if "k < length (cached[i := Some (spec_column (cs ! i))])" for k
    proof (cases "k = i")
      case True
      then show ?thesis using assms(2) that by simp
    next
      case False
      then have "cached ! k = (if k < length ?cache then ?cache ! k else None)"
        using that by (auto simp: cached_def resize_def nth_append)
      then show ?thesis using False reader_serves_cache [OF assms(1), of k] by auto
    qed
    ultimately show ?thesis
      using assms(1) r1 unfolding reader_serves_def by simp
  qed
qed

lemma Segment_GetColumn_serves:
  assumes "segment_serves s cs" and "i < length cs" and "spec_ok (cs ! i)"
  shows "\<exists>s'. Segment_GetColumn i s = Inr (spec_column (cs ! i), s') \<and> segment_serves s' cs \<and>
    sg_header s' = sg_header s"
proof -
  have "reader_serves (sg_reader s) cs" using assms(1) by (simp add: segment_serves_def)
  from Reader_GetColumn_serves [OF this assms(2,3)] show ?thesis
    using assms(1,2) by (auto simp: Segment_GetColumn_def segment_serves_def)
qed

lemma Segment_Prefetch_serves:
  assumes "segment_serves s cs" and "\<forall>c \<in> set cs. spec_ok c" and "set cols \<subseteq> {..<length cs}"
  shows "\<exists>s'. Segment_PrefetchColumns cols s = Inr s' \<and> segment_serves s' cs \<and> sg_header s' = sg_header s"
  using assms(1,3)
proof (induction cols arbitrary: s)
  case Nil
  then show ?case by (simp add: Segment_PrefetchColumns_def)
next
  case (Cons c cols)
  then obtain s1 where s1: "Segment_GetColumn c s = Inr (spec_column (cs ! c), s1)" "segment_serves s1 cs"
    "sg_header s1 = sg_header s"
    using Segment_GetColumn_serves [OF Cons.prems(1), of c] assms(2) by auto
  with Cons.IH [OF s1(2)] Cons.prems(2) show ?case by (simp add: Segment_PrefetchColumns_def)
qed

text \<open>The file size bound in terms of the file itself.\<close>

definition file_of :: "SegmentWriter \<Rightarrow> byte list" where
  "file_of w = header_bytes (final_header w) @ concat (map (piece w) [0..<length (sw_column_buffers w)])"

lemma length_file_of: "writer_ok w \<Longrightarrow> length (file_of w) = start w (length (sw_column_buffers w))"
  by (simp add: file_of_def start_def length_header_bytes final_header_def header_size_def writer_ok_def)

lemma open_reader:
  assumes "writer_ok w"
  shows "\<exists>r. SegmentReader_new (Some (file_of w)) = Inr r \<and> sr_header r = final_header w \<and>
    \<not> if_fail (sr_file r) \<and> if_bytes (sr_file r) = file_of w \<and> sr_cached_columns r = []"
proof -
  have "length (sh_columns (final_header w)) = unat (sh_num_columns (final_header w))"
    using assms by (simp add: final_header_def writer_ok_def)
  from ReadHeader_image [OF this, of "concat (map (piece w) [0..<length (sw_column_buffers w)])"]
  show ?thesis unfolding file_of_def SegmentReader_new_def by auto
qed

lemma nth_final_columns:
  "i < length (sw_column_buffers w) \<Longrightarrow> sh_columns (final_header w) ! i = meta_at w i (start w i)"
  by (simp add: final_header_def)

lemma open_segment:
  assumes "writer_ok w"
  shows "\<exists>s. Segment_Open (Some (file_of w)) = Inr s \<and> sg_header s = header_copy (final_header w) \<and>
    sr_header (sg_reader s) = final_header w \<and> \<not> if_fail (sr_file (sg_reader s)) \<and>
    if_bytes (sr_file (sg_reader s)) = file_of w \<and> sr_cached_columns (sg_reader s) = [] \<and>
    sg_column_cache s = replicate (length (sw_column_buffers w)) None"
  using open_reader [OF assms] assms
  by (auto simp: Segment_Open_def Segment_new_def final_header_def writer_ok_def)

lemma open_serves:
  assumes h: "writer_holds w cs" and lim: "length (file_of w) < 2 ^ 32"
    and "Segment_Open (Some (file_of w)) = Inr s"
  shows "segment_serves s cs"
proof -
  have ok: "writer_ok w" and len: "length (sw_column_buffers w) = length cs"
    using h by (simp_all add: writer_holds_def)
  have st: "start w (length (sw_column_buffers w)) < 2 ^ 32" using lim length_file_of [OF ok] by simp
  obtain s' where s': "Segment_Open (Some (file_of w)) = Inr s'" "sg_header s' = header_copy (final_header w)"
    "sr_header (sg_reader s') = final_header w" "\<not> if_fail (sr_file (sg_reader s'))"
    "if_bytes (sr_file (sg_reader s')) = file_of w" "sr_cached_columns (sg_reader s') = []"
    "sg_column_cache s' = replicate (length (sw_column_buffers w)) None"
    using open_segment [OF ok] by blast
  have s: "s' = s" using s'(1) assms(3) by simp
  have cols: "length (sh_columns (final_header w)) = length cs" by (simp add: final_header_def len)
  have meta: "cm_type (meta_at w i (start w i)) = spec_type (cs ! i)"
    "cm_encoding (meta_at w i (start w i)) = spec_encoding (cs ! i)" if "i < length cs" for i
    using h that by (simp_all add: writer_holds_def meta_at_def)
  have blk: "data_block w i = spec_block (cs ! i)" if "i < length cs" for i
    using h that by (simp add: writer_holds_def)
  have "reader_serves (sg_reader s) cs"
    unfolding reader_serves_def s'(3-6) [unfolded s]
    using s'(4) [unfolded s] cols blocks_in_file(1,2) [OF ok _ st, folded file_of_def] nth_final_columns [of _ w]
    by (simp add: len meta blk Let_def)
  moreover have "cm_type (sh_columns (sg_header s) ! i) = spec_type (cs ! i) \<and>
      cm_encoding (sh_columns (sg_header s) ! i) = spec_encoding (cs ! i)" if "i < length cs" for i
    using that nth_final_columns [of i w] meta [OF that] cols
    by (simp add: s'(2) [unfolded s] header_copy_def len)
  ultimately show ?thesis
    using s'(2,7) cols by (simp add: segment_serves_def s header_copy_def len)
qed

text \<open>The indexes the reader of a finished file returns, and a reader of that file.\<close>

definition stored_zone_map :: "SegmentWriter \<Rightarrow> nat \<Rightarrow> ZoneMap" where
  "stored_zone_map w i =
     (if i < length (sw_zone_maps w) \<and> NumBlocks (sw_zone_maps w ! i) > 0 then sw_zone_maps w ! i
      else ZoneMap_new 65536)"

definition stored_bloom_filter :: "SegmentWriter \<Rightarrow> nat \<Rightarrow> BloomFilter" where
  "stored_bloom_filter w i =
     (if i < length (sw_bloom_filters w) \<and> Bloom_Size (sw_bloom_filters w ! i) > 0 then sw_bloom_filters w ! i
      else BloomFilter_default)"

definition index_ok :: "SegmentWriter \<Rightarrow> nat \<Rightarrow> bool" where
  "index_ok w i \<longleftrightarrow>
     (i < length (sw_zone_maps w) \<longrightarrow> length (zm_entries (sw_zone_maps w ! i)) < 2 ^ 32 \<and>
        zm_block_rows (sw_zone_maps w ! i) < 2 ^ 32) \<and>
     (i < length (sw_bloom_filters w) \<longrightarrow> Bloom_inv (sw_bloom_filters w ! i))"

definition reads_file :: "SegmentReader \<Rightarrow> SegmentWriter \<Rightarrow> bool" where
  "reads_file r w \<longleftrightarrow> sr_header r = final_header w \<and> \<not> if_fail (sr_file r) \<and> if_bytes (sr_file r) = file_of w"

lemma stored_indexes:
  assumes "writer_ok w" and "length (file_of w) < 2 ^ 32" and i: "i < length (sw_column_buffers w)"
    and r: "reads_file r w" and ok: "index_ok w i"
  shows "\<exists>r'. Reader_GetZoneMap i r = Inr (stored_zone_map w i, r') \<and> reads_file r' w \<and>
      sr_cached_columns r' = sr_cached_columns r"
    and "\<exists>r'. Reader_GetBloomFilter i r = Inr (stored_bloom_filter w i, r') \<and> reads_file r' w \<and>
      sr_cached_columns r' = sr_cached_columns r"
proof -
  have st: "start w (length (sw_column_buffers w)) < 2 ^ 32" using assms(2) length_file_of [OF assms(1)] by simp
  note b = blocks_in_file [OF assms(1) i st, folded file_of_def]
  have h: "sr_header r = final_header w" and nf: "\<not> if_fail (sr_file r)" and f: "if_bytes (sr_file r) = file_of w"
    using r by (simp_all add: reads_file_def)
  let ?m = "meta_at w i (start w i)"
  have m: "nth_res (sh_columns (sr_header r)) i = Inr ?m"
    using i h nth_final_columns [OF i] by (simp add: nth_res_def final_header_def)
  show "\<exists>r'. Reader_GetZoneMap i r = Inr (stored_zone_map w i, r') \<and> reads_file r' w \<and>
      sr_cached_columns r' = sr_cached_columns r"
  proof (cases "i < length (sw_zone_maps w) \<and> NumBlocks (sw_zone_maps w ! i) > 0")
    case True
    then have z: "zone_map_block w i = zone_map_image (sw_zone_maps w ! i)" by (simp add: zone_map_block_def)
    obtain r1 where "read_block (cm_zone_map_offset ?m) (cm_zone_map_size ?m) r =
        (zone_map_image (sw_zone_maps w ! i), r1)" "reads_file r1 w" "sr_cached_columns r1 = sr_cached_columns r"
      using read_block_exact [OF nf, of "cm_zone_map_offset ?m" "cm_zone_map_size ?m"] b(3,4) h
      unfolding f z reads_file_def by auto
    moreover have "cm_zone_map_size ?m \<noteq> 0" using b(7) by (simp add: z)
    ultimately show ?thesis
      using ZoneMap_Read_image [of "sw_zone_maps w ! i" "[]"] True ok
      by (simp add: Reader_GetZoneMap_def m stored_zone_map_def index_ok_def)
  next
    case False
    then have "cm_zone_map_size ?m = 0" using b(7) by (auto simp: zone_map_block_def)
    then show ?thesis using False r by (auto simp: Reader_GetZoneMap_def m stored_zone_map_def)
  qed
  show "\<exists>r'. Reader_GetBloomFilter i r = Inr (stored_bloom_filter w i, r') \<and> reads_file r' w \<and>
      sr_cached_columns r' = sr_cached_columns r"
  proof (cases "i < length (sw_bloom_filters w) \<and> Bloom_Size (sw_bloom_filters w ! i) > 0")
    case True
    then have z: "bloom_block w i = bloom_image (sw_bloom_filters w ! i)" by (simp add: bloom_block_def)
    obtain r1 where "read_block (cm_bloom_offset ?m) (cm_bloom_size ?m) r =
        (bloom_image (sw_bloom_filters w ! i), r1)" "reads_file r1 w" "sr_cached_columns r1 = sr_cached_columns r"
      using read_block_exact [OF nf, of "cm_bloom_offset ?m" "cm_bloom_size ?m"] b(5,6) h
      unfolding f z reads_file_def by auto
    moreover have "cm_bloom_size ?m \<noteq> 0" using b(8) by (simp add: z)
    ultimately show ?thesis
      using Bloom_Read_image [of "sw_bloom_filters w ! i" "[]"] True ok
      by (simp add: Reader_GetBloomFilter_def m stored_bloom_filter_def index_ok_def Bloom_inv_def)
  next
    case False
    then have "cm_bloom_size ?m = 0" using b(8) by (auto simp: bloom_block_def)
    then show ?thesis using False r by (auto simp: Reader_GetBloomFilter_def m stored_bloom_filter_def)
  qed
qed

text \<open>Data of a served column.\<close>

fun spec_bytes :: "ColumnSpec \<Rightarrow> nat \<Rightarrow> nat \<Rightarrow> byte list" where
  "spec_bytes (Spec32 e xs) offset count = bytes_of_array (take count (drop offset xs))"
| "spec_bytes (Spec64 e xs) offset count = bytes_of_array (take count (drop offset xs))"

lemma ReadValues_spec:
  "offset + count \<le> spec_rows c \<Longrightarrow>
   Column_ReadValues offset count (spec_column c) = Inr (spec_bytes c offset count)"
  by (cases c) (simp_all add: TypedColumn_ReadValues_def slice_res_def column_of_values_def)

lemma Column_Type_spec [simp]: "Column_Type (spec_column c) = spec_type c"
  by (cases c) simp_all

lemma spec_type_numeric [simp]: "IsNumeric (spec_type c)"
  by (cases c) (simp_all add: IsNumeric_def IsInteger_def)

lemma Segment_ColumnType_serves:
  "segment_serves s cs \<Longrightarrow> i < length cs \<Longrightarrow> Segment_ColumnType s i = Inr (spec_type (cs ! i))"
  by (simp add: Segment_ColumnType_def segment_serves_def nth_res_def)

lemma GetColumnData_serves:
  assumes "segment_serves s cs" and "i < length cs" and "spec_ok (cs ! i)" and "offset + count \<le> spec_rows (cs ! i)"
  shows "\<exists>s'. Segment_GetColumnData i offset count s = Inr (spec_bytes (cs ! i) offset count, s') \<and>
    segment_serves s' cs \<and> sg_header s' = sg_header s"
  using Segment_GetColumn_serves [OF assms(1-3)] Segment_ColumnType_serves [OF assms(1,2)]
    ReadValues_spec [OF assms(4)]
  by (auto simp: Segment_GetColumnData_def)

lemma file_size_specs:
  assumes "writer_holds w cs" and "sw_zone_maps w = []" and "sw_bloom_filters w = []"
  shows "length (file_of w) = 36 + length cs * 136 + sum_list (map (length \<circ> spec_block) cs)"
proof -
  have ok: "writer_ok w" and len: "length (sw_column_buffers w) = length cs"
    using assms(1) by (simp_all add: writer_holds_def)
  have "piece w i = spec_block (cs ! i)" if "i < length cs" for i
    using assms that by (simp add: piece_def zone_map_block_def bloom_block_def writer_holds_def)
  then have "map (piece w) [0..<length cs] = map (\<lambda>i. spec_block (cs ! i)) [0..<length cs]" by simp
  also have "\<dots> = map spec_block cs" by (rule nth_equalityI) simp_all
  finally have "length (concat (map (piece w) [0..<length cs])) = sum_list (map (length \<circ> spec_block) cs)"
    by (simp add: length_concat)
  moreover have "header_size w = 36 + length cs * 136"
    using ok len by (simp add: header_size_def writer_ok_def)
  ultimately show ?thesis using length_file_of [OF ok] by (simp add: start_def len)
qed

lemma AddColumn_indexes:
  "AddColumn N T xs nulls e w = Inr w' \<Longrightarrow> sw_zone_maps w' = sw_zone_maps w \<and> sw_bloom_filters w' = sw_bloom_filters w"
  by (auto simp: AddColumn_def bind_res_Inr_iff)

lemma add_specs_indexes:
  "fold_res (\<lambda>(c, ns). add_spec c ns) specs w = Inr w' \<Longrightarrow>
   sw_zone_maps w' = sw_zone_maps w \<and> sw_bloom_filters w' = sw_bloom_filters w"
proof (induction specs arbitrary: w)
  case Nil
  then show ?case by simp
next
  case (Cons p specs)
  obtain w1 where w1: "add_spec (fst p) (snd p) w = Inr w1"
    "fold_res (\<lambda>(c, ns). add_spec c ns) specs w1 = Inr w'"
    using Cons.prems by (auto simp: bind_res_Inr_iff case_prod_unfold)
  have "sw_zone_maps w1 = sw_zone_maps w \<and> sw_bloom_filters w1 = sw_bloom_filters w"
    using w1(1) by (cases "fst p") (auto simp: AddColumn_Int32_def AddColumn_Int64_def dest: AddColumn_indexes)
  then show ?case using Cons.IH [OF w1(2)] by simp
qed

text \<open>A new writer filled with columns, finished and opened.\<close>

lemma written_segment:
  assumes "\<forall>(c, nulls) \<in> set specs. spec_ok c \<and> spec_rows c \<le> length nulls"
    and "36 + length specs * 136 + sum_list (map (length \<circ> spec_block \<circ> fst) specs) < 2 ^ 32"
  shows "\<exists>w s. bind_res (SegmentWriter_new True) (fold_res (\<lambda>(c, nulls). add_spec c nulls) specs) = Inr w \<and>
    writer_holds w (map fst specs) \<and> Segment_Open (Some (fst (Writer_Finish w))) = Inr s \<and>
    segment_serves s (map fst specs) \<and> sg_header s = header_copy (final_header w)"
proof -
  obtain w0 where w0: "SegmentWriter_new True = Inr w0" "writer_holds w0 []" using new_writer_holds by blast
  have "\<exists>w. fold_res (\<lambda>(c, nulls). add_spec c nulls) specs w0 = Inr w \<and> writer_holds w ([] @ map fst specs)"
    using assms by (intro add_specs_hold [OF w0(2)]) auto
  then obtain w where w: "fold_res (\<lambda>(c, nulls). add_spec c nulls) specs w0 = Inr w" "writer_holds w (map fst specs)"
    by auto
  have ok: "writer_ok w" using w(2) by (simp add: writer_holds_def)
  have "sw_zone_maps w = [] \<and> sw_bloom_filters w = []"
    using add_specs_indexes [OF w(1)] w0(1) by (auto simp: SegmentWriter_new_def)
  then have lim: "length (file_of w) < 2 ^ 32"
    using file_size_specs [OF w(2)] assms(2) by (simp add: comp_assoc)
  then have "fst (Writer_Finish w) = file_of w"
    using Writer_Finish_layout [OF ok] length_file_of [OF ok] by (simp add: file_of_def)
  moreover obtain s where s: "Segment_Open (Some (file_of w)) = Inr s" "sg_header s = header_copy (final_header w)"
    using open_segment [OF ok] by blast
  moreover have "segment_serves s (map fst specs)" by (rule open_serves [OF w(2) lim s(1)])
  ultimately show ?thesis using w w0(1) by auto
qed

text \<open>The handle \<^verbatim>\<open>Finish\<close> returns is the one \<^verbatim>\<open>Open\<close> builds from the finished file.\<close>

lemma Finish_segment_open:
  assumes "writer_ok w" and "length (file_of w) < 2 ^ 32"
  shows "Finish_segment w = Segment_Open (Some (file_of w))" and "fst (Writer_Finish w) = file_of w"
proof -
  have f: "Writer_Finish w = (file_of w, final_header w)"
    using Writer_Finish_layout [OF assms(1)] length_file_of [OF assms(1)] assms(2) by (simp add: file_of_def)
  then show "fst (Writer_Finish w) = file_of w" by simp
  obtain r where "SegmentReader_new (Some (file_of w)) = Inr r" "sr_header r = final_header w"
    using open_reader [OF assms(1)] by blast
  then show "Finish_segment w = Segment_Open (Some (file_of w))"
    by (simp add: Finish_segment_def f Segment_Open_def Segment_new_def)
qed

text \<open>The timestamp set on a writer never reaches the header: the constructor has copied it before.\<close>

lemma timestamp_not_stored: "Writer_Finish (Writer_SetTimestamp ts w) = Writer_Finish w"
proof -
  let ?w = "w\<lparr>sw_timestamp := ts\<rparr>"
  have "Finish_data ?w = Finish_data w" "Finish_zone_map ?w = Finish_zone_map w" "Finish_bloom ?w = Finish_bloom w"
    by (auto intro!: ext simp: Finish_data_def Finish_zone_map_def Finish_bloom_def Let_def split: prod.splits)
  then have "Finish_column ?w = Finish_column w"
    by (auto intro!: ext simp: Finish_column_def Let_def split: prod.splits)
  then show ?thesis by (simp add: Writer_Finish_def Writer_SetTimestamp_def)
qed

section \<open>Properties\<close>

text \<open>C7: Columns of 32-bit and 64-bit integers, plain or delta encoded, are added to a new writer
  without error; when the file they make is below \<open>2 ^ 32\<close> bytes, opening it succeeds, the opened
  segment has the number of columns and the row count that were written, and each column reads
  back as it was given, whatever columns were loaded into the cache before and in whatever order,
  as does every range of its raw data.\<close>

theorem segment_round_trip:
  assumes "\<forall>(c, nulls) \<in> set specs. spec_ok c \<and> spec_rows c \<le> length nulls"
    and "36 + length specs * 136 + sum_list (map (length \<circ> spec_block \<circ> fst) specs) < 2 ^ 32"
    and "set cached \<subseteq> {..<length specs}" and "i < length specs"
    and "offset + count \<le> spec_rows (fst (specs ! i))"
  shows "\<exists>w s s1 s2 s3. bind_res (SegmentWriter_new True) (fold_res (\<lambda>(c, nulls). add_spec c nulls) specs) = Inr w \<and>
    Segment_Open (Some (fst (Writer_Finish w))) = Inr s \<and>
    unat (Segment_NumColumns s) = length specs \<and>
    Segment_NumRows s = of_nat (Max (insert 0 ((spec_rows \<circ> fst) ` set specs))) \<and>
    Segment_PrefetchColumns cached s = Inr s1 \<and>
    Segment_GetColumn i s1 = Inr (spec_column (fst (specs ! i)), s2) \<and>
    Segment_GetColumnData i offset count s1 = Inr (spec_bytes (fst (specs ! i)) offset count, s3)"
proof -
  let ?cs = "map fst specs"
  obtain w s where w: "bind_res (SegmentWriter_new True) (fold_res (\<lambda>(c, nulls). add_spec c nulls) specs) = Inr w"
    "writer_holds w ?cs" and s: "Segment_Open (Some (fst (Writer_Finish w))) = Inr s" "segment_serves s ?cs"
    "sg_header s = header_copy (final_header w)"
    using written_segment [OF assms(1,2)] by blast
  have ok: "\<forall>c \<in> set ?cs. spec_ok c" using assms(1) by auto
  obtain s1 where s1: "Segment_PrefetchColumns cached s = Inr s1" "segment_serves s1 ?cs"
    using Segment_Prefetch_serves [OF s(2) ok] assms(3) by auto
  have i: "i < length ?cs" "spec_ok (?cs ! i)" "?cs ! i = fst (specs ! i)"
    using assms(4) bspec [OF ok nth_mem, of i] by simp_all
  obtain s2 where s2: "Segment_GetColumn i s1 = Inr (spec_column (fst (specs ! i)), s2)"
    using Segment_GetColumn_serves [OF s1(2) i(1,2)] i(3) by auto
  obtain s3 where s3: "Segment_GetColumnData i offset count s1 = Inr (spec_bytes (fst (specs ! i)) offset count, s3)"
    using GetColumnData_serves [OF s1(2) i(1,2), of offset count] i(3) assms(5) by auto
  have "unat (Segment_NumColumns s) = length specs"
    "Segment_NumRows s = of_nat (Max (insert 0 ((spec_rows \<circ> fst) ` set specs)))"
    using w(2) by (simp_all add: Segment_NumColumns_def Segment_NumRows_def s(3) header_copy_def final_header_def
        writer_holds_def writer_ok_def image_comp)
  with w(1) s(1) s1(1) s2 s3 show ?thesis by blast
qed

theorem segment_round_trip_witness:
  "\<exists>w s s1 s2 s3. bind_res (SegmentWriter_new True) (fold_res (\<lambda>(c, nulls). add_spec c nulls)
      [(Spec32 Plain [4, 5], [False, False]), (Spec64 Delta [7, 9], [False, True])]) = Inr w \<and>
    Segment_Open (Some (fst (Writer_Finish w))) = Inr s \<and>
    unat (Segment_NumColumns s) = 2 \<and> Segment_NumRows s = 2 \<and> Segment_PrefetchColumns [1, 0] s = Inr s1 \<and>
    Segment_GetColumn 1 s1 = Inr (Int64Column (column_of_values [7, 9]), s2) \<and>
    Segment_GetColumnData 1 1 1 s1 = Inr (bytes_of (9 :: 64 word), s3)"
proof -
  let ?specs = "[(Spec32 Plain [4, 5], [False, False]), (Spec64 Delta [7, 9], [False, True])]"
  have "\<forall>(c, nulls) \<in> set ?specs. spec_ok c \<and> spec_rows c \<le> length nulls"
    by (simp add: fixed_width_def in_srange_def)
  moreover have "36 + length ?specs * 136 + sum_list (map (length \<circ> spec_block \<circ> fst) ?specs) < 2 ^ 32" by simp
  moreover have "set [1, 0] \<subseteq> {..<length ?specs}" "1 < length ?specs" "1 + 1 \<le> spec_rows (fst (?specs ! 1))" by simp_all
  ultimately show ?thesis
    using segment_round_trip [of ?specs "[1, 0]" 1 1 1]
    by (simp del: add_spec.simps fold_res.simps add: numeral_2_eq_2)
qed

lemma indexes_at:
  assumes "w = AddBloomFilter i bf (AddZoneMap i zm w0)"
  shows "i < length (sw_zone_maps w)" "sw_zone_maps w ! i = zm"
    "i < length (sw_bloom_filters w)" "sw_bloom_filters w ! i = bf"
  by (simp_all add: assms AddZoneMap_def AddBloomFilter_def Let_def)

lemma index_image_lengths:
  "length (zone_map_image zm) = 8 + length (zm_entries zm) * 42"
  "length (bloom_image bf) = 16 + length (bf_bits bf) * 8"
  by (simp_all add: zone_map_image_def bloom_image_def length_concat comp_def sum_list_triv)

text \<open>A writer with one column, and the size of its file with both indexes.\<close>

lemma one_column_writer:
  assumes "spec_ok c"
  shows "\<exists>w. writer_holds w [c] \<and> sw_zone_maps w = [] \<and> sw_bloom_filters w = []"
proof -
  obtain w0 where w0: "SegmentWriter_new True = Inr w0" "writer_holds w0 []" using new_writer_holds by blast
  have "sw_zone_maps w0 = [] \<and> sw_bloom_filters w0 = []" using w0(1) by (auto simp: SegmentWriter_new_def)
  moreover obtain w where w: "add_spec c (replicate (spec_rows c) False) w0 = Inr w" "writer_holds w [c]"
    using add_spec_holds [OF w0(2), of c "replicate (spec_rows c) False"] assms by auto
  moreover have "sw_zone_maps w = sw_zone_maps w0 \<and> sw_bloom_filters w = sw_bloom_filters w0"
    using w(1) by (cases c) (auto simp: AddColumn_Int32_def AddColumn_Int64_def dest: AddColumn_indexes)
  ultimately show ?thesis by auto
qed

lemma indexed_file_size:
  assumes "writer_holds w0 [c]" and "w = AddBloomFilter 0 bf (AddZoneMap 0 zm w0)"
  shows "writer_holds w [c]"
    and "length (file_of w) \<le> 172 + length (spec_block c) + length (zone_map_image zm) + length (bloom_image bf)"
proof -
  show holds: "writer_holds w [c]"
    unfolding assms(2) by (rule index_keeps_holds(2) [OF index_keeps_holds(1) [OF assms(1)]])
  then have ok: "writer_ok w" and len: "length (sw_column_buffers w) = 1" and d: "data_block w 0 = spec_block c"
    by (simp_all add: writer_holds_def)
  have "length (piece w 0) \<le> length (spec_block c) + length (zone_map_image zm) + length (bloom_image bf)"
    using indexes_at [OF assms(2)] by (simp add: piece_def d zone_map_block_def bloom_block_def)
  moreover have "header_size w = 172" using ok len by (simp add: header_size_def writer_ok_def)
  ultimately show "length (file_of w) \<le> 172 + length (spec_block c) + length (zone_map_image zm) + length (bloom_image bf)"
    using length_file_of [OF ok] by (simp add: start_def len)
qed

text \<open>C8: A zone map with at least one block and a Bloom filter with at least one word, stored for a
  column of a well-formed writer, are read back unchanged by the reader of the finished file.\<close>

theorem segment_indexes_round_trip:
  assumes "writer_holds w0 cs" and "i < length cs" and "w = AddBloomFilter i bf (AddZoneMap i zm w0)"
    and "length (file_of w) < 2 ^ 32" and "0 < NumBlocks zm" and "zm_block_rows zm < 2 ^ 32"
    and "length (zm_entries zm) < 2 ^ 32" and "Bloom_inv bf" and "0 < Bloom_Size bf"
  shows "\<exists>r r1 r2. SegmentReader_new (Some (fst (Writer_Finish w))) = Inr r \<and>
    Reader_GetZoneMap i r = Inr (zm, r1) \<and> Reader_GetBloomFilter i r = Inr (bf, r2)"
proof -
  have h: "writer_holds w cs" using assms(1) by (simp add: assms(3) index_keeps_holds)
  have ok: "writer_ok w" and n: "i < length (sw_column_buffers w)"
    using h assms(2) by (simp_all add: writer_holds_def)
  have f: "fst (Writer_Finish w) = file_of w"
    using Writer_Finish_layout [OF ok] length_file_of [OF ok] assms(4) by (simp add: file_of_def)
  obtain r where r: "SegmentReader_new (Some (file_of w)) = Inr r" "reads_file r w"
    using open_reader [OF ok] unfolding reads_file_def by blast
  have "index_ok w i" "stored_zone_map w i = zm" "stored_bloom_filter w i = bf"
    using indexes_at [OF assms(3)] assms(5-9)
    by (simp_all add: index_ok_def stored_zone_map_def stored_bloom_filter_def)
  then show ?thesis
    using stored_indexes [OF ok assms(4) n r(2)] r(1) f by auto
qed

theorem segment_indexes_round_trip_witness:
  "\<exists>w r r1 r2. SegmentReader_new (Some (fst (Writer_Finish w))) = Inr r \<and>
    Reader_GetZoneMap 0 r = Inr (AddBlock ZoneMapEntry_default (ZoneMap_new 64), r1) \<and>
    Reader_GetBloomFilter 0 r = Inr (BloomFilter_new 64 1, r2)"
proof -
  let ?zm = "AddBlock ZoneMapEntry_default (ZoneMap_new 64)" and ?bf = "BloomFilter_new 64 1"
  let ?c = "Spec32 Plain [4]"
  obtain w1 where w1: "writer_holds w1 [?c]" using one_column_writer [of ?c] by (auto simp: fixed_width_def)
  let ?w = "AddBloomFilter 0 ?bf (AddZoneMap 0 ?zm w1)"
  have words: "num_words 64 = 1" by (simp add: num_words_def)
  have small: "length (file_of ?w) < 2 ^ 32"
    using indexed_file_size(2) [OF w1 refl, of ?bf ?zm]
    by (simp add: index_image_lengths AddBlock_def ZoneMap_new_def BloomFilter_new_def words)
  have "0 < NumBlocks ?zm" "zm_block_rows ?zm < 2 ^ 32" "length (zm_entries ?zm) < 2 ^ 32"
    by (simp_all add: NumBlocks_def AddBlock_def ZoneMap_new_def)
  moreover have "Bloom_inv ?bf" "0 < Bloom_Size ?bf"
    by (simp_all add: Bloom_inv_def BloomFilter_new_def Bloom_Size_def words)
  ultimately show ?thesis
    using segment_indexes_round_trip [of w1 "[?c]" 0 ?w ?bf ?zm] w1 small by auto
qed

text \<open>The reader's cache holds columns of the types in the header, and the handle's header agrees with it.\<close>

definition reader_typed :: "SegmentReader \<Rightarrow> bool" where
  "reader_typed r \<longleftrightarrow> (\<forall>i < length (sr_cached_columns r). \<forall>c. sr_cached_columns r ! i = Some c \<longrightarrow>
     i < length (sh_columns (sr_header r)) \<and> Column_Type c = cm_type (sh_columns (sr_header r) ! i))"

definition segment_typed :: "Segment \<Rightarrow> bool" where
  "segment_typed s \<longleftrightarrow> reader_typed (sg_reader s) \<and> (\<forall>c \<in> set (sg_column_cache s). c = None) \<and>
     map cm_type (sh_columns (sg_header s)) = map cm_type (sh_columns (sr_header (sg_reader s)))"

lemma decode_column_type: "decode_column m bs = Inr c \<Longrightarrow> Column_Type c = cm_type m"
  by (cases "cm_type m") (auto simp: decode_column_def of_modelled_def bind_res_Inr_iff split: option.splits)

lemma read_block_keeps: "read_block offset sz r = (bs, r') \<Longrightarrow> sr_header r' = sr_header r"
  by (auto simp: read_block_def split: prod.splits)

lemma Reader_GetColumn_typed:
  assumes "reader_typed r" and "Reader_GetColumn i r = Inr (c, r')"
  shows "reader_typed r' \<and> sr_header r' = sr_header r \<and> i < length (sh_columns (sr_header r)) \<and>
    Column_Type c = cm_type (sh_columns (sr_header r) ! i)"
proof (cases "if i < length (sr_cached_columns r) then sr_cached_columns r ! i else None")
  case (Some c')
  then show ?thesis using assms by (auto simp: Reader_GetColumn_def reader_typed_def split: if_splits)
next
  case None
  let ?cached = "if length (sr_cached_columns r) \<le> i then resize None (i + 1) (sr_cached_columns r) else sr_cached_columns r"
  obtain m where m0: "nth_res (sh_columns (sr_header r)) i = Inr m"
    using assms(2) by (auto simp: Reader_GetColumn_def None Let_def bind_res_Inr_iff)
  obtain bs r1 where rb: "read_block (cm_offset m) (cm_size m) r = (bs, r1)" by fastforce
  have m: "nth_res (sh_columns (sr_header r)) i = Inr m" "read_block (cm_offset m) (cm_size m) r = (bs, r1)"
    "decode_column m bs = Inr c" "r' = r1\<lparr>sr_cached_columns := ?cached[i := Some c]\<rparr>"
    using assms(2) m0 rb by (auto simp: Reader_GetColumn_def None Let_def bind_res_Inr_iff)
  have i: "i < length (sh_columns (sr_header r))" "m = sh_columns (sr_header r) ! i"
    using m(1) by (auto simp: nth_res_def split: if_splits)
  have h: "sr_header r1 = sr_header r" by (rule read_block_keeps [OF m(2)])
  have c: "Column_Type c = cm_type m" by (rule decode_column_type [OF m(3)])
  have "k < length (sh_columns (sr_header r)) \<and> Column_Type d = cm_type (sh_columns (sr_header r) ! k)"
    if k: "k < length ?cached" "?cached[i := Some c] ! k = Some d" for k d
  proof (cases "k = i")
    case True
    then show ?thesis using k c i by simp
  next
    case False
    then have "k < length (sr_cached_columns r) \<and> sr_cached_columns r ! k = Some d"
      using k by (auto simp: resize_def nth_append split: if_splits)
    then show ?thesis using assms(1) by (auto simp: reader_typed_def)
  qed
  then show ?thesis using i c by (auto simp: m(4) h reader_typed_def)
qed

text \<open>C9: a column that a segment delivers always has the type its header names, whatever the bytes of the
  file and whatever was cached before, and the segment stays well typed; every opened file gives a well
  typed segment. So the cast of \<^verbatim>\<open>GetColumnData\<close> is to the type of the object.\<close>

theorem segment_columns_typed:
  assumes "Segment_Open file = Inr s0" and "Segment_PrefetchColumns cached s0 = Inr s"
    and "Segment_GetColumn i s = Inr (c, s')"
  shows "segment_typed s' \<and> Segment_ColumnType s i = Inr (Column_Type c) \<and> Segment_ColumnType s' i = Inr (Column_Type c)"
proof -
  have step: "segment_typed t' \<and> Segment_ColumnType t j = Inr (Column_Type d) \<and> sg_header t' = sg_header t"
    if t: "segment_typed t" and g: "Segment_GetColumn j t = Inr (d, t')" for t t' j d
  proof -
    have "(if j < length (sg_column_cache t) then sg_column_cache t ! j else None) = None"
      using t by (auto simp: segment_typed_def)
    then obtain r where r: "Reader_GetColumn j (sg_reader t) = Inr (d, r)" "t' = t\<lparr>sg_reader := r\<rparr>"
      using g by (auto simp: Segment_GetColumn_def bind_res_Inr_iff)
    note typed = Reader_GetColumn_typed [OF _ r(1)]
    have types: "map cm_type (sh_columns (sg_header t)) = map cm_type (sh_columns (sr_header (sg_reader t)))"
      using t by (simp add: segment_typed_def)
    then have len: "length (sh_columns (sg_header t)) = length (sh_columns (sr_header (sg_reader t)))"
      by (rule map_eq_imp_length_eq)
    have "cm_type (sh_columns (sg_header t) ! j) = cm_type (sh_columns (sr_header (sg_reader t)) ! j)"
      if "j < length (sh_columns (sr_header (sg_reader t)))"
      using arg_cong [OF types, of "\<lambda>ts. ts ! j"] that len by simp
    then show ?thesis using typed t len by (auto simp: r(2) segment_typed_def Segment_ColumnType_def nth_res_def)
  qed
  have "segment_typed s0"
    using assms(1) by (auto simp: Segment_Open_def Segment_new_def bind_res_Inr_iff segment_typed_def reader_typed_def
        header_copy_def SegmentReader_new_def split: option.splits)
  then have "segment_typed s" using assms(2)
  proof (induction cached arbitrary: s0)
    case (Cons j js)
    obtain d t where t: "Segment_GetColumn j s0 = Inr (d, t)" "Segment_PrefetchColumns js t = Inr s"
      using Cons.prems(2) by (auto simp: Segment_PrefetchColumns_def bind_res_Inr_iff)
    then show ?case using Cons.IH [OF _ t(2)] step [OF Cons.prems(1) t(1)] by blast
  qed (simp add: Segment_PrefetchColumns_def)
  from step [OF this assms(3)] show ?thesis by (auto simp: Segment_ColumnType_def)
qed

theorem segment_columns_typed_witness:
  "\<exists>s s' c. Segment_GetColumn 0 s = Inr (c, s') \<and> Segment_ColumnType s 0 = Inr (Column_Type c)"
proof -
  let ?c = "Spec32 Plain [4, 5]"
  let ?specs = "[(?c, [False, False])]"
  have "\<forall>(c, nulls) \<in> set ?specs. spec_ok c \<and> spec_rows c \<le> length nulls" by (simp add: fixed_width_def)
  then obtain f s where s: "Segment_Open (Some f) = Inr s" "segment_serves s [?c]"
    using written_segment [of ?specs] by auto
  obtain s' where g: "Segment_GetColumn 0 s = Inr (spec_column ?c, s')"
    using Segment_GetColumn_serves [OF s(2), of 0] by (auto simp: fixed_width_def)
  have "Segment_PrefetchColumns [] s = Inr s" by (simp add: Segment_PrefetchColumns_def)
  from segment_columns_typed [OF s(1) this g] g show ?thesis by blast
qed

end
