(* ===== verification/Predicates.thy ===== *)
theory Predicates
  imports ZoneMaps BloomFilters
begin

text \<open>
  \<^verbatim>\<open>include/columnar/predicate.h\<close>: the bytecode program, the predicate that builds it, the stack
  interpreter with its deferred AND and OR, and the two pruning tests on zone maps and Bloom
  filters. Constants and columns are 64-bit integers, as the interpreter reads them.
\<close>

section \<open>Programs\<close>

datatype OpCode =
    OpNop | LoadConst | LoadColumn | CompareEq | CompareNe | CompareLt | CompareLe | CompareGt
  | CompareGe | OpIsNull | OpIsNotNull | OpAnd | OpOr | OpNot | BranchIfFalse | BranchIfTrue
  | OpReturn | LoadMask | AndMask | OrMask | NotMask | PopCount | SetResult

record Instruction =
  ins_op :: OpCode
  operand_a :: u32
  operand_b :: u32
  operand_c :: u32

record BytecodeProgram =
  bp_instructions :: "Instruction list"
  bp_constants :: "u64 list"
  bp_column_indices :: "nat list"

definition BytecodeProgram_empty :: BytecodeProgram where
  "BytecodeProgram_empty = \<lparr>bp_instructions = [], bp_constants = [], bp_column_indices = []\<rparr>"

text \<open>Both overloads of \<^verbatim>\<open>AddConstant\<close> push the 64 bits of their argument.\<close>

definition AddConstant :: "u64 \<Rightarrow> BytecodeProgram \<Rightarrow> nat \<times> BytecodeProgram" where
  "AddConstant value p =
     (let cs = bp_constants p @ [value] in (length cs - 1, p\<lparr>bp_constants := cs\<rparr>))"

definition Program_AddColumn :: "nat \<Rightarrow> BytecodeProgram \<Rightarrow> nat \<times> BytecodeProgram" where
  "Program_AddColumn col_idx p =
     (let cs = bp_column_indices p @ [col_idx] in (length cs - 1, p\<lparr>bp_column_indices := cs\<rparr>))"

text \<open>\<^verbatim>\<open>Emit\<close> takes its operands as \<^verbatim>\<open>uint32_t\<close>; the callers pass \<^verbatim>\<open>size_t\<close> indices.\<close>

definition Emit :: "OpCode \<Rightarrow> nat \<Rightarrow> BytecodeProgram \<Rightarrow> BytecodeProgram" where
  "Emit op a p = p\<lparr>bp_instructions := bp_instructions p @
     [\<lparr>ins_op = op, operand_a = of_nat a, operand_b = 0, operand_c = 0\<rparr>]\<rparr>"

section \<open>Predicates\<close>

record Predicate =
  pr_program :: BytecodeProgram
  pr_column_predicates :: "PredicateType list"

definition Predicate_empty :: Predicate where
  "Predicate_empty = \<lparr>pr_program = BytecodeProgram_empty, pr_column_predicates = []\<rparr>"

text \<open>The common body of the four comparison methods, for integer columns.\<close>

definition compare_with :: "PredicateType \<Rightarrow> OpCode \<Rightarrow> nat \<Rightarrow> 'a::len word \<Rightarrow> Predicate \<Rightarrow> Predicate" where
  "compare_with pt op column value p =
     (let (const_idx, prog1) = AddConstant (scast value) (pr_program p);
          (col_idx, prog2) = Program_AddColumn column prog1
      in p\<lparr>pr_column_predicates := pr_column_predicates p @ [pt],
           pr_program := Emit op 0 (Emit LoadConst const_idx (Emit LoadColumn col_idx prog2))\<rparr>)"

definition Predicate_Equal :: "nat \<Rightarrow> 'a::len word \<Rightarrow> Predicate \<Rightarrow> Predicate" where
  "Predicate_Equal = compare_with Equal CompareEq"

definition Predicate_NotEqual :: "nat \<Rightarrow> 'a::len word \<Rightarrow> Predicate \<Rightarrow> Predicate" where
  "Predicate_NotEqual = compare_with NotEqual CompareNe"

definition Predicate_LessThan :: "nat \<Rightarrow> 'a::len word \<Rightarrow> Predicate \<Rightarrow> Predicate" where
  "Predicate_LessThan = compare_with LessThan CompareLt"

definition Predicate_GreaterThan :: "nat \<Rightarrow> 'a::len word \<Rightarrow> Predicate \<Rightarrow> Predicate" where
  "Predicate_GreaterThan = compare_with GreaterThan CompareGt"

definition null_test :: "PredicateType \<Rightarrow> OpCode \<Rightarrow> nat \<Rightarrow> Predicate \<Rightarrow> Predicate" where
  "null_test pt op column p =
     (let (col_idx, prog1) = Program_AddColumn column (pr_program p)
      in p\<lparr>pr_column_predicates := pr_column_predicates p @ [pt],
           pr_program := Emit op 0 (Emit LoadColumn col_idx prog1)\<rparr>)"

definition Predicate_IsNull :: "nat \<Rightarrow> Predicate \<Rightarrow> Predicate" where
  "Predicate_IsNull = null_test IsNull OpIsNull"

definition Predicate_IsNotNull :: "nat \<Rightarrow> Predicate \<Rightarrow> Predicate" where
  "Predicate_IsNotNull = null_test IsNotNull OpIsNotNull"

definition Predicate_And :: "Predicate \<Rightarrow> Predicate" where
  "Predicate_And p = p\<lparr>pr_program := Emit OpAnd 0 (pr_program p)\<rparr>"

definition Predicate_Or :: "Predicate \<Rightarrow> Predicate" where
  "Predicate_Or p = p\<lparr>pr_program := Emit OpOr 0 (pr_program p)\<rparr>"

definition Predicate_Not :: "Predicate \<Rightarrow> Predicate" where
  "Predicate_Not p = p\<lparr>pr_program := Emit OpNot 0 (pr_program p)\<rparr>"

definition MakeEq :: "nat \<Rightarrow> 'a::len word \<Rightarrow> Predicate" where
  "MakeEq col val = Predicate_Equal col val Predicate_empty"

section \<open>The interpreter\<close>

text \<open>The stack has its top first.\<close>

record Interp =
  stack :: "u64 list"
  pending_and :: bool
  pending_or :: bool

definition Interp_clear :: Interp where
  "Interp_clear = \<lparr>stack = [], pending_and = False, pending_or = False\<rparr>"

definition of_flag :: "bool \<Rightarrow> u64" where
  "of_flag b = (if b then 1 else 0)"

fun fold_top :: "(bool \<Rightarrow> bool \<Rightarrow> bool) \<Rightarrow> u64 list \<Rightarrow> u64 list" where
  "fold_top f (b # a # s) = of_flag (f (a \<noteq> 0) (b \<noteq> 0)) # s"
| "fold_top f s = s"

definition FoldPending :: "Interp \<Rightarrow> Interp" where
  "FoldPending st =
     (let st1 = (if pending_and st \<and> length (stack st) \<ge> 2
                 then st\<lparr>pending_and := False, stack := fold_top (\<and>) (stack st)\<rparr> else st)
      in if pending_or st1 \<and> length (stack st1) \<ge> 2
         then st1\<lparr>pending_or := False, stack := fold_top (\<or>) (stack st1)\<rparr> else st1)"

text \<open>\<^verbatim>\<open>back()\<close> and \<^verbatim>\<open>pop_back()\<close>.\<close>

fun pop :: "Interp \<Rightarrow> (u64 \<times> Interp) res" where
  "pop st = (case stack st of [] \<Rightarrow> Inl EmptyStack | a # s \<Rightarrow> Inr (a, st\<lparr>stack := s\<rparr>))"

definition push :: "u64 \<Rightarrow> Interp \<Rightarrow> Interp" where
  "push a st = st\<lparr>stack := a # stack st\<rparr>"

definition binary :: "(u64 \<Rightarrow> u64 \<Rightarrow> u64) \<Rightarrow> Interp \<Rightarrow> Interp res" where
  "binary f st =
     bind_res (pop st) (\<lambda>(b, st1). bind_res (pop st1) (\<lambda>(a, st2). Inr (push (f a b) st2)))"

definition compare :: "(u64 \<Rightarrow> u64 \<Rightarrow> bool) \<Rightarrow> Interp \<Rightarrow> Interp res" where
  "compare f st = bind_res (binary (\<lambda>a b. of_flag (f a b)) st) (\<lambda>st. Inr (FoldPending st))"

definition unary :: "(u64 \<Rightarrow> u64) \<Rightarrow> Interp \<Rightarrow> Interp res" where
  "unary f st = bind_res (pop st) (\<lambda>(a, st1). Inr (push (f a) st1))"

definition load_cell :: "BytecodeProgram \<Rightarrow> u64 list list \<Rightarrow> nat \<Rightarrow> u32 \<Rightarrow> Interp \<Rightarrow> Interp res" where
  "load_cell prog columns row a st =
     bind_res (nth_res (bp_column_indices prog) (unat a)) (\<lambda>col.
     bind_res (nth_res columns col) (\<lambda>data.
     bind_res (nth_res data row) (\<lambda>v. Inr (push v st))))"

text \<open>An instruction leaves the interpreter running or returns.\<close>

datatype outcome = Running Interp | Returned bool

definition continue :: "Interp res \<Rightarrow> outcome res" where
  "continue r = bind_res r (\<lambda>st. Inr (Running st))"

definition step :: "BytecodeProgram \<Rightarrow> u64 list list \<Rightarrow> nat \<Rightarrow> Instruction \<Rightarrow> Interp \<Rightarrow> outcome res" where
  "step prog columns row i st =
     (case ins_op i of
        LoadColumn \<Rightarrow> continue (load_cell prog columns row (operand_a i) st)
      | LoadConst \<Rightarrow> continue (bind_res (nth_res (bp_constants prog) (unat (operand_a i)))
                                 (\<lambda>v. Inr (push v st)))
      | CompareEq \<Rightarrow> continue (compare (=) st)
      | CompareNe \<Rightarrow> continue (compare (\<noteq>) st)
      | CompareLt \<Rightarrow> continue (compare (<s) st)
      | CompareLe \<Rightarrow> continue (compare (\<le>s) st)
      | CompareGt \<Rightarrow> continue (compare (\<lambda>a b. b <s a) st)
      | CompareGe \<Rightarrow> continue (compare (\<lambda>a b. b \<le>s a) st)
      | OpIsNull \<Rightarrow> continue (unary (\<lambda>a. of_flag (a = 0)) st)
      | OpIsNotNull \<Rightarrow> continue (unary (\<lambda>a. of_flag (a \<noteq> 0)) st)
      | OpAnd \<Rightarrow> Inr (Running (if length (stack st) \<ge> 2
                   then st\<lparr>stack := fold_top (\<and>) (stack st)\<rparr> else st\<lparr>pending_and := True\<rparr>))
      | OpOr \<Rightarrow> Inr (Running (if length (stack st) \<ge> 2
                   then st\<lparr>stack := fold_top (\<or>) (stack st)\<rparr> else st\<lparr>pending_or := True\<rparr>))
      | OpNot \<Rightarrow> continue (unary (\<lambda>a. of_flag (a = 0)) st)
      | OpReturn \<Rightarrow> bind_res (pop st) (\<lambda>(a, _). Inr (Returned (a \<noteq> 0)))
      | LoadMask \<Rightarrow> continue (load_cell prog columns row (operand_a i) st)
      | AndMask \<Rightarrow> continue (binary (\<lambda>a b. a AND b) st)
      | OrMask \<Rightarrow> continue (binary (\<lambda>a b. a OR b) st)
      | BranchIfFalse \<Rightarrow> continue (bind_res (pop st) (\<lambda>(_, st1). Inr st1))
      | _ \<Rightarrow> Inr (Running st))"

fun run :: "BytecodeProgram \<Rightarrow> u64 list list \<Rightarrow> nat \<Rightarrow> Instruction list \<Rightarrow> Interp \<Rightarrow> bool res" where
  "run prog columns row [] st = Inr (stack st \<noteq> [] \<and> hd (stack st) \<noteq> 0)"
| "run prog columns row (i # is) st =
     bind_res (step prog columns row i st) (\<lambda>out.
       case out of Running st1 \<Rightarrow> run prog columns row is st1 | Returned b \<Rightarrow> Inr b)"

definition EvaluateRow :: "BytecodeProgram \<Rightarrow> u64 list list \<Rightarrow> nat \<Rightarrow> bool res" where
  "EvaluateRow prog columns row = run prog columns row (bp_instructions prog) Interp_clear"

definition Execute :: "BytecodeProgram \<Rightarrow> u64 list list \<Rightarrow> nat \<Rightarrow> bool list res" where
  "Execute prog columns count = map_res (EvaluateRow prog columns) [0..<count]"

section \<open>Pruning tests\<close>

definition column_of :: "Predicate \<Rightarrow> nat \<Rightarrow> nat" where
  "column_of p i = (if i < length (bp_column_indices (pr_program p))
                    then bp_column_indices (pr_program p) ! i else 0)"

text \<open>One block of one zone map does not exclude predicate \<open>i\<close>.\<close>

definition entry_allows :: "Predicate \<Rightarrow> nat \<Rightarrow> ZoneMapEntry \<Rightarrow> bool" where
  "entry_allows p i e =
     (let pt = pr_column_predicates p ! i; cs = bp_constants (pr_program p)
      in if ze_row_count e = 0 then True
         else if pt = IsNull then True
         else if pt = IsNotNull then ze_row_count e > ze_null_count e
         else if \<not> ze_has_min_max e then True
         else if i < length cs
         then range_can_match pt (sint (ze_min_int e)) (sint (ze_max_int e)) (sint (cs ! i))
         else True)"

definition zone_map_at :: "ZoneMap option list \<Rightarrow> nat \<Rightarrow> ZoneMap option" where
  "zone_map_at zms i = (if i < length zms then zms ! i else None)"

definition CanMatchZoneMap :: "ZoneMap option list \<Rightarrow> Predicate \<Rightarrow> bool" where
  "CanMatchZoneMap zone_maps p =
     list_all (\<lambda>i. case zone_map_at zone_maps i of None \<Rightarrow> True
                   | Some _ \<Rightarrow>
                       (case zone_map_at zone_maps (column_of p i) of None \<Rightarrow> True
                        | Some zm \<Rightarrow> list_all (entry_allows p i) (zm_entries zm)))
       [0..<length (pr_column_predicates p)]"

fun CanMatchBloom_loop :: "BloomFilter option list \<Rightarrow> Predicate \<Rightarrow> nat list \<Rightarrow> bool res" where
  "CanMatchBloom_loop blooms p [] = Inr True"
| "CanMatchBloom_loop blooms p (i # is) =
     (let col = column_of p i; cs = bp_constants (pr_program p)
      in if pr_column_predicates p ! i \<noteq> Equal \<or> col \<ge> length blooms \<or> i \<ge> length cs
         then CanMatchBloom_loop blooms p is
         else case blooms ! col of
                None \<Rightarrow> CanMatchBloom_loop blooms p is
              | Some bf \<Rightarrow> bind_res (Bloom_MightContain (cs ! i) bf) (\<lambda>b.
                             if \<not> b then Inr False else CanMatchBloom_loop blooms p is))"

definition CanMatchBloom :: "BloomFilter option list \<Rightarrow> Predicate \<Rightarrow> bool res" where
  "CanMatchBloom blooms p = CanMatchBloom_loop blooms p [0..<length (pr_column_predicates p)]"

section \<open>The builder\<close>

text \<open>\<^verbatim>\<open>PredicateBuilder\<close> forwards to the predicate it owns, until \<^verbatim>\<open>Build\<close> moves it out.\<close>

record PredicateBuilder =
  pb_current :: "Predicate option"

definition PredicateBuilder_new :: PredicateBuilder where
  "PredicateBuilder_new = \<lparr>pb_current = Some Predicate_empty\<rparr>"

definition Builder_apply :: "(Predicate \<Rightarrow> Predicate) \<Rightarrow> PredicateBuilder \<Rightarrow> PredicateBuilder res" where
  "Builder_apply f b =
     (case pb_current b of None \<Rightarrow> Inl NullDeref | Some p \<Rightarrow> Inr (b\<lparr>pb_current := Some (f p)\<rparr>))"

definition Builder_Build :: "PredicateBuilder \<Rightarrow> Predicate option \<times> PredicateBuilder" where
  "Builder_Build b = (pb_current b, b\<lparr>pb_current := None\<rparr>)"

section \<open>What a predicate means\<close>

text \<open>Expressions over the tests the API offers, and their value on a row \<open>\<rho>\<close> of column values.
  The null tests compare the stored value with zero, as the interpreter does.\<close>

datatype pexp =
    PEq nat u64 | PNe nat u64 | PLt nat u64 | PGt nat u64
  | PNull nat | PNotNull nat
  | PAnd pexp pexp | POr pexp pexp | PNot pexp

fun eval_pexp :: "(nat \<Rightarrow> u64) \<Rightarrow> pexp \<Rightarrow> bool" where
  "eval_pexp \<rho> (PEq c v) = (\<rho> c = v)"
| "eval_pexp \<rho> (PNe c v) = (\<rho> c \<noteq> v)"
| "eval_pexp \<rho> (PLt c v) = (sint (\<rho> c) < sint v)"
| "eval_pexp \<rho> (PGt c v) = (sint v < sint (\<rho> c))"
| "eval_pexp \<rho> (PNull c) = (\<rho> c = 0)"
| "eval_pexp \<rho> (PNotNull c) = (\<rho> c \<noteq> 0)"
| "eval_pexp \<rho> (PAnd a b) = (eval_pexp \<rho> a \<and> eval_pexp \<rho> b)"
| "eval_pexp \<rho> (POr a b) = (eval_pexp \<rho> a \<or> eval_pexp \<rho> b)"
| "eval_pexp \<rho> (PNot a) = (\<not> eval_pexp \<rho> a)"

text \<open>The calls that build an expression with each operator after its operands.\<close>

fun build_postfix :: "pexp \<Rightarrow> Predicate \<Rightarrow> Predicate" where
  "build_postfix (PEq c v) p = Predicate_Equal c v p"
| "build_postfix (PNe c v) p = Predicate_NotEqual c v p"
| "build_postfix (PLt c v) p = Predicate_LessThan c v p"
| "build_postfix (PGt c v) p = Predicate_GreaterThan c v p"
| "build_postfix (PNull c) p = Predicate_IsNull c p"
| "build_postfix (PNotNull c) p = Predicate_IsNotNull c p"
| "build_postfix (PAnd a b) p = Predicate_And (build_postfix b (build_postfix a p))"
| "build_postfix (POr a b) p = Predicate_Or (build_postfix b (build_postfix a p))"
| "build_postfix (PNot a) p = Predicate_Not (build_postfix a p)"

text \<open>The calls of the infix style: a comparison, then operators each followed by its right
  operand, or a negation of what has been built so far.\<close>

datatype link = LAnd pexp | LOr pexp | LNot

fun is_comparison :: "pexp \<Rightarrow> bool" where
  "is_comparison (PEq _ _) = True"
| "is_comparison (PNe _ _) = True"
| "is_comparison (PLt _ _) = True"
| "is_comparison (PGt _ _) = True"
| "is_comparison _ = False"

fun link_ok :: "link \<Rightarrow> bool" where
  "link_ok (LAnd e) = is_comparison e"
| "link_ok (LOr e) = is_comparison e"
| "link_ok LNot = True"

fun build_link :: "link \<Rightarrow> Predicate \<Rightarrow> Predicate" where
  "build_link (LAnd e) p = build_postfix e (Predicate_And p)"
| "build_link (LOr e) p = build_postfix e (Predicate_Or p)"
| "build_link LNot p = Predicate_Not p"

definition build_infix :: "pexp \<Rightarrow> link list \<Rightarrow> Predicate" where
  "build_infix e ls = fold build_link ls (build_postfix e Predicate_empty)"

text \<open>Links bind to the left, with no precedence between them.\<close>

fun eval_link :: "(nat \<Rightarrow> u64) \<Rightarrow> link \<Rightarrow> bool \<Rightarrow> bool" where
  "eval_link \<rho> (LAnd e) b = (b \<and> eval_pexp \<rho> e)"
| "eval_link \<rho> (LOr e) b = (b \<or> eval_pexp \<rho> e)"
| "eval_link \<rho> LNot b = (\<not> b)"

section \<open>The code of an expression\<close>

definition ins :: "OpCode \<Rightarrow> nat \<Rightarrow> Instruction" where
  "ins op a = \<lparr>ins_op = op, operand_a = of_nat a, operand_b = 0, operand_c = 0\<rparr>"

fun p_consts :: "pexp \<Rightarrow> u64 list" where
  "p_consts (PEq c v) = [v]" | "p_consts (PNe c v) = [v]"
| "p_consts (PLt c v) = [v]" | "p_consts (PGt c v) = [v]"
| "p_consts (PNull c) = []" | "p_consts (PNotNull c) = []"
| "p_consts (PAnd a b) = p_consts a @ p_consts b" | "p_consts (POr a b) = p_consts a @ p_consts b"
| "p_consts (PNot a) = p_consts a"

fun p_cols :: "pexp \<Rightarrow> nat list" where
  "p_cols (PEq c v) = [c]" | "p_cols (PNe c v) = [c]"
| "p_cols (PLt c v) = [c]" | "p_cols (PGt c v) = [c]"
| "p_cols (PNull c) = [c]" | "p_cols (PNotNull c) = [c]"
| "p_cols (PAnd a b) = p_cols a @ p_cols b" | "p_cols (POr a b) = p_cols a @ p_cols b"
| "p_cols (PNot a) = p_cols a"

fun p_code :: "nat \<Rightarrow> nat \<Rightarrow> pexp \<Rightarrow> Instruction list" where
  "p_code k c (PEq _ _) = [ins LoadColumn c, ins LoadConst k, ins CompareEq 0]"
| "p_code k c (PNe _ _) = [ins LoadColumn c, ins LoadConst k, ins CompareNe 0]"
| "p_code k c (PLt _ _) = [ins LoadColumn c, ins LoadConst k, ins CompareLt 0]"
| "p_code k c (PGt _ _) = [ins LoadColumn c, ins LoadConst k, ins CompareGt 0]"
| "p_code k c (PNull _) = [ins LoadColumn c, ins OpIsNull 0]"
| "p_code k c (PNotNull _) = [ins LoadColumn c, ins OpIsNotNull 0]"
| "p_code k c (PAnd a b) =
     p_code k c a @ p_code (k + length (p_consts a)) (c + length (p_cols a)) b @ [ins OpAnd 0]"
| "p_code k c (POr a b) =
     p_code k c a @ p_code (k + length (p_consts a)) (c + length (p_cols a)) b @ [ins OpOr 0]"
| "p_code k c (PNot a) = p_code k c a @ [ins OpNot 0]"

lemmas builder_defs = Predicate_Equal_def Predicate_NotEqual_def Predicate_LessThan_def
  Predicate_GreaterThan_def Predicate_IsNull_def Predicate_IsNotNull_def Predicate_And_def
  Predicate_Or_def Predicate_Not_def compare_with_def null_test_def AddConstant_def
  Program_AddColumn_def Emit_def ins_def

definition extend_program ::
  "Instruction list \<Rightarrow> u64 list \<Rightarrow> nat list \<Rightarrow> BytecodeProgram \<Rightarrow> BytecodeProgram" where
  "extend_program is ks cs p =
     \<lparr>bp_instructions = bp_instructions p @ is, bp_constants = bp_constants p @ ks,
      bp_column_indices = bp_column_indices p @ cs\<rparr>"

lemma extend_program_extend:
  "extend_program is' ks' cs' (extend_program is ks cs p) =
     extend_program (is @ is') (ks @ ks') (cs @ cs') p"
  by (simp add: extend_program_def)

lemma extend_program_sel [simp]:
  "bp_instructions (extend_program is ks cs p) = bp_instructions p @ is"
  "bp_constants (extend_program is ks cs p) = bp_constants p @ ks"
  "bp_column_indices (extend_program is ks cs p) = bp_column_indices p @ cs"
  by (simp_all add: extend_program_def)

lemma Predicate_And_program [simp]:
  "pr_program (Predicate_And p) = extend_program [ins OpAnd 0] [] [] (pr_program p)"
  "pr_program (Predicate_Or p) = extend_program [ins OpOr 0] [] [] (pr_program p)"
  "pr_program (Predicate_Not p) = extend_program [ins OpNot 0] [] [] (pr_program p)"
  by (cases "pr_program p"; simp add: builder_defs extend_program_def)+

lemma compare_with_program [simp]:
  "pr_program (compare_with pt op col v p) =
     extend_program [ins LoadColumn (length (bp_column_indices (pr_program p))),
       ins LoadConst (length (bp_constants (pr_program p))), ins op 0] [scast v] [col] (pr_program p)"
  by (simp add: builder_defs extend_program_def Let_def)

lemma null_test_program [simp]:
  "pr_program (null_test pt op col p) =
     extend_program [ins LoadColumn (length (bp_column_indices (pr_program p))), ins op 0] [] [col]
       (pr_program p)"
  by (cases "pr_program p") (simp add: builder_defs extend_program_def Let_def)

lemma build_postfix_program:
  "pr_program (build_postfix e p) =
     extend_program (p_code (length (bp_constants (pr_program p)))
         (length (bp_column_indices (pr_program p))) e) (p_consts e) (p_cols e) (pr_program p)"
  by (induction e arbitrary: p)
    (simp_all add: extend_program_extend Predicate_Equal_def Predicate_NotEqual_def
      Predicate_LessThan_def Predicate_GreaterThan_def Predicate_IsNull_def Predicate_IsNotNull_def)

section \<open>Facts on running the code of an expression\<close>

text \<open>The program holds the constants and columns of \<open>e\<close> from positions \<open>k\<close> and \<open>c\<close> on.\<close>

definition holds_at :: "BytecodeProgram \<Rightarrow> nat \<Rightarrow> nat \<Rightarrow> pexp \<Rightarrow> bool" where
  "holds_at prog k c e \<longleftrightarrow>
     length (bp_constants prog) \<le> 2 ^ 32 \<and> length (bp_column_indices prog) \<le> 2 ^ 32 \<and>
     (\<exists>pre post. bp_constants prog = pre @ p_consts e @ post \<and> length pre = k) \<and>
     (\<exists>pre post. bp_column_indices prog = pre @ p_cols e @ post \<and> length pre = c)"

definition row_of :: "u64 list list \<Rightarrow> nat \<Rightarrow> nat \<Rightarrow> u64" where
  "row_of columns row c = columns ! c ! row"

definition row_ok :: "u64 list list \<Rightarrow> nat \<Rightarrow> pexp \<Rightarrow> bool" where
  "row_ok columns row e \<longleftrightarrow> (\<forall>c \<in> set (p_cols e). c < length columns \<and> row < length (columns ! c))"

lemma holds_at_left:
  "holds_at prog k c (PAnd a b) \<Longrightarrow> holds_at prog k c a"
  "holds_at prog k c (POr a b) \<Longrightarrow> holds_at prog k c a"
  "holds_at prog k c (PNot a) \<Longrightarrow> holds_at prog k c a"
  by (fastforce simp: holds_at_def)+

lemma holds_at_right:
  "holds_at prog k c (PAnd a b) \<or> holds_at prog k c (POr a b) \<Longrightarrow>
     holds_at prog (k + length (p_consts a)) (c + length (p_cols a)) b"
  unfolding holds_at_def
  by (elim disjE conjE exE; intro conjI; (assumption | metis append.assoc length_append
        p_consts.simps(7,8) p_cols.simps(7,8)))

lemma of_flag_nonzero [simp]: "of_flag b \<noteq> 0 \<longleftrightarrow> b" "of_flag b = 0 \<longleftrightarrow> \<not> b"
  by (simp_all add: of_flag_def)

lemma holds_at_col:
  assumes "holds_at prog k c e" and "p_cols e = [col]" and "c < 2 ^ 32"
  shows "nth_res (bp_column_indices prog) (unat (of_nat c :: u32)) = Inr col"
  using assms by (auto simp: holds_at_def nth_res_def unat_of_nat)

lemma holds_at_const:
  assumes "holds_at prog k c e" and "p_consts e = [v]" and "k < 2 ^ 32"
  shows "nth_res (bp_constants prog) (unat (of_nat k :: u32)) = Inr v"
  using assms by (auto simp: holds_at_def nth_res_def unat_of_nat)

lemma holds_at_small:
  "holds_at prog k c e \<Longrightarrow> p_cols e \<noteq> [] \<Longrightarrow> c < 2 ^ 32"
  "holds_at prog k c e \<Longrightarrow> p_consts e \<noteq> [] \<Longrightarrow> k < 2 ^ 32"
proof -
  have "n < m" if "length (pre @ xs @ post) \<le> m" "length pre = n" "xs \<noteq> []"
    for pre xs post :: "'b list" and n m
  proof -
    have "0 < length xs" using that(3) by simp
    moreover have "length pre + (length xs + length post) \<le> m" using that(1) by simp
    ultimately show ?thesis using that(2) by linarith
  qed
  then show "holds_at prog k c e \<Longrightarrow> p_cols e \<noteq> [] \<Longrightarrow> c < 2 ^ 32"
    and "holds_at prog k c e \<Longrightarrow> p_consts e \<noteq> [] \<Longrightarrow> k < 2 ^ 32"
    unfolding holds_at_def by metis+
qed

lemma load_column:
  assumes "holds_at prog k c e" and "p_cols e = [col]" and "row_ok columns row e"
  shows "step prog columns row (ins LoadColumn c) st = Inr (Running (push (row_of columns row col) st))"
proof -
  have "c < 2 ^ 32" using holds_at_small(1) [OF assms(1)] assms(2) by simp
  then show ?thesis
    using holds_at_col [OF assms(1,2)] assms(2,3)
    by (simp add: step_def ins_def load_cell_def continue_def row_ok_def row_of_def nth_res_def
        split: if_splits)
qed

lemma load_const:
  assumes "holds_at prog k c e" and "p_consts e = [v]"
  shows "step prog columns row (ins LoadConst k) st = Inr (Running (push v st))"
proof -
  have "k < 2 ^ 32" using holds_at_small(2) [OF assms(1)] assms(2) by simp
  then show ?thesis
    using holds_at_const [OF assms] by (simp add: step_def ins_def continue_def)
qed

lemma compare_push [simp]:
  "compare f (push b (push a st)) = Inr (FoldPending (push (of_flag (f a b)) st))"
  and unary_push [simp]: "unary g (push a st) = Inr (push (g a) st)"
  by (simp_all add: compare_def binary_def unary_def push_def)

lemma stack_push [simp]: "stack (push a st) = a # stack st"
  and pending_push [simp]: "pending_and (push a st) = pending_and st" "pending_or (push a st) = pending_or st"
  and fold_top_push [simp]: "push a st\<lparr>stack := s\<rparr> = st\<lparr>stack := s\<rparr>"
  by (simp_all add: push_def)

lemma step_op [simp]:
  "step prog columns row (ins CompareEq a) st = continue (compare (=) st)"
  "step prog columns row (ins CompareNe a) st = continue (compare (\<noteq>) st)"
  "step prog columns row (ins CompareLt a) st = continue (compare (<s) st)"
  "step prog columns row (ins CompareGt a) st = continue (compare (\<lambda>a b. b <s a) st)"
  "step prog columns row (ins OpIsNull a) st = continue (unary (\<lambda>a. of_flag (a = 0)) st)"
  "step prog columns row (ins OpIsNotNull a) st = continue (unary (\<lambda>a. of_flag (a \<noteq> 0)) st)"
  "step prog columns row (ins OpNot a) st = continue (unary (\<lambda>a. of_flag (a = 0)) st)"
  "step prog columns row (ins OpAnd a) st = Inr (Running (if length (stack st) \<ge> 2
     then st\<lparr>stack := fold_top (\<and>) (stack st)\<rparr> else st\<lparr>pending_and := True\<rparr>))"
  "step prog columns row (ins OpOr a) st = Inr (Running (if length (stack st) \<ge> 2
     then st\<lparr>stack := fold_top (\<or>) (stack st)\<rparr> else st\<lparr>pending_or := True\<rparr>))"
  by (simp_all add: step_def ins_def)

lemma continue_Inr [simp]: "continue (Inr st) = Inr (Running st)"
  by (simp add: continue_def)

text \<open>A comparison pushes its value and then folds a deferred operator.\<close>

lemma run_comparison:
  assumes "holds_at prog k c e" and "row_ok columns row e" and "is_comparison e"
  shows "run prog columns row (p_code k c e @ is) st =
    run prog columns row is (FoldPending (push (of_flag (eval_pexp (row_of columns row) e)) st))"
  using assms load_column [OF assms(1) _ assms(2)] load_const [OF assms(1)]
  by (cases e) (simp_all add: sless_sint)

lemma run_null_test:
  assumes "holds_at prog k c e" and "row_ok columns row e" and "e = PNull col \<or> e = PNotNull col"
  shows "run prog columns row (p_code k c e @ is) st =
    run prog columns row is (push (of_flag (eval_pexp (row_of columns row) e)) st)"
  using assms load_column [OF assms(1) _ assms(2)] by auto

lemma FoldPending_none:
  "\<not> pending_and st \<Longrightarrow> \<not> pending_or st \<Longrightarrow> FoldPending st = st"
  by (simp add: FoldPending_def)

lemma row_ok_split [simp]:
  "row_ok columns row (PAnd a b) \<longleftrightarrow> row_ok columns row a \<and> row_ok columns row b"
  "row_ok columns row (POr a b) \<longleftrightarrow> row_ok columns row a \<and> row_ok columns row b"
  "row_ok columns row (PNot a) \<longleftrightarrow> row_ok columns row a"
  by (auto simp: row_ok_def)

text \<open>In postfix form the code of an expression pushes the value of the expression.\<close>

lemma run_postfix:
  assumes "holds_at prog k c e" and "row_ok columns row e"
    and "\<not> pending_and st" and "\<not> pending_or st"
  shows "run prog columns row (p_code k c e @ is) st =
    run prog columns row is (push (of_flag (eval_pexp (row_of columns row) e)) st)"
  using assms
proof (induction e arbitrary: k c "is" st)
  case (PAnd a b)
  then show ?case
    using holds_at_left(1) [OF PAnd.prems(1)] holds_at_right [OF disjI1 [OF PAnd.prems(1)]]
    by (simp add: push_def)
next
  case (POr a b)
  then show ?case
    using holds_at_left(2) [OF POr.prems(1)] holds_at_right [OF disjI2 [OF POr.prems(1)]]
    by (simp add: push_def)
next
  case (PNot a)
  then show ?case using holds_at_left(3) [OF PNot.prems(1)] by simp
next
  case (PNull col)
  then show ?case by (intro run_null_test) simp_all
next
  case (PNotNull col)
  then show ?case by (intro run_null_test) simp_all
qed (subst run_comparison; simp add: FoldPending_none)+

text \<open>In infix form each link combines the single value on the stack with its operand.\<close>

fun l_exp :: "link \<Rightarrow> pexp list" where
  "l_exp (LAnd e) = [e]" | "l_exp (LOr e) = [e]" | "l_exp LNot = []"

fun l_op :: "link \<Rightarrow> Instruction" where
  "l_op (LAnd e) = ins OpAnd 0" | "l_op (LOr e) = ins OpOr 0" | "l_op LNot = ins OpNot 0"

definition l_consts :: "link \<Rightarrow> u64 list" where
  "l_consts l = concat (map p_consts (l_exp l))"

definition l_cols :: "link \<Rightarrow> nat list" where
  "l_cols l = concat (map p_cols (l_exp l))"

fun l_code :: "nat \<Rightarrow> nat \<Rightarrow> link list \<Rightarrow> Instruction list" where
  "l_code k c [] = []"
| "l_code k c (l # ls) = l_op l # concat (map (p_code k c) (l_exp l)) @
     l_code (k + length (l_consts l)) (c + length (l_cols l)) ls"

lemma build_link_program:
  "pr_program (build_link l p) =
     extend_program (l_op l # concat (map (p_code (length (bp_constants (pr_program p)))
         (length (bp_column_indices (pr_program p)))) (l_exp l))) (l_consts l) (l_cols l) (pr_program p)"
  by (cases l) (simp_all add: build_postfix_program extend_program_extend l_consts_def l_cols_def)

lemma build_links_program:
  "pr_program (fold build_link ls p) =
     extend_program (l_code (length (bp_constants (pr_program p)))
         (length (bp_column_indices (pr_program p))) ls)
       (concat (map l_consts ls)) (concat (map l_cols ls)) (pr_program p)"
proof (induction ls arbitrary: p)
  case Nil
  then show ?case by (simp add: extend_program_def)
next
  case (Cons l ls)
  then show ?case by (simp add: build_link_program extend_program_extend)
qed

lemma FoldPending_and:
  assumes "stack st = [of_flag b]" "\<not> pending_and st" "\<not> pending_or st"
  shows "FoldPending (push (of_flag a) (st\<lparr>pending_and := True\<rparr>)) = st\<lparr>stack := [of_flag (b \<and> a)]\<rparr>"
    and "FoldPending (push (of_flag a) (st\<lparr>pending_or := True\<rparr>)) = st\<lparr>stack := [of_flag (b \<or> a)]\<rparr>"
  using assms by (cases st; simp add: FoldPending_def push_def)+

lemma run_link:
  assumes "link_ok l" and "\<forall>e \<in> set (l_exp l). holds_at prog k c e \<and> row_ok columns row e"
    and "stack st = [of_flag b]" "\<not> pending_and st" "\<not> pending_or st"
  shows "run prog columns row (l_op l # concat (map (p_code k c) (l_exp l)) @ is) st =
    run prog columns row is (st\<lparr>stack := [of_flag (eval_link (row_of columns row) l b)]\<rparr>)"
proof (cases l)
  case (LAnd e)
  then show ?thesis using assms by (simp add: run_comparison FoldPending_and)
next
  case (LOr e)
  then show ?thesis using assms by (simp add: run_comparison FoldPending_and)
next
  case LNot
  then show ?thesis using assms by (simp add: unary_def push_def)
qed

lemma run_links:
  assumes "\<forall>l \<in> set ls. link_ok l \<and> (\<forall>e \<in> set (l_exp l). row_ok columns row e)"
    and "length (bp_constants prog) \<le> 2 ^ 32" and "length (bp_column_indices prog) \<le> 2 ^ 32"
    and "bp_constants prog = kpre @ concat (map l_consts ls)" and "length kpre = k"
    and "bp_column_indices prog = cpre @ concat (map l_cols ls)" and "length cpre = c"
    and "stack st = [of_flag b]" "\<not> pending_and st" "\<not> pending_or st"
  shows "run prog columns row (l_code k c ls) st = Inr (fold (eval_link (row_of columns row)) ls b)"
  using assms
proof (induction ls arbitrary: k c kpre cpre st b)
  case Nil
  then show ?case by simp
next
  case (Cons l ls)
  have "holds_at prog k c e" if "e \<in> set (l_exp l)" for e
  proof -
    have "l_exp l = [e]" using that by (cases l) auto
    then have "bp_constants prog = kpre @ p_consts e @ concat (map l_consts ls)"
      and "bp_column_indices prog = cpre @ p_cols e @ concat (map l_cols ls)"
      using Cons.prems(4,6) by (simp_all add: l_consts_def [of l] l_cols_def [of l])
    then show ?thesis unfolding holds_at_def using Cons.prems(2,3,5,7) by blast
  qed
  moreover have "run prog columns row (l_code (k + length (l_consts l)) (c + length (l_cols l)) ls)
      (st\<lparr>stack := [of_flag (eval_link (row_of columns row) l b)]\<rparr>) =
      Inr (fold (eval_link (row_of columns row)) ls (eval_link (row_of columns row) l b))"
    using Cons.prems
    by (intro Cons.IH [where kpre = "kpre @ l_consts l" and cpre = "cpre @ l_cols l"]) simp_all
  ultimately show ?case
    using run_link [of l prog k c columns row st b] Cons.prems by simp
qed

lemma EvaluateRow_postfix:
  assumes "row_ok columns row e" and "length (p_consts e) \<le> 2 ^ 32" and "length (p_cols e) \<le> 2 ^ 32"
  shows "EvaluateRow (pr_program (build_postfix e Predicate_empty)) columns row =
    Inr (eval_pexp (row_of columns row) e)"
proof -
  let ?p = "pr_program (build_postfix e Predicate_empty)"
  have "bp_instructions ?p = p_code 0 0 e" "bp_constants ?p = p_consts e" "bp_column_indices ?p = p_cols e"
    by (simp_all add: build_postfix_program Predicate_empty_def BytecodeProgram_empty_def)
  moreover from this have "holds_at ?p 0 0 e" using assms(2,3) by (auto simp: holds_at_def)
  ultimately show ?thesis
    using run_postfix [of ?p 0 0 e columns row Interp_clear "[]"] assms(1)
    by (simp add: EvaluateRow_def Interp_clear_def)
qed

definition infix_cols :: "pexp \<Rightarrow> link list \<Rightarrow> nat list" where
  "infix_cols e ls = p_cols e @ concat (map l_cols ls)"

lemma EvaluateRow_infix:
  assumes "is_comparison e" and "\<forall>l \<in> set ls. link_ok l"
    and "\<forall>c \<in> set (infix_cols e ls). c < length columns \<and> row < length (columns ! c)"
    and "length (infix_cols e ls) \<le> 2 ^ 32"
  shows "EvaluateRow (pr_program (build_infix e ls)) columns row =
    Inr (fold (eval_link (row_of columns row)) ls (eval_pexp (row_of columns row) e))"
proof -
  let ?p = "pr_program (build_infix e ls)" and ?k = "length (p_consts e)" and ?c = "length (p_cols e)"
  have p: "bp_instructions ?p = p_code 0 0 e @ l_code ?k ?c ls"
    "bp_constants ?p = p_consts e @ concat (map l_consts ls)"
    "bp_column_indices ?p = p_cols e @ concat (map l_cols ls)"
    by (simp_all add: build_infix_def build_links_program build_postfix_program Predicate_empty_def
        BytecodeProgram_empty_def)
  have cmp: "length (p_consts e) = length (p_cols e)" if "is_comparison e" for e
    using that by (cases e) simp_all
  have "length (concat (map l_consts ls)) = length (concat (map l_cols ls))"
    using assms(2)
  proof (induction ls)
    case (Cons l ls)
    then show ?case using cmp by (cases l) (simp_all add: l_consts_def l_cols_def)
  qed simp
  then have small: "length (bp_constants ?p) \<le> 2 ^ 32" "length (bp_column_indices ?p) \<le> 2 ^ 32"
    using assms(4) cmp [OF assms(1)] by (simp_all add: p infix_cols_def)
  moreover have "row_ok columns row e" and rows: "\<forall>l \<in> set ls. \<forall>e \<in> set (l_exp l). row_ok columns row e"
    using assms(3) by (auto simp: infix_cols_def row_ok_def l_cols_def)
  moreover have "holds_at ?p 0 0 e" using small unfolding holds_at_def p by auto
  ultimately show ?thesis
    using run_comparison [of ?p 0 0 e columns row "l_code ?k ?c ls" Interp_clear] assms(1,2)
      run_links [of ls columns row ?p "p_consts e" ?k "p_cols e" ?c
        "push (of_flag (eval_pexp (row_of columns row) e)) Interp_clear"]
    by (simp add: EvaluateRow_def p Interp_clear_def FoldPending_none)
qed

section \<open>Facts on the pruning tests\<close>

text \<open>A conjunction of comparisons, as the arguments of the builder calls.\<close>

fun cmp_type :: "pexp \<Rightarrow> PredicateType" where
  "cmp_type (PEq _ _) = Equal"
| "cmp_type (PNe _ _) = NotEqual"
| "cmp_type (PLt _ _) = LessThan"
| "cmp_type (PGt _ _) = GreaterThan"
| "cmp_type _ = AndPred"

fun cmp_col :: "pexp \<Rightarrow> nat" where
  "cmp_col (PEq c _) = c" | "cmp_col (PNe c _) = c" | "cmp_col (PLt c _) = c"
| "cmp_col (PGt c _) = c" | "cmp_col _ = 0"

fun cmp_const :: "pexp \<Rightarrow> u64" where
  "cmp_const (PEq _ v) = v" | "cmp_const (PNe _ v) = v" | "cmp_const (PLt _ v) = v"
| "cmp_const (PGt _ v) = v" | "cmp_const _ = 0"

definition conj_predicate :: "pexp \<Rightarrow> pexp list \<Rightarrow> Predicate" where
  "conj_predicate e es = build_infix e (map LAnd es)"

lemma build_comparison:
  assumes "is_comparison e"
  shows "pr_column_predicates (build_postfix e p) = pr_column_predicates p @ [cmp_type e]"
    and "bp_constants (pr_program (build_postfix e p)) = bp_constants (pr_program p) @ [cmp_const e]"
    and "bp_column_indices (pr_program (build_postfix e p)) =
      bp_column_indices (pr_program p) @ [cmp_col e]"
  using assms by (cases e; simp add: builder_defs Let_def)+

lemma build_and_links:
  assumes "\<forall>e \<in> set es. is_comparison e"
  shows "pr_column_predicates (fold build_link (map LAnd es) p) =
      pr_column_predicates p @ map cmp_type es \<and>
    bp_constants (pr_program (fold build_link (map LAnd es) p)) =
      bp_constants (pr_program p) @ map cmp_const es \<and>
    bp_column_indices (pr_program (fold build_link (map LAnd es) p)) =
      bp_column_indices (pr_program p) @ map cmp_col es"
  using assms
proof (induction es arbitrary: p)
  case (Cons e es)
  then show ?case
    using build_comparison [of e "Predicate_And p"] by (simp add: Predicate_And_def Emit_def)
qed simp

lemma conj_predicate_lists:
  assumes "\<forall>e' \<in> set (e # es). is_comparison e'"
  shows "pr_column_predicates (conj_predicate e es) = map cmp_type (e # es)"
    and "bp_constants (pr_program (conj_predicate e es)) = map cmp_const (e # es)"
    and "bp_column_indices (pr_program (conj_predicate e es)) = map cmp_col (e # es)"
  using assms build_and_links [of es] build_comparison [of e Predicate_empty]
  unfolding conj_predicate_def build_infix_def
  by (simp_all add: Predicate_empty_def BytecodeProgram_empty_def)

lemma eval_comparison:
  assumes "is_comparison e"
  shows "eval_pexp \<rho> e \<longleftrightarrow> cmp_holds (cmp_type e) (sint (\<rho> (cmp_col e))) (sint (cmp_const e))"
    and "is_cmp (cmp_type e)"
  using assms by (cases e; auto intro: signed_word_eqI)+

text \<open>With a single block per zone map, a conjunction the test excludes holds on no row that the
  zone maps cover.\<close>

definition one_block_cover :: "ZoneMap option list \<Rightarrow> (nat \<Rightarrow> u64) set \<Rightarrow> bool" where
  "one_block_cover zms R \<longleftrightarrow> (\<forall>c zm. zone_map_at zms c = Some zm \<longrightarrow>
     (\<exists>e. zm_entries zm = [e] \<and> covers_ints e ((\<lambda>\<rho>. \<rho> c) ` R)))"

lemma entry_allows_sound:
  assumes "\<forall>e' \<in> set (e # es). is_comparison e'" and "i < length (e # es)"
    and "covers_ints ze ((\<lambda>\<rho>. \<rho> (cmp_col ((e # es) ! i))) ` R)" and "\<rho> \<in> R"
    and "eval_pexp \<rho> ((e # es) ! i)"
  shows "entry_allows (conj_predicate e es) i ze"
proof -
  let ?c = "(e # es) ! i"
  have cmp: "is_comparison ?c" using assms(1,2) by (meson nth_mem)
  note ev = eval_comparison [OF cmp]
  have b: "ze_has_min_max ze \<Longrightarrow> sint (ze_min_int ze) \<le> sint (\<rho> (cmp_col ?c)) \<and>
      sint (\<rho> (cmp_col ?c)) \<le> sint (ze_max_int ze)"
    using assms(3,4) by (auto simp: covers_ints_def)
  have "pr_column_predicates (conj_predicate e es) ! i = cmp_type ?c"
    and "bp_constants (pr_program (conj_predicate e es)) ! i = cmp_const ?c"
    using assms(2) unfolding conj_predicate_lists [OF assms(1)] by (metis nth_map)+
  then show ?thesis
    using b ev assms(5) range_can_match_sound by (auto simp: entry_allows_def)
qed

lemma CanMatchZoneMap_sound:
  assumes "\<forall>e' \<in> set (e # es). is_comparison e'" and "one_block_cover zms R"
    and "\<not> CanMatchZoneMap zms (conj_predicate e es)" and "\<rho> \<in> R"
  shows "\<not> (\<forall>e' \<in> set (e # es). eval_pexp \<rho> e')"
proof
  assume all: "\<forall>e' \<in> set (e # es). eval_pexp \<rho> e'"
  let ?p = "conj_predicate e es"
  note lists = conj_predicate_lists [OF assms(1)]
  have "list_all (entry_allows ?p i) (zm_entries zm)"
    if i: "i < length (e # es)" and zm: "zone_map_at zms (column_of ?p i) = Some zm" for i zm
  proof -
    have "column_of ?p i = cmp_col ((e # es) ! i)"
      using i unfolding column_of_def lists by (simp del: list.map add: nth_map)
    then obtain ze where "zm_entries zm = [ze]"
      "covers_ints ze ((\<lambda>\<rho>. \<rho> (cmp_col ((e # es) ! i))) ` R)"
      using assms(2) zm unfolding one_block_cover_def by metis
    then show ?thesis
      using entry_allows_sound [OF assms(1) i _ assms(4)] bspec [OF all nth_mem [OF i]] by simp
  qed
  then have "CanMatchZoneMap zms ?p"
    unfolding CanMatchZoneMap_def lists list_all_iff by (auto split: option.splits)
  with assms(3) show False ..
qed

text \<open>Likewise for Bloom filters that cover their columns.\<close>

definition blooms_cover :: "BloomFilter option list \<Rightarrow> (nat \<Rightarrow> u64) set \<Rightarrow> bool" where
  "blooms_cover blooms R \<longleftrightarrow> (\<forall>c < length blooms. \<forall>bf. blooms ! c = Some bf \<longrightarrow>
     bloom_covers bf ((\<lambda>\<rho>. \<rho> c) ` R))"

lemma CanMatchBloom_loop_True:
  assumes "\<And>i bf. i \<in> set is \<Longrightarrow> pr_column_predicates p ! i = Equal \<Longrightarrow>
      column_of p i < length blooms \<Longrightarrow> blooms ! column_of p i = Some bf \<Longrightarrow>
      Bloom_MightContain (bp_constants (pr_program p) ! i) bf = Inr True"
  shows "CanMatchBloom_loop blooms p is = Inr True"
  using assms by (induction "is") (auto simp: Let_def split: option.splits)

lemma CanMatchBloom_sound:
  assumes "\<forall>e' \<in> set (e # es). is_comparison e'" and "blooms_cover blooms R" and "\<rho> \<in> R"
    and "\<forall>e' \<in> set (e # es). eval_pexp \<rho> e'"
  shows "CanMatchBloom blooms (conj_predicate e es) = Inr True"
  unfolding CanMatchBloom_def
proof (rule CanMatchBloom_loop_True)
  let ?p = "conj_predicate e es"
  note lists = conj_predicate_lists [OF assms(1)]
  fix i bf
  assume "i \<in> set [0..<length (pr_column_predicates ?p)]"
  then have i: "i < length (e # es)" unfolding lists by auto
  let ?c = "(e # es) ! i"
  have at: "pr_column_predicates ?p ! i = cmp_type ?c" "column_of ?p i = cmp_col ?c"
    "bp_constants (pr_program ?p) ! i = cmp_const ?c"
    using i unfolding column_of_def lists by (simp_all del: list.map add: nth_map)
  assume eq: "pr_column_predicates ?p ! i = Equal"
    and bf: "column_of ?p i < length blooms" "blooms ! column_of ?p i = Some bf"
  have "\<rho> (cmp_col ?c) = cmp_const ?c"
    using bspec [OF assms(4) nth_mem [OF i]] eq at(1) by (cases ?c) auto
  moreover have "bloom_covers bf ((\<lambda>\<rho>. \<rho> (cmp_col ?c)) ` R)"
    using assms(2) bf unfolding blooms_cover_def at(2) by blast
  ultimately show "Bloom_MightContain (bp_constants (pr_program ?p) ! i) bf = Inr True"
    using bloom.sound [OF _ imageI [OF assms(3), of "\<lambda>\<rho>. \<rho> (cmp_col ?c)"]] unfolding at(3) by auto
qed

section \<open>Properties\<close>

text \<open>C18: compiling an expression by builder calls with each operator after its operands and running
  the bytecode on a row gives the value of the expression on that row: no stack underflow, no
  access out of bounds, and the right answer.\<close>

theorem predicate_postfix_correct:
  assumes "row_ok columns row e" and "length (p_consts e) \<le> 2 ^ 32" and "length (p_cols e) \<le> 2 ^ 32"
  shows "EvaluateRow (pr_program (build_postfix e Predicate_empty)) columns row =
    Inr (eval_pexp (row_of columns row) e)"
  by (rule EvaluateRow_postfix [OF assms])

theorem predicate_postfix_correct_witness:
  "EvaluateRow (pr_program (build_postfix (PAnd (PLt 0 5) (PNot (PEq 1 7))) Predicate_empty)) [[3], [8]] 0 =
    Inr True"
  by (subst predicate_postfix_correct) (simp_all add: row_ok_def row_of_def)

text \<open>C19: in the infix style of the builder, a chain of comparisons joined by AND, OR and NOT evaluates
  from left to right, through the interpreter's deferred operators.\<close>

theorem predicate_infix_correct:
  assumes "is_comparison e" and "\<forall>l \<in> set ls. link_ok l"
    and "\<forall>c \<in> set (infix_cols e ls). c < length columns \<and> row < length (columns ! c)"
    and "length (infix_cols e ls) \<le> 2 ^ 32"
  shows "EvaluateRow (pr_program (build_infix e ls)) columns row =
    Inr (fold (eval_link (row_of columns row)) ls (eval_pexp (row_of columns row) e))"
  by (rule EvaluateRow_infix [OF assms])

theorem predicate_infix_correct_witness:
  "EvaluateRow (pr_program (build_infix (PGt 0 10) [LAnd (PLt 1 5), LOr (PEq 0 1)])) [[1], [9]] 0 = Inr True"
  by (subst predicate_infix_correct) (simp_all add: infix_cols_def l_cols_def row_of_def)

text \<open>A null test as the right operand of an infix AND drops the left operand: the result is the
  null test alone.\<close>

lemma predicate_infix_null_test_drops_left:
  "EvaluateRow (pr_program (Predicate_IsNull 1 (Predicate_And (Predicate_Equal 0 (v :: u64) Predicate_empty))))
    [[x], [y]] 0 = Inr (y = 0)"
  by (simp add: EvaluateRow_def builder_defs Predicate_empty_def BytecodeProgram_empty_def Let_def step_def
      continue_def load_cell_def nth_res_def compare_def binary_def unary_def push_def Interp_clear_def
      FoldPending_def of_flag_def)

text \<open>C30: when every zone map has one block, a conjunction of comparisons that the zone-map test
  excludes holds on no row the zone maps cover.\<close>

theorem predicate_zone_map_sound:
  assumes "\<forall>e' \<in> set (e # es). is_comparison e'" and "one_block_cover zms R"
    and "\<not> CanMatchZoneMap zms (conj_predicate e es)" and "\<rho> \<in> R"
  shows "\<exists>e' \<in> set (e # es). \<not> eval_pexp \<rho> e'"
  using CanMatchZoneMap_sound [OF assms] by blast

theorem predicate_zone_map_sound_witness:
  "\<exists>e' \<in> set [PGt 0 100]. \<not> eval_pexp (\<lambda>_. 5) e'"
proof (rule predicate_zone_map_sound)
  let ?zm = "\<lparr>zm_entries = [Update_int [5 :: u64, 9] None ZoneMapEntry_default], zm_block_rows = 2\<rparr>"
  have "covers_ints (Update_int [5 :: u64, 9] None ZoneMapEntry_default) (set (valid_values [5 :: u64, 9] None))"
    by (rule Update_int_covers) simp_all
  then show "one_block_cover [Some ?zm] {\<lambda>_. 5}"
    by (auto simp: one_block_cover_def zone_map_at_def valid_values_def rows_def covers_ints_def split: if_splits)
  show "\<not> CanMatchZoneMap [Some ?zm] (conj_predicate (PGt 0 100) [])" by code_simp
qed simp_all

text \<open>With more than one block the zone-map test rejects a predicate as soon as one block cannot
  match, so it excludes columns that hold a match in another block.\<close>

lemma predicate_zone_map_rejects_match:
  "\<exists>zm. BuildFromColumn Update_int [5 :: u64, 15] None (ZoneMap_new 1) = Inr zm \<and>
    \<not> CanMatchZoneMap [Some zm] (Predicate_Equal 0 (5 :: u64) Predicate_empty) \<and>
    EvaluateRow (pr_program (Predicate_Equal 0 (5 :: u64) Predicate_empty)) [[5, 15]] 0 = Inr True"
proof (intro exI conjI)
  let ?zm = "\<lparr>zm_entries = [Update_int [5 :: u64] None ZoneMapEntry_default,
    Update_int [15 :: u64] None ZoneMapEntry_default], zm_block_rows = 1\<rparr>"
  show "BuildFromColumn Update_int [5 :: u64, 15] None (ZoneMap_new 1) = Inr ?zm"
    by (simp add: BuildFromColumn_def ZoneMap_new_def Let_def resize_def block_slice_def upt_rec)
  show "\<not> CanMatchZoneMap [Some ?zm] (Predicate_Equal 0 (5 :: u64) Predicate_empty)" by code_simp
  show "EvaluateRow (pr_program (Predicate_Equal 0 (5 :: u64) Predicate_empty)) [[5, 15]] 0 = Inr True"
    by code_simp
qed



end
