(* ===== verification/Scanners.thy ===== *)
theory Scanners
  imports Segments Predicates
begin

text \<open>
  \<^verbatim>\<open>include/columnar/scanner.h\<close>: scanning a segment block by block. A block is skipped when the zone
  map or the Bloom filter of the first predicate's column excludes it; otherwise the matching rows
  are found by the vectorised filter, when the predicate is a single comparison, or by running the
  bytecode on every row, and delivered as runs of consecutive rows. The callback is modelled by the
  list of its calls. \<open>avx512\<close> selects the build. The wall-clock members of the statistics, and the
  members of the context no code reads, are left out.
\<close>

section \<open>Context, statistics and block masks\<close>

definition kScanBlockSize :: nat where
  "kScanBlockSize = 8192"

record ScanContext =
  sc_block_size :: nat
  sc_num_threads :: nat
  sc_enable_zone_map_pruning :: bool
  sc_enable_bloom_filter :: bool

definition ScanContext_default :: ScanContext where
  "ScanContext_default =
     \<lparr>sc_block_size = kScanBlockSize, sc_num_threads = 1, sc_enable_zone_map_pruning = True,
      sc_enable_bloom_filter = True\<rparr>"

record ScanStats =
  ss_blocks_scanned :: nat
  ss_blocks_pruned_zone_map :: nat
  ss_blocks_pruned_bloom :: nat
  ss_rows_scanned :: nat
  ss_rows_filtered :: nat
  ss_rows_returned :: nat

definition ScanStats_zero :: ScanStats where
  "ScanStats_zero =
     \<lparr>ss_blocks_scanned = 0, ss_blocks_pruned_zone_map = 0, ss_blocks_pruned_bloom = 0,
      ss_rows_scanned = 0, ss_rows_filtered = 0, ss_rows_returned = 0\<rparr>"

type_synonym BlockFilter = "bool list"

definition BlockFilter_new :: BlockFilter where
  "BlockFilter_new = replicate kScanBlockSize True"

definition BlockFilter_Reset :: "BlockFilter \<Rightarrow> BlockFilter" where
  "BlockFilter_Reset msk = replicate kScanBlockSize True"

definition BlockFilter_SetAll :: "bool \<Rightarrow> BlockFilter \<Rightarrow> BlockFilter" where
  "BlockFilter_SetAll v msk = replicate kScanBlockSize v"

definition BlockFilter_CountTrue :: "BlockFilter \<Rightarrow> nat" where
  "BlockFilter_CountTrue msk = fold (\<lambda>i count. if msk ! i then count + 1 else count) [0..<kScanBlockSize] 0"

definition BlockFilter_And :: "BlockFilter \<Rightarrow> BlockFilter \<Rightarrow> BlockFilter" where
  "BlockFilter_And other msk = fold (\<lambda>i m. m[i := (m ! i \<and> other ! i)]) [0..<kScanBlockSize] msk"

definition BlockFilter_Or :: "BlockFilter \<Rightarrow> BlockFilter \<Rightarrow> BlockFilter" where
  "BlockFilter_Or other msk = fold (\<lambda>i m. m[i := (m ! i \<or> other ! i)]) [0..<kScanBlockSize] msk"

definition BlockFilter_Not :: "BlockFilter \<Rightarrow> BlockFilter" where
  "BlockFilter_Not msk = fold (\<lambda>i m. m[i := (\<not> m ! i)]) [0..<kScanBlockSize] msk"

text \<open>A cell widened to 64 bits for the bytecode. Floating-point cells are truncated.\<close>

fun WidenValue :: "byte list \<Rightarrow> DataType \<Rightarrow> nat \<Rightarrow> u64 res" where
  "WidenValue data Int32 index = bind_res (read_elem data 0 index) (\<lambda>v :: u32. Inr (scast v))"
| "WidenValue data Int64 index = read_elem data 0 index"
| "WidenValue data Float index = bind_res (read_elem data 0 index) int_of_float"
| "WidenValue data Double index = bind_res (read_elem data 0 index) int_of_double"
| "WidenValue data _ index = Inr 0"

section \<open>The vectorised filter\<close>

text \<open>The comparison bits of one vector are stored one by one into the mask.\<close>

definition store_lanes :: "nat \<Rightarrow> nat \<Rightarrow> u32 \<Rightarrow> BlockFilter \<Rightarrow> BlockFilter res" where
  "store_lanes w i m = fold_res (\<lambda>j msk. upd_res msk (i + j) (\<lambda>_. bit m j)) [0..<w]"

definition scalar_stores :: "('v \<Rightarrow> 'v \<Rightarrow> bool) \<Rightarrow> 'v list \<Rightarrow> 'v \<Rightarrow> nat list \<Rightarrow> BlockFilter \<Rightarrow> BlockFilter res" where
  "scalar_stores op data value = fold_res (\<lambda>i msk. upd_res msk i (\<lambda>_. op (data ! i) value))"

text \<open>Whole vectors of 512 bits, then the rows from \<^verbatim>\<open>count & ~15\<close> on one by one, whatever the width
  of the vectors; the portable build has the scalar loop only.\<close>

definition VectorFilter ::
  "bool \<Rightarrow> ('a::len word \<Rightarrow> 'a word \<Rightarrow> bool) \<Rightarrow> 'a word list \<Rightarrow> 'a word \<Rightarrow> BlockFilter \<Rightarrow> BlockFilter res" where
  "VectorFilter avx512 op data value msk =
     (let count = length data; w = 512 div LENGTH('a)
      in if avx512
         then bind_res (fold_res (\<lambda>b. store_lanes w (b * w) (lane_mask op (Load w data (b * w)) (Set1 w value)))
                  [0..<count div w] msk)
                (scalar_stores op data value [count div 16 * 16..<count])
         else scalar_stores op data value [0..<count] msk)"

definition VectorFilter_Equal :: "bool \<Rightarrow> 'a::len word list \<Rightarrow> 'a word \<Rightarrow> BlockFilter \<Rightarrow> BlockFilter res" where
  "VectorFilter_Equal avx512 = VectorFilter avx512 (=)"

definition VectorFilter_LessThan :: "bool \<Rightarrow> 'a::len word list \<Rightarrow> 'a word \<Rightarrow> BlockFilter \<Rightarrow> BlockFilter res" where
  "VectorFilter_LessThan avx512 = VectorFilter avx512 (<s)"

definition VectorFilter_LessEqual :: "bool \<Rightarrow> 'a::len word list \<Rightarrow> 'a word \<Rightarrow> BlockFilter \<Rightarrow> BlockFilter res" where
  "VectorFilter_LessEqual avx512 = VectorFilter avx512 (\<le>s)"

section \<open>Scanning a column\<close>

text \<open>The segment a scanner points to is shared and is threaded through the operations.\<close>

record ColumnScanner =
  cs_column_index :: nat
  cs_zone_map :: ZoneMap
  cs_bloom_filter :: BloomFilter

definition ColumnScanner_new :: "nat \<Rightarrow> ColumnScanner" where
  "ColumnScanner_new col_idx =
     \<lparr>cs_column_index = col_idx, cs_zone_map = ZoneMap_new 65536, cs_bloom_filter = BloomFilter_default\<rparr>"

definition ColumnScanner_Initialize :: "ColumnScanner \<Rightarrow> Segment \<Rightarrow> (ColumnScanner \<times> Segment) res" where
  "ColumnScanner_Initialize cs s =
     bind_res (Segment_GetZoneMap (cs_column_index cs) s) (\<lambda>(zm, s1).
     bind_res (Segment_GetBloomFilter (cs_column_index cs) s1) (\<lambda>(bf, s2).
       Inr (cs\<lparr>cs_zone_map := zm, cs_bloom_filter := bf\<rparr>, s2)))"

definition CanPrune :: "Segment \<Rightarrow> PredicateType \<Rightarrow> byte list \<Rightarrow> ColumnScanner \<Rightarrow> bool res" where
  "CanPrune s pred value cs =
     bind_res (Segment_ColumnType s (cs_column_index cs)) (\<lambda>type.
     bind_res (ShouldScanBlock (cs_zone_map cs) 0 type pred value) (\<lambda>b. Inr (\<not> b)))"

text \<open>The value is read at the width of the column's type; a null pointer passes.\<close>

definition BloomFilterCheck :: "Segment \<Rightarrow> byte list option \<Rightarrow> ColumnScanner \<Rightarrow> bool res" where
  "BloomFilterCheck s value cs =
     (case value of
        None \<Rightarrow> Inr True
      | Some bs \<Rightarrow> bind_res (Segment_ColumnType s (cs_column_index cs)) (\<lambda>type.
          if type = Int32 \<or> type = Float
          then bind_res (read_word bs 0) (\<lambda>v :: u32. Bloom_MightContain v (cs_bloom_filter cs))
          else if type = Int64 \<or> type = Double
          then bind_res (read_word bs 0) (\<lambda>v :: u64. Bloom_MightContain v (cs_bloom_filter cs))
          else Inr True))"

definition BloomFilterCheckInt64 :: "u64 \<Rightarrow> ColumnScanner \<Rightarrow> bool res" where
  "BloomFilterCheckInt64 value cs = Bloom_MightContain value (cs_bloom_filter cs)"

definition negate_rows :: "nat \<Rightarrow> BlockFilter \<Rightarrow> BlockFilter res" where
  "negate_rows count = fold_res (\<lambda>i msk. upd_res msk i Not) [0..<count]"

text \<open>The inner switch of \<^verbatim>\<open>ScanBlock\<close>, the same for both integer types.\<close>

fun scan_rows :: "bool \<Rightarrow> PredicateType \<Rightarrow> 'a::len word list \<Rightarrow> 'a word \<Rightarrow> BlockFilter \<Rightarrow> BlockFilter res" where
  "scan_rows avx512 Equal data value msk = VectorFilter_Equal avx512 data value msk"
| "scan_rows avx512 NotEqual data value msk =
     bind_res (VectorFilter_Equal avx512 data value msk) (negate_rows (length data))"
| "scan_rows avx512 LessThan data value msk = VectorFilter_LessThan avx512 data value msk"
| "scan_rows avx512 LessEqual data value msk = VectorFilter_LessEqual avx512 data value msk"
| "scan_rows avx512 GreaterThan data value msk =
     bind_res (VectorFilter_LessEqual avx512 data value msk) (negate_rows (length data))"
| "scan_rows avx512 GreaterEqual data value msk =
     bind_res (VectorFilter_LessThan avx512 data value msk) (negate_rows (length data))"
| "scan_rows avx512 _ data value msk = Inr (BlockFilter_SetAll True msk)"

definition ScanBlock ::
  "bool \<Rightarrow> ColumnScanner \<Rightarrow> nat \<Rightarrow> nat \<Rightarrow> byte list \<Rightarrow> PredicateType \<Rightarrow> BlockFilter \<Rightarrow> Segment \<Rightarrow>
   (BlockFilter \<times> Segment) res" where
  "ScanBlock avx512 cs offset count filter_value pred msk s =
     (if count = 0 then Inr (msk, s)
      else bind_res (Segment_ColumnType s (cs_column_index cs)) (\<lambda>type.
        if pred = IsNull then Inr (BlockFilter_SetAll False msk, s)
        else if pred = IsNotNull then Inr (BlockFilter_SetAll True msk, s)
        else bind_res (Segment_GetColumnData (cs_column_index cs) offset count s) (\<lambda>(block_data, s').
          if type = Int32
          then bind_res (read_array block_data count) (\<lambda>data.
               bind_res (read_word filter_value 0) (\<lambda>value :: u32.
               bind_res (scan_rows avx512 pred data value msk) (\<lambda>m. Inr (m, s'))))
          else if type = Int64
          then bind_res (read_array block_data count) (\<lambda>data.
               bind_res (read_word filter_value 0) (\<lambda>value :: u64.
               bind_res (scan_rows avx512 pred data value msk) (\<lambda>m. Inr (m, s'))))
          else Inr (BlockFilter_SetAll True msk, s'))))"

text \<open>\<^verbatim>\<open>Materialize\<close> with an output: the selected elements of the first \<open>count\<close> rows, packed.\<close>

definition Materialize ::
  "BlockFilter option \<Rightarrow> nat \<Rightarrow> bool \<Rightarrow> ColumnScanner \<Rightarrow> Segment \<Rightarrow> (nat \<times> byte list \<times> Segment) res" where
  "Materialize msk count has_output cs s =
     (case msk of
        None \<Rightarrow> Inr (0, [], s)
      | Some m \<Rightarrow>
          if \<not> has_output then Inr (0, [], s)
          else bind_res (Segment_ColumnType s (cs_column_index cs)) (\<lambda>type.
               bind_res (Segment_GetColumnData (cs_column_index cs) 0 count s) (\<lambda>(block_data, s').
               bind_res (fold_res (\<lambda>i (matched, out). bind_res (nth_res m i) (\<lambda>b.
                     Inr (if b then (matched + 1, out @ chunk (TypeSize type) block_data i) else (matched, out))))
                   [0..<count] (0, [])) (\<lambda>(matched, out).
               Inr (matched, out, s')))))"

text \<open>Without an output it counts the selected rows and drops the count.\<close>

definition Materialize_count :: "BlockFilter option \<Rightarrow> nat \<Rightarrow> unit res" where
  "Materialize_count msk count =
     (case msk of
        None \<Rightarrow> Inr ()
      | Some m \<Rightarrow> bind_res (fold_res (\<lambda>i (matched :: nat). bind_res (nth_res m i) (\<lambda>b. Inr (if b then matched + 1 else matched)))
                   [0..<count] 0) (\<lambda>_. Inr ()))"

section \<open>Scanning a segment\<close>

record SegmentScanner =
  sg_segment :: Segment
  sg_column_scanners :: "ColumnScanner list"
  sg_context :: ScanContext
  sg_stats :: ScanStats

definition SegmentScanner_new :: "Segment \<Rightarrow> ScanContext \<Rightarrow> SegmentScanner res" where
  "SegmentScanner_new seg ctx =
     bind_res (fold_res (\<lambda>i (css, s). bind_res (ColumnScanner_Initialize (ColumnScanner_new i) s) (\<lambda>(cs, s').
         Inr (css @ [cs], s'))) [0..<unat (Segment_NumColumns seg)] ([], seg)) (\<lambda>(css, s).
       Inr \<lparr>sg_segment = s, sg_column_scanners = css, sg_context = ctx, sg_stats = ScanStats_zero\<rparr>)"

text \<open>The two tests that may skip a block; both look at the first predicate only.\<close>

definition zone_map_allows :: "ScanContext \<Rightarrow> ColumnScanner list \<Rightarrow> Segment \<Rightarrow> Predicate \<Rightarrow> nat \<Rightarrow> bool res" where
  "zone_map_allows ctx css s p block =
     (let preds = pr_column_predicates p; constants = bp_constants (pr_program p);
          col_indices = bp_column_indices (pr_program p)
      in if sc_enable_zone_map_pruning ctx \<and> preds \<noteq> [] \<and> constants \<noteq> []
         then bind_res (nth_res col_indices 0) (\<lambda>col. bind_res (Segment_ColumnType s col) (\<lambda>type.
           if type = Int32
           then bind_res (nth_res css col) (\<lambda>cs.
                  ShouldScanBlock (cs_zone_map cs) block type (preds ! 0) (bytes_of (ucast (constants ! 0) :: u32)))
           else if type = Int64
           then bind_res (nth_res css col) (\<lambda>cs.
                  ShouldScanBlock (cs_zone_map cs) block type (preds ! 0) (bytes_of (constants ! 0)))
           else Inr True))
         else Inr True)"

definition bloom_allows :: "ScanContext \<Rightarrow> ColumnScanner list \<Rightarrow> Predicate \<Rightarrow> bool res" where
  "bloom_allows ctx css p =
     (let preds = pr_column_predicates p; constants = bp_constants (pr_program p)
      in if sc_enable_bloom_filter ctx \<and> preds \<noteq> [] \<and> constants \<noteq> []
         then bind_res (nth_res (bp_column_indices (pr_program p)) 0) (\<lambda>col.
           if col < length css \<and> preds ! 0 = Equal
           then BloomFilterCheckInt64 (constants ! 0) (css ! col)
           else Inr True)
         else Inr True)"

definition fast_path :: "Predicate \<Rightarrow> bool" where
  "fast_path p \<longleftrightarrow> length (pr_column_predicates p) = 1 \<and> length (bp_column_indices (pr_program p)) = 1 \<and>
     length (bp_constants (pr_program p)) = 1"

text \<open>The candidates of a block: the rows whose mask bit is set.\<close>

definition compact :: "nat \<Rightarrow> BlockFilter \<Rightarrow> nat list res" where
  "compact count msk = (if count \<le> length msk then Inr (filter (\<lambda>i. msk ! i) [0..<count]) else Inl OutOfBounds)"

definition candidates ::
  "bool \<Rightarrow> ColumnScanner list \<Rightarrow> Predicate \<Rightarrow> nat \<Rightarrow> nat \<Rightarrow> Segment \<Rightarrow> (nat list \<times> Segment) res" where
  "candidates avx512 css p block_offset block_count s =
     bind_res
       (if fast_path p
        then bind_res (nth_res css (bp_column_indices (pr_program p) ! 0)) (\<lambda>cs.
               ScanBlock avx512 cs block_offset block_count (bytes_of (bp_constants (pr_program p) ! 0))
                 (pr_column_predicates p ! 0) BlockFilter_new s)
        else Inr (BlockFilter_new, s)) (\<lambda>(msk, s').
     bind_res (compact block_count msk) (\<lambda>rows. Inr (rows, s')))"

text \<open>One row for the interpreter: each column read into an eight-byte buffer and widened.\<close>

definition read_row :: "Column list \<Rightarrow> Segment \<Rightarrow> nat \<Rightarrow> u64 list res" where
  "read_row columns s row =
     map_res (\<lambda>c. bind_res (Column_ReadValues row 1 (columns ! c)) (\<lambda>raw.
       if length raw \<le> 8
       then bind_res (Segment_ColumnType s c) (\<lambda>type. WidenValue raw type 0)
       else Inl OutOfBounds)) [0..<length columns]"

fun filter_res :: "('x \<Rightarrow> bool res) \<Rightarrow> 'x list \<Rightarrow> 'x list res" where
  "filter_res f [] = Inr []"
| "filter_res f (x # xs) =
     bind_res (f x) (\<lambda>b. bind_res (filter_res f xs) (\<lambda>ys. Inr (if b then x # ys else ys)))"

definition interpret_rows :: "BytecodeProgram \<Rightarrow> Column list \<Rightarrow> Segment \<Rightarrow> nat \<Rightarrow> nat list \<Rightarrow> nat list res" where
  "interpret_rows program columns s block_offset =
     filter_res (\<lambda>i. bind_res (read_row columns s (block_offset + i)) (\<lambda>vs.
       EvaluateRow program (map (\<lambda>v. [v]) vs) 0))"

text \<open>Runs of consecutive rows, none longer than \<^verbatim>\<open>kMaxRun\<close>, as pairs of first row and length.\<close>

definition kMaxRun :: nat where
  "kMaxRun = 4096"

fun run_length :: "nat \<Rightarrow> nat \<Rightarrow> nat list \<Rightarrow> nat" where
  "run_length n prev [] = n"
| "run_length n prev (r # rs) = (if r = prev + 1 \<and> n < kMaxRun then run_length (n + 1) r rs else n)"

lemma run_length_ge: "n \<le> run_length n prev rs"
proof (induction n prev rs rule: run_length.induct)
  case (2 n prev r rs)
  then show ?case by (auto intro: Suc_leD)
qed simp

function runs :: "nat list \<Rightarrow> (nat \<times> nat) list" where
  "runs [] = []"
| "runs (r # rs) = (let n = run_length 1 r rs in (r, n) # runs (drop n (r # rs)))"
  by pat_completeness auto
termination
proof (relation "measure length")
  fix r rs and n :: nat
  assume "n = run_length 1 r rs"
  then have "1 \<le> n" using run_length_ge [of 1 r rs] by simp
  then show "(drop n (r # rs), r # rs) \<in> measure length" by simp
qed simp

definition read_run :: "Column list \<Rightarrow> Segment \<Rightarrow> nat \<Rightarrow> nat \<Rightarrow> (byte list list \<times> nat) res" where
  "read_run columns s row0 n =
     bind_res (map_res (\<lambda>c. bind_res (Segment_ColumnType s c) (\<lambda>type.
         bind_res (Column_ReadValues row0 n (columns ! c)) (\<lambda>bs.
           if length bs = n * TypeSize type then Inr bs else Inl Unmodelled))) [0..<length columns])
       (\<lambda>cols. Inr (cols, n))"

text \<open>One iteration of the block loop, over the segment, the statistics and the calls so far.\<close>

definition Scan_block ::
  "bool \<Rightarrow> ScanContext \<Rightarrow> ColumnScanner list \<Rightarrow> Predicate \<Rightarrow> Column list \<Rightarrow> nat \<Rightarrow> nat \<Rightarrow>
   Segment \<times> ScanStats \<times> (byte list list \<times> nat) list \<Rightarrow>
   (Segment \<times> ScanStats \<times> (byte list list \<times> nat) list) res" where
  "Scan_block avx512 ctx css p columns num_rows block st = (case st of (s, stats0, outs) \<Rightarrow>
     (let block_offset = block * sc_block_size ctx;
          block_count = min (sc_block_size ctx) (num_rows - block_offset);
          stats = stats0\<lparr>ss_blocks_scanned := ss_blocks_scanned stats0 + 1,
                         ss_rows_scanned := ss_rows_scanned stats0 + block_count\<rparr>
      in bind_res (zone_map_allows ctx css s p block) (\<lambda>zm_ok.
         if \<not> zm_ok
         then Inr (s, stats\<lparr>ss_blocks_pruned_zone_map := ss_blocks_pruned_zone_map stats + 1\<rparr>, outs)
         else bind_res (bloom_allows ctx css p) (\<lambda>bf_ok.
           if \<not> bf_ok
           then Inr (s, stats\<lparr>ss_blocks_pruned_bloom := ss_blocks_pruned_bloom stats + 1\<rparr>, outs)
           else bind_res (candidates avx512 css p block_offset block_count s) (\<lambda>(rows, s').
                bind_res (if fast_path p then Inr rows
                          else interpret_rows (pr_program p) columns s' block_offset rows) (\<lambda>match_rows.
                bind_res (map_res (\<lambda>(r, n). read_run columns s' (block_offset + r) n) (runs match_rows)) (\<lambda>new.
                  (let delivered = sum_list (map snd new)
                   in Inr (s', stats\<lparr>ss_rows_filtered := ss_rows_filtered stats + (block_count - delivered),
                                     ss_rows_returned := ss_rows_returned stats + delivered\<rparr>,
                           outs @ new)))))))))"

definition load_columns :: "Segment \<Rightarrow> (Column list \<times> Segment) res" where
  "load_columns seg =
     fold_res (\<lambda>c (cols, s). bind_res (Segment_GetColumn c s) (\<lambda>(col, s'). Inr (cols @ [col], s')))
       [0..<unat (Segment_NumColumns seg)] ([], seg)"

definition SegmentScanner_Scan ::
  "bool \<Rightarrow> Predicate \<Rightarrow> SegmentScanner \<Rightarrow> ((byte list list \<times> nat) list \<times> SegmentScanner) res" where
  "SegmentScanner_Scan avx512 p sc =
     (let seg = sg_segment sc; ctx = sg_context sc; num_rows = unat (Segment_NumRows seg)
      in if sc_block_size ctx = 0 then Inl DivByZero
         else let num_blocks = (num_rows + sc_block_size ctx - 1) mod 2 ^ 64 div sc_block_size ctx
           in bind_res (load_columns seg) (\<lambda>(columns, s1).
              bind_res (fold_res (Scan_block avx512 ctx (sg_column_scanners sc) p columns num_rows)
                  [0..<num_blocks] (s1, sg_stats sc, [])) (\<lambda>(s2, stats, outs).
              Inr (outs, sc\<lparr>sg_segment := s2, sg_stats := stats\<rparr>))))"

section \<open>Scanning several segments\<close>

text \<open>The segments of thread \<open>t\<close>: \<^verbatim>\<open>for (i = t; i < n; i += num_threads)\<close>.\<close>

function stripe :: "nat \<Rightarrow> nat \<Rightarrow> nat \<Rightarrow> nat list" where
  "stripe stride i n = (if 0 < stride \<and> i < n then i # stripe stride (i + stride) n else [])"
  by pat_completeness auto
termination
  by (relation "measure (\<lambda>(stride, i, n). n - i)") auto

declare stripe.simps [simp del]

definition add_stats :: "ScanStats \<Rightarrow> ScanStats \<Rightarrow> ScanStats" where
  "add_stats stats s =
     \<lparr>ss_blocks_scanned = ss_blocks_scanned stats + ss_blocks_scanned s,
      ss_blocks_pruned_zone_map = ss_blocks_pruned_zone_map stats + ss_blocks_pruned_zone_map s,
      ss_blocks_pruned_bloom = ss_blocks_pruned_bloom stats + ss_blocks_pruned_bloom s,
      ss_rows_scanned = ss_rows_scanned stats + ss_rows_scanned s,
      ss_rows_filtered = ss_rows_filtered stats + ss_rows_filtered s,
      ss_rows_returned = ss_rows_returned stats + ss_rows_returned s\<rparr>"

record ParallelScanner =
  ps_segments :: "Segment list"
  ps_context :: ScanContext
  ps_total_stats :: ScanStats

definition ParallelScanner_new :: "Segment list \<Rightarrow> ScanContext \<Rightarrow> ParallelScanner" where
  "ParallelScanner_new segs ctx = \<lparr>ps_segments = segs, ps_context = ctx, ps_total_stats = ScanStats_zero\<rparr>"

text \<open>\<open>cancelled i k\<close> is what the \<open>k\<close>-th load of the flag returns while segment \<open>i\<close> is scanned: load 0
  is the test of the loop, load \<open>k + 1\<close> the one before the \<open>k\<close>-th call of the callback.\<close>

fun ScanThread ::
  "bool \<Rightarrow> (nat \<Rightarrow> nat \<Rightarrow> bool) \<Rightarrow> Predicate \<Rightarrow> ScanContext \<Rightarrow> Segment list \<Rightarrow> nat list \<Rightarrow>
   (byte list list \<times> nat) list \<times> ScanStats \<Rightarrow> ((byte list list \<times> nat) list \<times> ScanStats) res" where
  "ScanThread avx512 cancelled p ctx segs [] acc = Inr acc"
| "ScanThread avx512 cancelled p ctx segs (i # is) (outs, stats) =
     (if cancelled i 0 then Inr (outs, stats)
      else bind_res (SegmentScanner_new (segs ! i) ctx) (\<lambda>scanner.
           bind_res (SegmentScanner_Scan avx512 p scanner) (\<lambda>(calls, scanner').
             ScanThread avx512 cancelled p ctx segs is
               (outs @ map snd (filter (\<lambda>(k, _). \<not> cancelled i (k + 1)) (enumerate 0 calls)),
                add_stats stats (sg_stats scanner')))))"

text \<open>The threads run side by side: the callback sees an interleaving of their calls, which are
  returned thread by thread.\<close>

definition ParallelScanner_Scan ::
  "bool \<Rightarrow> (nat \<Rightarrow> nat \<Rightarrow> bool) \<Rightarrow> Predicate \<Rightarrow> ParallelScanner \<Rightarrow>
   ((byte list list \<times> nat) list list \<times> ParallelScanner) res" where
  "ParallelScanner_Scan avx512 cancelled p ps =
     (let stride = sc_num_threads (ps_context ps); n = length (ps_segments ps)
      in bind_res (map_res (\<lambda>t. ScanThread avx512 cancelled p (ps_context ps) (ps_segments ps) (stripe stride t n)
             ([], ScanStats_zero)) [0..<stride]) (\<lambda>rs.
           Inr (map fst rs, ps\<lparr>ps_total_stats := fold (\<lambda>r st. add_stats st (snd r)) rs (ps_total_stats ps)\<rparr>)))"

section \<open>Aggregation\<close>

text \<open>Sums are doubles; the values are read as 64-bit integers whatever the type of the column.\<close>

record AggregateScanner =
  ag_scanner :: SegmentScanner
  ag_columns :: "nat list"
  ag_sums :: "u64 list"
  ag_counts :: "u64 list"
  ag_mins :: "u64 list"
  ag_maxs :: "u64 list"

definition AggregateScanner_new :: "Segment \<Rightarrow> nat list \<Rightarrow> AggregateScanner res" where
  "AggregateScanner_new seg agg_columns =
     bind_res (SegmentScanner_new seg ScanContext_default) (\<lambda>scanner.
       (let n = length agg_columns
        in Inr \<lparr>ag_scanner = scanner, ag_columns = agg_columns, ag_sums = replicate n 0,
                ag_counts = replicate n 0, ag_mins = replicate n 0x7FFFFFFFFFFFFFFF,
                ag_maxs = replicate n 0x8000000000000000\<rparr>))"

definition aggregate_value :: "nat \<Rightarrow> u64 \<Rightarrow> AggregateScanner \<Rightarrow> AggregateScanner res" where
  "aggregate_value i v ag =
     bind_res (sadd_res (ag_counts ag ! i) 1) (\<lambda>count.
       Inr (ag\<lparr>ag_sums := (ag_sums ag)[i := fp_add (ag_sums ag ! i) (double_of_int (sint v))], ag_counts := (ag_counts ag)[i := count],
               ag_mins := (ag_mins ag)[i := smin (ag_mins ag ! i) v],
               ag_maxs := (ag_maxs ag)[i := smax (ag_maxs ag ! i) v]\<rparr>))"

definition aggregate_call :: "byte list list \<times> nat \<Rightarrow> AggregateScanner \<Rightarrow> AggregateScanner res" where
  "aggregate_call call ag = (case call of (cols, count) \<Rightarrow>
     fold_res (\<lambda>i ag. bind_res (nth_res cols (ag_columns ag ! i)) (\<lambda>data.
         fold_res (\<lambda>j ag. bind_res (read_elem data 0 j) (\<lambda>v. aggregate_value i v ag)) [0..<count] ag))
       [0..<length (ag_columns ag)] ag)"

definition AggregateScanner_Scan :: "bool \<Rightarrow> Predicate \<Rightarrow> AggregateScanner \<Rightarrow> AggregateScanner res" where
  "AggregateScanner_Scan avx512 p ag =
     bind_res (SegmentScanner_Scan avx512 p (ag_scanner ag)) (\<lambda>(calls, scanner').
       fold_res aggregate_call calls (ag\<lparr>ag_scanner := scanner'\<rparr>))"

definition AggregateScanner_Results :: "AggregateScanner \<Rightarrow> (u64 \<times> u64 \<times> u64 \<times> u64) list" where
  "AggregateScanner_Results ag =
     map (\<lambda>i. (ag_sums ag ! i, ag_counts ag ! i, ag_mins ag ! i, ag_maxs ag ! i)) [0..<length (ag_columns ag)]"

section \<open>Facts on masks\<close>

text \<open>Rows \<open>i\<close> up to \<open>n\<close> of the mask written with \<open>f\<close>.\<close>

definition write_rows :: "(nat \<Rightarrow> bool) \<Rightarrow> nat \<Rightarrow> nat \<Rightarrow> BlockFilter \<Rightarrow> BlockFilter" where
  "write_rows f i n msk = map (\<lambda>k. if i \<le> k \<and> k < n then f k else msk ! k) [0..<length msk]"

lemma length_write_rows [simp]: "length (write_rows f i n msk) = length msk"
  by (simp add: write_rows_def)

lemma nth_write_rows [simp]:
  "k < length msk \<Longrightarrow> write_rows f i n msk ! k = (if i \<le> k \<and> k < n then f k else msk ! k)"
  by (simp add: write_rows_def)

lemma write_rows_write_rows:
  assumes "i \<le> j" and "j \<le> m" and "m \<le> n" and "\<And>k. i \<le> k \<Longrightarrow> k < m \<Longrightarrow> f k = h k" and "\<And>k. j \<le> k \<Longrightarrow> k < n \<Longrightarrow> g k = h k"
  shows "write_rows g j n (write_rows f i m msk) = write_rows h i n msk"
proof (intro nth_equalityI)
  fix k assume "k < length (write_rows g j n (write_rows f i m msk))"
  then show "write_rows g j n (write_rows f i m msk) ! k = write_rows h i n msk ! k"
    using assms by (cases "j \<le> k"; cases "k < m") auto
qed simp

lemma write_rows_stores:
  assumes "n \<le> length msk" and "i \<le> n"
  shows "fold_res (\<lambda>k msk. upd_res msk k (\<lambda>_. f k)) [i..<n] msk = Inr (write_rows f i n msk)"
  using assms
proof (induction "n - i" arbitrary: i msk)
  case 0
  then show ?case by (auto intro!: nth_equalityI)
next
  case (Suc d)
  then have "i < n" by simp
  then have "write_rows f (Suc i) n (msk[i := f i]) = write_rows f i n msk"
    using Suc.prems by (intro nth_equalityI) (auto simp: nth_list_update)
  then show ?case
    using Suc.hyps(1) [of "Suc i" "msk[i := f i]"] Suc.hyps(2) Suc.prems \<open>i < n\<close>
    by (simp add: upt_conv_Cons upd_res_def)
qed

lemma store_lanes_writes:
  assumes "i + w \<le> length msk"
  shows "store_lanes w i m msk = Inr (write_rows (\<lambda>k. bit m (k - i)) i (i + w) msk)"
proof -
  have "fold_res (\<lambda>j msk. upd_res msk (i + j) (\<lambda>_. bit m j)) js =
      fold_res (\<lambda>k msk. upd_res msk k (\<lambda>_. bit m (k - i))) (map ((+) i) js)" for js
    by (induction js) (auto simp: fun_eq_iff intro!: arg_cong [where f = "bind_res _"])
  moreover have "map ((+) i) [0..<w] = [i..<i + w]" by (auto intro: nth_equalityI)
  ultimately show ?thesis
    using assms by (simp add: store_lanes_def write_rows_stores)
qed

lemma lane_mask_row:
  assumes "length xs = w" and "w \<le> 32" and "j < w"
  shows "bit (lane_mask rel xs (Set1 w v)) j = rel (xs ! j) v"
  using assms by (simp add: lane_mask_def bit_horner_sum_bit_iff Set1_def)

lemma vector_stores:
  assumes "w \<le> 32" and "b * w \<le> length data" and "length data \<le> length msk"
  shows "fold_res (\<lambda>b. store_lanes w (b * w) (lane_mask rel (Load w data (b * w)) (Set1 w v))) [0..<b] msk =
    Inr (write_rows (\<lambda>k. rel (data ! k) v) 0 (b * w) msk)"
  using assms(2)
proof (induction b)
  case 0
  show ?case by (auto intro!: nth_equalityI)
next
  case (Suc b)
  let ?m = "lane_mask rel (Load w data (b * w)) (Set1 w v)"
  have "write_rows (\<lambda>k. bit ?m (k - b * w)) (b * w) (b * w + w) (write_rows (\<lambda>k. rel (data ! k) v) 0 (b * w) msk) =
      write_rows (\<lambda>k. rel (data ! k) v) 0 (Suc b * w) msk"
    using assms(1) Suc.prems
    by (subst write_rows_write_rows [where h = "\<lambda>k. rel (data ! k) v"])
      (auto simp: lane_mask_row Load_def algebra_simps)
  then show ?case
    using Suc assms(3) by (simp add: fold_res_append store_lanes_writes algebra_simps)
qed

lemma VectorFilter_writes:
  fixes data :: "'a::len word list"
  assumes "LENGTH('a) = 32 \<or> LENGTH('a) = 64" and "length data \<le> length msk"
  shows "VectorFilter avx512 rel data value msk =
    Inr (write_rows (\<lambda>k. rel (data ! k) value) 0 (length data) msk)"
proof -
  let ?n = "length data" and ?w = "512 div LENGTH('a)" and ?f = "\<lambda>k. rel (data ! k) value"
  have w: "?w \<le> 32" "0 < ?w" "?w dvd 16" using assms(1) by auto
  have "?n div 16 * 16 \<le> ?n div ?w * ?w"
  proof -
    have "?w dvd ?n div 16 * 16" using w(3) by simp
    moreover have "?n div 16 * 16 \<le> ?n" by simp
    ultimately show ?thesis using w(2) by (metis div_le_mono dvd_div_mult_self mult_le_mono1)
  qed
  then have "scalar_stores rel data value [?n div 16 * 16..<?n] (write_rows ?f 0 (?n div ?w * ?w) msk) =
      Inr (write_rows ?f 0 ?n msk)"
    using assms(2) unfolding scalar_stores_def
    by (simp add: write_rows_stores write_rows_write_rows [where h = ?f])
  moreover have "?n div ?w * ?w \<le> ?n" by simp
  ultimately show ?thesis
    using assms(2) vector_stores [OF w(1), of "?n div ?w" data msk rel "value"]
    by (simp add: VectorFilter_def Let_def write_rows_stores scalar_stores_def)
qed

lemma negate_rows_writes:
  assumes "n \<le> length msk"
  shows "negate_rows n msk = Inr (write_rows (\<lambda>k. \<not> msk ! k) 0 n msk)"
  using assms
proof (induction n)
  case 0
  show ?case by (auto simp: negate_rows_def intro!: nth_equalityI)
next
  case (Suc n)
  have "write_rows (\<lambda>k. \<not> msk ! k) 0 (Suc n) msk = (write_rows (\<lambda>k. \<not> msk ! k) 0 n msk)[n := \<not> msk ! n]"
    using Suc.prems by (intro nth_equalityI) (auto simp: nth_list_update less_Suc_eq)
  then show ?case using Suc by (simp add: negate_rows_def fold_res_append upd_res_def)
qed

text \<open>Whatever the build, the first rows of the mask become the comparison of the data.\<close>

lemma scan_rows_mask:
  fixes data :: "'a::len word list"
  assumes "LENGTH('a) = 32 \<or> LENGTH('a) = 64" and "length data \<le> kScanBlockSize" and "length msk = kScanBlockSize"
    and "is_cmp pred"
  shows "\<exists>m. scan_rows avx512 pred data value msk = Inr m \<and> length m = kScanBlockSize \<and>
    (\<forall>k < length data. m ! k = cmp_holds pred (sint (data ! k)) (sint value))"
  using assms
  by (cases pred) (auto simp: VectorFilter_writes VectorFilter_Equal_def VectorFilter_LessThan_def
      VectorFilter_LessEqual_def negate_rows_writes BlockFilter_SetAll_def sless_sint sle_sint sint_inj)

section \<open>Facts on runs\<close>

definition rows_of_runs :: "(nat \<times> nat) list \<Rightarrow> nat list" where
  "rows_of_runs rs = concat (map (\<lambda>(r, n). [r..<r + n]) rs)"

lemma rows_of_runs_append [simp]: "rows_of_runs (xs @ ys) = rows_of_runs xs @ rows_of_runs ys"
  by (simp add: rows_of_runs_def)

lemma run_length_rows:
  assumes "n \<le> kMaxRun"
  shows "run_length n prev rs \<le> kMaxRun" and "run_length n prev rs \<le> n + length rs"
    and "take (run_length n prev rs - n) rs = [prev + 1..<prev + 1 + (run_length n prev rs - n)]"
proof -
  have "run_length n prev rs \<le> kMaxRun \<and> run_length n prev rs \<le> n + length rs \<and>
    take (run_length n prev rs - n) rs = [prev + 1..<prev + 1 + (run_length n prev rs - n)]"
    using assms
  proof (induction n prev rs rule: run_length.induct)
    case (2 n prev r rs)
    show ?case
    proof (cases "r = prev + 1 \<and> n < kMaxRun")
      case True
      then have IH: "run_length (n + 1) r rs \<le> kMaxRun" "run_length (n + 1) r rs \<le> n + 1 + length rs"
        "take (run_length (n + 1) r rs - (n + 1)) rs = [r + 1..<r + 1 + (run_length (n + 1) r rs - (n + 1))]"
        using 2 by simp_all
      define d where "d = run_length (n + 1) r rs - (n + 1)"
      have rl: "run_length n prev (r # rs) = run_length (n + 1) r rs" "run_length (n + 1) r rs - n = Suc d"
        using True run_length_ge [of "n + 1" r rs] by (simp_all add: d_def)
      have "take d rs = [r + 1..<r + 1 + d]" using IH(3) unfolding d_def .
      then have "take (Suc d) (r # rs) = [r..<r + Suc d]" by (subst upt_conv_Cons) simp_all
      then show ?thesis using True IH(1,2) unfolding rl by simp
    qed (use "2.prems" in auto)
  qed simp
  then show "run_length n prev rs \<le> kMaxRun" and "run_length n prev rs \<le> n + length rs"
    and "take (run_length n prev rs - n) rs = [prev + 1..<prev + 1 + (run_length n prev rs - n)]" by blast+
qed

lemma runs_rows:
  "rows_of_runs (runs ms) = ms \<and> (\<forall>(r, n) \<in> set (runs ms). 0 < n \<and> n \<le> kMaxRun)"
proof (induction ms rule: runs.induct)
  case 1
  show ?case by (simp add: rows_of_runs_def)
next
  case (2 r rs)
  define n where "n = run_length 1 r rs"
  have n: "1 \<le> n" "n \<le> kMaxRun" "take (n - 1) rs = [r + 1..<r + 1 + (n - 1)]"
    using run_length_ge [of 1 r rs] run_length_rows [of 1 r rs] unfolding n_def by (simp_all add: kMaxRun_def)
  have "take n (r # rs) = [r..<r + n]" using n by (cases n) (simp_all add: upt_conv_Cons)
  then have "[r..<r + n] @ drop n (r # rs) = r # rs" by (metis append_take_drop_id)
  moreover have "runs (r # rs) = (r, n) # runs (drop n (r # rs))"
    by (simp only: runs.simps Let_def n_def)
  ultimately show ?case using 2 [OF n_def] n(1,2) by (auto simp: rows_of_runs_def)
qed

lemma runs_length: "sum_list (map snd rs) = length (rows_of_runs rs)"
  by (induction rs) (auto simp: rows_of_runs_def)

section \<open>Facts on served columns\<close>

fun spec_value :: "ColumnSpec \<Rightarrow> nat \<Rightarrow> u64" where
  "spec_value (Spec32 e xs) r = scast (xs ! r)" | "spec_value (Spec64 e xs) r = xs ! r"

text \<open>The constants a scan compares a column with: the fast path reads the constant of a predicate
  at the width of the column.\<close>

fun const_fits :: "ColumnSpec \<Rightarrow> u64 \<Rightarrow> bool" where
  "const_fits (Spec32 e xs) v = in_srange TYPE(32) (sint v)" | "const_fits (Spec64 e xs) v = True"

definition table_ok :: "ColumnSpec list \<Rightarrow> nat \<Rightarrow> bool" where
  "table_ok cs n \<longleftrightarrow> (\<forall>c \<in> set cs. spec_ok c \<and> spec_rows c = n)"

lemma table_ok_nth: "table_ok cs n \<Longrightarrow> i < length cs \<Longrightarrow> spec_ok (cs ! i) \<and> spec_rows (cs ! i) = n"
  by (simp add: table_ok_def)

lemma sint_ucast_fits:
  fixes v :: u64
  assumes "in_srange TYPE(32) (sint v)"
  shows "sint (ucast v :: u32) = sint v"
proof -
  have "sint (ucast v :: u32) = signed_take_bit 31 (sint v)"
    by (simp add: sint_uint signed_take_bit_take_bit unsigned_ucast_eq flip: take_bit_eq_mod)
  also have "\<dots> = sint v" using assms by (intro signed_take_bit_int_eq_self) (simp_all add: in_srange_def)
  finally show ?thesis .
qed

lemma read_low_word: "read_word (bytes_of (v :: u64)) 0 = Inr (ucast v :: u32)"
proof -
  have "bit (word_of_bytes (take 4 (bytes_of v)) :: u32) n = bit (ucast v :: u32) n" if "n < 32" for n
  proof -
    have "n div 8 < 4" using that by simp
    then show ?thesis using that by (simp add: bit_word_of_bytes bytes_of_nth bit_drop_bit_eq bit_ucast_iff)
  qed
  then show ?thesis by (simp add: read_word_def bit_eq_iff)
qed

lemma sint_spec_value: "sint (spec_value (Spec32 e xs) r) = sint (xs ! r)"
  by (simp add: sint_scast)

text \<open>Scanning a block of a served column compares its values.\<close>

lemma ScanBlock_serves:
  assumes s: "segment_serves s cs" and i: "cs_column_index csc < length cs" and ok: "spec_ok (cs ! cs_column_index csc)"
    and n: "offset + count \<le> spec_rows (cs ! cs_column_index csc)" "0 < count" "count \<le> kScanBlockSize"
    and v: "const_fits (cs ! cs_column_index csc) v" and "is_cmp pred"
  shows "\<exists>m s'. ScanBlock avx512 csc offset count (bytes_of v) pred BlockFilter_new s = Inr (m, s') \<and>
    segment_serves s' cs \<and> sg_header s' = sg_header s \<and> length m = kScanBlockSize \<and>
    (\<forall>k < count. m ! k = cmp_holds pred (sint (spec_value (cs ! cs_column_index csc) (offset + k))) (sint v))"
proof -
  let ?i = "cs_column_index csc"
  have len: "length BlockFilter_new = kScanBlockSize" by (simp add: BlockFilter_new_def)
  obtain s' where s': "Segment_GetColumnData ?i offset count s = Inr (spec_bytes (cs ! ?i) offset count, s')"
    "segment_serves s' cs" "sg_header s' = sg_header s"
    using GetColumnData_serves [OF s i ok n(1)] by blast
  note ty = Segment_ColumnType_serves [OF s i]
  show ?thesis
  proof (cases "cs ! ?i")
    case (Spec32 e xs)
    let ?data = "take count (drop offset xs)"
    have data: "length ?data = count" using n(1) Spec32 by simp
    then have "read_array (bytes_of_array ?data) count = Inr ?data"
      using read_array_bytes [of ?data "[]"] by simp
    moreover obtain m where "scan_rows avx512 pred ?data (ucast v) BlockFilter_new = Inr m" "length m = kScanBlockSize"
      "\<forall>k < count. m ! k = cmp_holds pred (sint (?data ! k)) (sint (ucast v :: u32))"
      using scan_rows_mask [of ?data BlockFilter_new pred avx512 "ucast v"] data n(3) assms(8) len by auto
    ultimately show ?thesis
      using ty s' n v assms(8) Spec32
      by (auto simp: ScanBlock_def read_low_word sint_spec_value sint_ucast_fits simp del: spec_value.simps)
  next
    case (Spec64 e xs)
    let ?data = "take count (drop offset xs)"
    have data: "length ?data = count" using n(1) Spec64 by simp
    then have "read_array (bytes_of_array ?data) count = Inr ?data"
      using read_array_bytes [of ?data "[]"] by simp
    moreover obtain m where "scan_rows avx512 pred ?data v BlockFilter_new = Inr m" "length m = kScanBlockSize"
      "\<forall>k < count. m ! k = cmp_holds pred (sint (?data ! k)) (sint v)"
      using scan_rows_mask [of ?data BlockFilter_new pred avx512 v] data n(3) assms(8) len by auto
    ultimately show ?thesis
      using ty s' n v assms(8) Spec64 by (auto simp: ScanBlock_def read_word_here)
  qed
qed

lemma WidenValue_spec:
  assumes "r < spec_rows c"
  shows "WidenValue (spec_bytes c r 1) (spec_type c) 0 = Inr (spec_value c r)"
    and "length (spec_bytes c r n) = n * TypeSize (spec_type c) \<or> spec_rows c < r + n"
  using assms by (cases c; simp add: take_Suc_conv_app_nth read_elem_def read_word_here hd_drop_conv_nth take_Suc;
      cases "spec_rows c < r + n"; simp)+

lemma read_row_serves:
  assumes "segment_serves s cs" and "table_ok cs n" and "row < n"
  shows "read_row (map spec_column cs) s row = Inr (map (\<lambda>c. spec_value c row) cs)"
proof -
  have "Column_ReadValues row 1 (spec_column (cs ! i)) = Inr (spec_bytes (cs ! i) row 1)"
    "length (spec_bytes (cs ! i) row 1) \<le> 8"
    "Segment_ColumnType s i = Inr (spec_type (cs ! i))"
    "WidenValue (spec_bytes (cs ! i) row 1) (spec_type (cs ! i)) 0 = Inr (spec_value (cs ! i) row)"
    if "i < length cs" for i
    using that assms table_ok_nth [OF assms(2) that] ReadValues_spec [of row 1 "cs ! i"]
      Segment_ColumnType_serves [OF assms(1) that] WidenValue_spec(1) [of row "cs ! i"]
    by (auto, cases "cs ! i", simp_all)
  then show ?thesis
    unfolding read_row_def
    by (subst map_res_Inr [where g = "\<lambda>i. spec_value (cs ! i) row"]) (auto intro!: nth_equalityI)
qed

lemma read_run_serves:
  assumes "segment_serves s cs" and "table_ok cs n" and "row + k \<le> n"
  shows "read_run (map spec_column cs) s row k = Inr (map (\<lambda>c. spec_bytes c row k) cs, k)"
proof -
  have "Column_ReadValues row k (spec_column (cs ! i)) = Inr (spec_bytes (cs ! i) row k)"
    "length (spec_bytes (cs ! i) row k) = k * TypeSize (spec_type (cs ! i))"
    "Segment_ColumnType s i = Inr (spec_type (cs ! i))"
    if "i < length cs" for i
    using that assms table_ok_nth [OF assms(2) that] ReadValues_spec [of row k "cs ! i"]
      Segment_ColumnType_serves [OF assms(1) that]
    by (auto, cases "cs ! i", simp_all)
  then show ?thesis
    unfolding read_run_def
    by (subst map_res_Inr [where g = "\<lambda>i. spec_bytes (cs ! i) row k"]) (auto intro!: nth_equalityI)
qed

lemma filter_res_Inr: "(\<And>x. x \<in> set xs \<Longrightarrow> f x = Inr (Q x)) \<Longrightarrow> filter_res f xs = Inr (filter Q xs)"
  by (induction xs) simp_all

section \<open>Facts on scanning a block\<close>

text \<open>A predicate answers \<open>Q\<close> on the rows of a table: a single comparison through its operands, any
  other predicate through its program.\<close>

definition answers :: "Predicate \<Rightarrow> ColumnSpec list \<Rightarrow> nat \<Rightarrow> (nat \<Rightarrow> bool) \<Rightarrow> bool" where
  "answers p cs n Q \<longleftrightarrow>
     (if fast_path p
      then let col = bp_column_indices (pr_program p) ! 0; v = bp_constants (pr_program p) ! 0;
               pt = pr_column_predicates p ! 0
        in col < length cs \<and> is_cmp pt \<and> const_fits (cs ! col) v \<and>
           (\<forall>r < n. Q r = cmp_holds pt (sint (spec_value (cs ! col) r)) (sint v))
      else \<forall>r < n. EvaluateRow (pr_program p) (map (\<lambda>c. [spec_value c r]) cs) 0 = Inr (Q r))"

definition scanners_for :: "ColumnScanner list \<Rightarrow> ColumnSpec list \<Rightarrow> bool" where
  "scanners_for css cs \<longleftrightarrow> length css = length cs \<and> (\<forall>i < length cs. cs_column_index (css ! i) = i)"

definition calls_for :: "ColumnSpec list \<Rightarrow> (nat \<times> nat) list \<Rightarrow> (byte list list \<times> nat) list" where
  "calls_for cs rs = map (\<lambda>(r, k). (map (\<lambda>c. spec_bytes c r k) cs, k)) rs"

definition shift_runs :: "nat \<Rightarrow> (nat \<times> nat) list \<Rightarrow> (nat \<times> nat) list" where
  "shift_runs d rs = map (\<lambda>(r, k). (d + r, k)) rs"

lemma rows_of_shifted: "rows_of_runs (shift_runs d rs) = map ((+) d) (rows_of_runs rs)"
proof (induction rs)
  case (Cons x rs)
  have "map ((+) d) [a..<b] = [d + a..<d + b]" for a b by (auto intro: nth_equalityI)
  with Cons show ?case by (auto simp: rows_of_runs_def shift_runs_def add.assoc split: prod.splits)
qed (simp add: rows_of_runs_def shift_runs_def)

lemma filter_shift: "map ((+) d) (filter (\<lambda>i. Q (d + i)) [0..<k]) = filter Q [d..<d + k]"
proof -
  have "[d..<d + k] = map ((+) d) [0..<k]" by (auto intro: nth_equalityI)
  then show ?thesis by (simp add: filter_map comp_def)
qed

lemma block_rows:
  assumes "segment_serves s cs" and "table_ok cs n" and "answers p cs n Q" and "scanners_for css cs"
    and "off + k \<le> n" and "0 < k" and "k \<le> kScanBlockSize"
  shows "\<exists>ms s'. candidates avx512 css p off k s = Inr (ms, s') \<and> segment_serves s' cs \<and>
    sg_header s' = sg_header s \<and>
    (if fast_path p then Inr ms else interpret_rows (pr_program p) (map spec_column cs) s' off ms) =
      Inr (filter (\<lambda>i. Q (off + i)) [0..<k])"
proof (cases "fast_path p")
  case True
  let ?col = "bp_column_indices (pr_program p) ! 0" and ?v = "bp_constants (pr_program p) ! 0"
    and ?pt = "pr_column_predicates p ! 0"
  have a: "?col < length cs" "is_cmp ?pt" "const_fits (cs ! ?col) ?v"
    and q: "\<forall>r < n. Q r = cmp_holds ?pt (sint (spec_value (cs ! ?col) r)) (sint ?v)"
    using assms(3) True by (simp_all add: answers_def Let_def)
  have c: "cs_column_index (css ! ?col) = ?col" "nth_res css ?col = Inr (css ! ?col)"
    using assms(4) a(1) by (simp_all add: scanners_for_def nth_res_def)
  note t = table_ok_nth [OF assms(2) a(1)]
  obtain m s' where m: "ScanBlock avx512 (css ! ?col) off k (bytes_of ?v) ?pt BlockFilter_new s = Inr (m, s')"
    "segment_serves s' cs" "sg_header s' = sg_header s" "length m = kScanBlockSize"
    "\<forall>i < k. m ! i = cmp_holds ?pt (sint (spec_value (cs ! ?col) (off + i))) (sint ?v)"
    using ScanBlock_serves [of s cs "css ! ?col" off k ?v ?pt avx512] assms a c t by auto
  have "filter (\<lambda>i. m ! i) [0..<k] = filter (\<lambda>i. Q (off + i)) [0..<k]"
    using m(5) q assms(5) by (intro filter_cong) auto
  then show ?thesis
    using True m(1-4) c assms(7) by (simp add: candidates_def compact_def)
next
  case False
  have "read_row (map spec_column cs) s (off + i) = Inr (map (\<lambda>c. spec_value c (off + i)) cs)" if "i < k" for i
    using that assms(5) by (intro read_row_serves [OF assms(1,2)]) simp
  then have "interpret_rows (pr_program p) (map spec_column cs) s off [0..<k] =
      Inr (filter (\<lambda>i. Q (off + i)) [0..<k])"
    using False assms(3,5) unfolding interpret_rows_def
    by (intro filter_res_Inr) (simp add: answers_def comp_def)
  moreover have "filter (\<lambda>i. BlockFilter_new ! i) [0..<k] = [0..<k]"
    using assms(7) by (simp add: BlockFilter_new_def filter_id_conv)
  ultimately show ?thesis
    using False assms(1,7) by (simp add: candidates_def compact_def BlockFilter_new_def)
qed

lemma deliver_runs:
  assumes "segment_serves s cs" and "table_ok cs n" and "\<forall>r \<in> set (rows_of_runs rs). off + r < n"
    and "\<forall>(r, k) \<in> set rs. 0 < k"
  shows "map_res (\<lambda>(r, k). read_run (map spec_column cs) s (off + r) k) rs =
    Inr (calls_for cs (shift_runs off rs))"
  using assms(3,4)
proof (induction rs)
  case (Cons x rs)
  obtain r k where x: "x = (r, k)" by force
  have "r + k - 1 \<in> set (rows_of_runs (x # rs))" using Cons.prems(2) by (auto simp: x rows_of_runs_def)
  then have "off + (r + k - 1) < n" using Cons.prems(1) by blast
  then have "off + r + k \<le> n" using Cons.prems(2) by (auto simp: x)
  moreover have "map_res (\<lambda>(r, k). read_run (map spec_column cs) s (off + r) k) rs =
      Inr (calls_for cs (shift_runs off rs))"
    using Cons.prems by (intro Cons.IH) (auto simp: rows_of_runs_def)
  ultimately show ?case
    using read_run_serves [OF assms(1,2), of "off + r" k] by (simp add: x calls_for_def shift_runs_def)
qed (simp add: calls_for_def shift_runs_def)

text \<open>The tests that skip blocks are sound when a skipped block has no row that \<open>Q\<close> selects.\<close>

definition prunes_soundly ::
  "ScanContext \<Rightarrow> ColumnScanner list \<Rightarrow> Predicate \<Rightarrow> ColumnSpec list \<Rightarrow> nat \<Rightarrow> (nat \<Rightarrow> bool) \<Rightarrow> bool" where
  "prunes_soundly ctx css p cs n Q \<longleftrightarrow> (\<forall>b s. segment_serves s cs \<longrightarrow>
     (\<exists>zm_ok bf_ok. zone_map_allows ctx css s p b = Inr zm_ok \<and> bloom_allows ctx css p = Inr bf_ok \<and>
        (zm_ok \<and> bf_ok \<or> (\<forall>r < n. r div sc_block_size ctx = b \<longrightarrow> \<not> Q r))))"

definition stats_count :: "ScanStats \<Rightarrow> nat \<Rightarrow> nat \<Rightarrow> nat \<Rightarrow> bool" where
  "stats_count st blocks scanned returned \<longleftrightarrow> ss_blocks_scanned st = blocks \<and> ss_rows_scanned st = scanned \<and>
     ss_rows_returned st = returned \<and> ss_rows_filtered st + returned \<le> scanned \<and>
     (ss_blocks_pruned_zone_map st = 0 \<and> ss_blocks_pruned_bloom st = 0 \<longrightarrow>
        ss_rows_filtered st + returned = scanned)"

definition run_sizes_ok :: "(nat \<times> nat) list \<Rightarrow> bool" where
  "run_sizes_ok rs \<longleftrightarrow> (\<forall>(r, k) \<in> set rs. 0 < k \<and> k \<le> kMaxRun)"

lemma Scan_block_serves:
  assumes s: "segment_serves s cs" and t: "table_ok cs n" and q: "answers p cs n Q" and css: "scanners_for css cs"
    and pr: "prunes_soundly ctx css p cs n Q" and bs: "0 < sc_block_size ctx" "sc_block_size ctx \<le> kScanBlockSize"
    and off: "off = b * sc_block_size ctx" "off < n" and k: "k = min (sc_block_size ctx) (n - off)"
    and st: "stats_count st b off m"
  shows "\<exists>s' st' rs. Scan_block avx512 ctx css p (map spec_column cs) n b (s, st, outs) =
      Inr (s', st', outs @ calls_for cs rs) \<and> segment_serves s' cs \<and> sg_header s' = sg_header s \<and>
    rows_of_runs rs = filter Q [off..<off + k] \<and> run_sizes_ok rs \<and>
    stats_count st' (b + 1) (off + k) (m + length (filter Q [off..<off + k]))"
proof -
  obtain zm_ok bf_ok where zb: "zone_map_allows ctx css s p b = Inr zm_ok" "bloom_allows ctx css p = Inr bf_ok"
    "zm_ok \<and> bf_ok \<or> (\<forall>r < n. r div sc_block_size ctx = b \<longrightarrow> \<not> Q r)"
    using pr s unfolding prunes_soundly_def by blast
  have kn: "off + k \<le> n" "0 < k" "k \<le> kScanBlockSize" using off(2) bs k by auto
  show ?thesis
  proof (cases "zm_ok \<and> bf_ok")
    case True
    let ?ms = "filter (\<lambda>i. Q (off + i)) [0..<k]"
    obtain cand s' where c: "candidates avx512 css p off k s = Inr (cand, s')" "segment_serves s' cs"
      "sg_header s' = sg_header s"
      "(if fast_path p then Inr cand else interpret_rows (pr_program p) (map spec_column cs) s' off cand) = Inr ?ms"
      using block_rows [OF s t q css kn] by blast
    let ?rs = "runs ?ms"
    have rs: "rows_of_runs ?rs = ?ms" "\<forall>(r, k) \<in> set ?rs. 0 < k \<and> k \<le> kMaxRun" using runs_rows by blast+
    have "map_res (\<lambda>(r, n). read_run (map spec_column cs) s' (off + r) n) ?rs =
        Inr (calls_for cs (shift_runs off ?rs))"
      using rs kn(1) by (intro deliver_runs [OF c(2) t]) auto
    moreover have sel: "rows_of_runs (shift_runs off ?rs) = filter Q [off..<off + k]"
      by (simp add: rows_of_shifted rs(1) filter_shift)
    moreover have "sum_list (map snd (calls_for cs (shift_runs off ?rs))) = length (filter Q [off..<off + k])"
      using runs_length [of "shift_runs off ?rs"] sel by (simp add: calls_for_def comp_def case_prod_unfold)
    moreover have "run_sizes_ok (shift_runs off ?rs)" using rs(2) by (auto simp: run_sizes_ok_def shift_runs_def)
    moreover have "length (filter Q [off..<off + k]) \<le> k" using length_filter_le [of Q "[off..<off + k]"] by simp
    ultimately show ?thesis
      using st c True zb(1,2)
      by (intro exI [of _ s'] exI [of _ "shift_runs off ?rs"] exI)
        (auto simp: Scan_block_def Let_def stats_count_def simp flip: off(1) k)
  next
    case False
    have "r div sc_block_size ctx = b" if "off \<le> r" "r < off + k" for r
      using that bs(1) k off(1) by (intro div_nat_eqI) (auto simp: algebra_simps)
    then have none: "filter Q [off..<off + k] = []" using False zb(3) kn(1) by (auto simp: filter_empty_conv)
    have "\<exists>st'. Scan_block avx512 ctx css p (map spec_column cs) n b (s, st, outs) = Inr (s, st', outs) \<and>
        stats_count st' (b + 1) (off + k) m"
      using False st zb(1,2)
      by (auto simp: Scan_block_def Let_def stats_count_def simp flip: off(1) k)
    then show ?thesis
      using s none by (auto intro!: exI [of _ "[]"] simp: calls_for_def rows_of_runs_def run_sizes_ok_def)
  qed
qed

section \<open>Facts on scanning a segment\<close>

lemma Scan_blocks_serve:
  assumes s: "segment_serves s cs" and t: "table_ok cs n" and q: "answers p cs n Q" and css: "scanners_for css cs"
    and pr: "prunes_soundly ctx css p cs n Q" and bs: "0 < sc_block_size ctx" "sc_block_size ctx \<le> kScanBlockSize"
    and j: "j \<le> (n + sc_block_size ctx - 1) div sc_block_size ctx"
  shows "\<exists>s' st rs. fold_res (Scan_block avx512 ctx css p (map spec_column cs) n) [0..<j] (s, ScanStats_zero, []) =
      Inr (s', st, calls_for cs rs) \<and> segment_serves s' cs \<and> sg_header s' = sg_header s \<and>
    rows_of_runs rs = filter Q [0..<min (j * sc_block_size ctx) n] \<and> run_sizes_ok rs \<and>
    stats_count st j (min (j * sc_block_size ctx) n) (length (filter Q [0..<min (j * sc_block_size ctx) n]))"
  using j
proof (induction j)
  case 0
  show ?case
    using s by (auto intro!: exI [of _ "[]"]
        simp: calls_for_def rows_of_runs_def run_sizes_ok_def stats_count_def ScanStats_zero_def)
next
  case (Suc j)
  let ?bs = "sc_block_size ctx"
  obtain s1 st1 rs1 where IH: "fold_res (Scan_block avx512 ctx css p (map spec_column cs) n) [0..<j] (s, ScanStats_zero, []) =
      Inr (s1, st1, calls_for cs rs1)" "segment_serves s1 cs" "sg_header s1 = sg_header s"
    "rows_of_runs rs1 = filter Q [0..<min (j * ?bs) n]" "run_sizes_ok rs1"
    "stats_count st1 j (min (j * ?bs) n) (length (filter Q [0..<min (j * ?bs) n]))"
    using Suc.IH Suc.prems by auto
  define off k where "off = j * ?bs" and "k = min ?bs (n - off)"
  have "Suc j * ?bs \<le> n + ?bs - 1" using Suc.prems bs(1) by (simp add: less_eq_div_iff_mult_less_eq)
  then have off: "off < n" using bs(1) by (simp add: off_def)
  then have mins: "min (j * ?bs) n = off" "min (Suc j * ?bs) n = off + k" by (auto simp: off_def k_def)
  obtain s2 st2 rs2 where B: "Scan_block avx512 ctx css p (map spec_column cs) n j (s1, st1, calls_for cs rs1) =
      Inr (s2, st2, calls_for cs rs1 @ calls_for cs rs2)" "segment_serves s2 cs" "sg_header s2 = sg_header s1"
    "rows_of_runs rs2 = filter Q [off..<off + k]" "run_sizes_ok rs2"
    "stats_count st2 (j + 1) (off + k) (length (filter Q [0..<off]) + length (filter Q [off..<off + k]))"
    using Scan_block_serves [OF IH(2) t q css pr bs off_def off k_def IH(6) [unfolded mins]] by blast
  have up: "[0..<off + k] = [0..<off] @ [off..<off + k]" by (metis le0 upt_add_eq_append add_0)
  show ?case
    using IH B unfolding mins up
    by (auto intro!: exI [of _ "rs1 @ rs2"] simp: fold_res_append calls_for_def run_sizes_ok_def)
qed

lemma load_columns_serve:
  assumes "segment_serves s cs" and "\<forall>c \<in> set cs. spec_ok c" and "unat (Segment_NumColumns s) = length cs"
  shows "\<exists>s'. load_columns s = Inr (map spec_column cs, s') \<and> segment_serves s' cs \<and> sg_header s' = sg_header s"
proof -
  let ?f = "\<lambda>c (cols, s). bind_res (Segment_GetColumn c s) (\<lambda>(col, s'). Inr (cols @ [col], s'))"
  have "\<exists>s'. fold_res ?f [0..<j] ([], s) = Inr (map spec_column (take j cs), s') \<and> segment_serves s' cs \<and>
      sg_header s' = sg_header s" if "j \<le> length cs" for j
    using that
  proof (induction j)
    case (Suc j)
    then obtain s1 where s1: "fold_res ?f [0..<j] ([], s) = Inr (map spec_column (take j cs), s1)"
      "segment_serves s1 cs" "sg_header s1 = sg_header s" by auto
    obtain s2 where "Segment_GetColumn j s1 = Inr (spec_column (cs ! j), s2)" "segment_serves s2 cs"
      "sg_header s2 = sg_header s1"
      using Segment_GetColumn_serves [OF s1(2), of j] Suc.prems assms(2) by auto
    with s1 Suc.prems show ?case by (simp add: fold_res_append take_Suc_conv_app_nth)
  qed (use assms(1) in simp)
  from this [of "length cs"] show ?thesis by (simp add: load_columns_def assms(3))
qed

text \<open>The state in which a scanner of a table is: the segment serves the columns, and there is a
  column scanner for each.\<close>

definition scanner_serves :: "SegmentScanner \<Rightarrow> ColumnSpec list \<Rightarrow> nat \<Rightarrow> bool" where
  "scanner_serves sc cs n \<longleftrightarrow> segment_serves (sg_segment sc) cs \<and> table_ok cs n \<and>
     scanners_for (sg_column_scanners sc) cs \<and> unat (Segment_NumColumns (sg_segment sc)) = length cs \<and>
     unat (Segment_NumRows (sg_segment sc)) = n \<and> n + sc_block_size (sg_context sc) \<le> 2 ^ 64 \<and>
     0 < sc_block_size (sg_context sc) \<and> sc_block_size (sg_context sc) \<le> kScanBlockSize"

lemma Scan_serves:
  assumes sc: "scanner_serves sc cs n" and q: "answers p cs n Q" and z: "sg_stats sc = ScanStats_zero"
    and pr: "prunes_soundly (sg_context sc) (sg_column_scanners sc) p cs n Q"
  shows "\<exists>rs sc'. SegmentScanner_Scan avx512 p sc = Inr (calls_for cs rs, sc') \<and>
    rows_of_runs rs = filter Q [0..<n] \<and> run_sizes_ok rs \<and> scanner_serves sc' cs n \<and>
    stats_count (sg_stats sc') ((n + sc_block_size (sg_context sc) - 1) div sc_block_size (sg_context sc)) n
      (length (filter Q [0..<n]))"
proof -
  let ?bs = "sc_block_size (sg_context sc)" and ?s = "sg_segment sc"
  have s: "segment_serves ?s cs" and t: "table_ok cs n" and css: "scanners_for (sg_column_scanners sc) cs"
    and nc: "unat (Segment_NumColumns ?s) = length cs" and nr: "unat (Segment_NumRows ?s) = n"
    and bs: "0 < ?bs" "?bs \<le> kScanBlockSize" and lim: "n + ?bs \<le> 2 ^ 64"
    using sc by (simp_all add: scanner_serves_def)
  let ?nb = "(n + ?bs - 1) div ?bs"
  have nb: "(n + ?bs - 1) mod 2 ^ 64 = n + ?bs - 1" using lim bs(1) by (intro mod_less) linarith
  obtain s1 where s1: "load_columns ?s = Inr (map spec_column cs, s1)" "segment_serves s1 cs" "sg_header s1 = sg_header ?s"
    using load_columns_serve [OF s _ nc] t by (auto simp: table_ok_def)
  have full: "min (?nb * ?bs) n = n" using le_ceil_times [OF bs(1), of n] by simp
  obtain s2 st rs where "fold_res (Scan_block avx512 (sg_context sc) (sg_column_scanners sc) p (map spec_column cs) n)
      [0..<?nb] (s1, ScanStats_zero, []) = Inr (s2, st, calls_for cs rs)" "segment_serves s2 cs" "sg_header s2 = sg_header s1"
    "rows_of_runs rs = filter Q [0..<n]" "run_sizes_ok rs" "stats_count st ?nb n (length (filter Q [0..<n]))"
    using Scan_blocks_serve [OF s1(2) t q css pr bs le_refl] unfolding full by blast
  then show ?thesis
    using s1 sc z nb nr bs(1)
    by (auto simp: SegmentScanner_Scan_def Let_def scanner_serves_def Segment_NumRows_def Segment_NumColumns_def
        intro!: exI [of _ rs])
qed

section \<open>Facts on the queries of a scan\<close>

definition row_env :: "ColumnSpec list \<Rightarrow> nat \<Rightarrow> nat \<Rightarrow> u64" where
  "row_env cs r c = spec_value (cs ! c) r"

text \<open>An expression the scan evaluates by its meaning: a single comparison must compare with a constant
  of the column's width, and a negated comparison, which the fast path would confuse with the
  comparison, is excluded.\<close>

definition scannable :: "pexp \<Rightarrow> ColumnSpec list \<Rightarrow> bool" where
  "scannable e cs \<longleftrightarrow> (\<forall>c \<in> set (p_cols e). c < length cs) \<and> length (p_cols e) \<le> 2 ^ 32 \<and>
     (length (p_cols e) = 1 \<and> length (p_consts e) = 1 \<longrightarrow>
        is_comparison e \<and> const_fits (cs ! cmp_col e) (cmp_const e))"

lemma length_p_consts: "length (p_consts e) \<le> length (p_cols e)"
  by (induction e) simp_all

lemma length_column_predicates:
  "length (pr_column_predicates (build_postfix e p)) = length (pr_column_predicates p) + length (p_cols e)"
  by (induction e arbitrary: p) (simp_all add: builder_defs Let_def)

lemma eval_pexp_cong: "(\<And>c. c \<in> set (p_cols e) \<Longrightarrow> \<rho> c = \<sigma> c) \<Longrightarrow> eval_pexp \<rho> e = eval_pexp \<sigma> e"
  by (induction e) auto

lemma postfix_lists:
  "bp_constants (pr_program (build_postfix e Predicate_empty)) = p_consts e"
  "bp_column_indices (pr_program (build_postfix e Predicate_empty)) = p_cols e"
  "length (pr_column_predicates (build_postfix e Predicate_empty)) = length (p_cols e)"
  by (simp_all add: build_postfix_program length_column_predicates Predicate_empty_def BytecodeProgram_empty_def
      extend_program_def)

lemma row_of_cells: "c < length cs \<Longrightarrow> row_of (map (\<lambda>c. [spec_value c r]) cs) 0 c = row_env cs r c"
  by (simp add: row_of_def row_env_def)

lemma comparison_lists:
  assumes "is_comparison e"
  shows "p_cols e = [cmp_col e]" and "p_consts e = [cmp_const e]"
    and "pr_column_predicates (build_postfix e Predicate_empty) = [cmp_type e]"
  using assms by (cases e; simp add: builder_defs Let_def Predicate_empty_def)+

lemma answers_postfix:
  assumes "scannable e cs"
  shows "answers (build_postfix e Predicate_empty) cs n (\<lambda>r. eval_pexp (row_env cs r) e)"
proof (cases "fast_path (build_postfix e Predicate_empty)")
  case True
  then have cmp: "is_comparison e" and fits: "const_fits (cs ! cmp_col e) (cmp_const e)"
    using assms by (auto simp: fast_path_def postfix_lists scannable_def)
  then show ?thesis
    using True assms eval_comparison [OF cmp]
    by (simp add: answers_def postfix_lists comparison_lists scannable_def row_env_def Let_def)
next
  case False
  have "EvaluateRow (pr_program (build_postfix e Predicate_empty)) (map (\<lambda>c. [spec_value c r]) cs) 0 =
      Inr (eval_pexp (row_env cs r) e)" for r
  proof -
    have "row_ok (map (\<lambda>c. [spec_value c r]) cs) 0 e" using assms by (simp add: row_ok_def scannable_def)
    moreover have "eval_pexp (row_of (map (\<lambda>c. [spec_value c r]) cs) 0) e = eval_pexp (row_env cs r) e"
      using assms by (intro eval_pexp_cong row_of_cells) (simp add: scannable_def)
    ultimately show ?thesis
      using assms length_p_consts [of e] by (simp add: EvaluateRow_postfix scannable_def)
  qed
  then show ?thesis using False by (simp add: answers_def)
qed

text \<open>A conjunction of comparisons built in infix order.\<close>

definition conj_scannable :: "pexp \<Rightarrow> pexp list \<Rightarrow> ColumnSpec list \<Rightarrow> bool" where
  "conj_scannable e es cs \<longleftrightarrow> length es < 2 ^ 32 \<and> (\<forall>e' \<in> set (e # es). is_comparison e' \<and> cmp_col e' < length cs) \<and>
     const_fits (cs ! cmp_col e) (cmp_const e)"

lemma fold_and_links: "fold (eval_link \<rho>) (map LAnd es) b = (b \<and> (\<forall>e \<in> set es. eval_pexp \<rho> e))"
  by (induction es arbitrary: b) auto

lemma answers_conj:
  assumes "conj_scannable e es cs"
  shows "answers (conj_predicate e es) cs n (\<lambda>r. \<forall>e' \<in> set (e # es). eval_pexp (row_env cs r) e')"
proof -
  have cmp: "\<forall>e' \<in> set (e # es). is_comparison e'" using assms by (simp add: conj_scannable_def)
  note lists = conj_predicate_lists [OF cmp]
  show ?thesis
  proof (cases es)
    case Nil
    then show ?thesis
      using assms eval_comparison [of e] lists [unfolded Nil]
      by (simp add: answers_def fast_path_def conj_scannable_def Let_def row_env_def)
  next
    case (Cons e1 es1)
    have cols: "set (infix_cols e (map LAnd es)) = cmp_col ` set (e # es)"
      "length (infix_cols e (map LAnd es)) = length (e # es)"
    proof -
      have "concat (map l_cols (map LAnd es)) = map cmp_col es"
        using cmp by (induction es) (simp_all add: l_cols_def comparison_lists)
      then show "set (infix_cols e (map LAnd es)) = cmp_col ` set (e # es)"
        "length (infix_cols e (map LAnd es)) = length (e # es)"
        using cmp by (simp_all add: infix_cols_def comparison_lists)
    qed
    have "EvaluateRow (pr_program (conj_predicate e es)) (map (\<lambda>c. [spec_value c r]) cs) 0 =
        Inr (\<forall>e' \<in> set (e # es). eval_pexp (row_env cs r) e')" for r
    proof -
      have "eval_pexp (row_of (map (\<lambda>c. [spec_value c r]) cs) 0) e' = eval_pexp (row_env cs r) e'"
        if "e' \<in> set (e # es)" for e'
        using that assms by (intro eval_pexp_cong row_of_cells) (auto simp: conj_scannable_def comparison_lists)
      then show ?thesis
        using assms cmp cols unfolding conj_predicate_def
        by (subst EvaluateRow_infix) (auto simp: conj_scannable_def fold_and_links)
    qed
    moreover have "\<not> fast_path (conj_predicate e es)" unfolding fast_path_def lists by (simp add: Cons)
    ultimately show ?thesis by (simp add: answers_def)
  qed
qed

section \<open>Facts on skipping blocks\<close>

text \<open>The indexes of the scanners cover the table: each zone-map entry bounds the rows of the scan block
  of its number, and each Bloom filter holds every value of its column, widened.\<close>

definition zone_maps_cover :: "nat \<Rightarrow> ColumnScanner list \<Rightarrow> ColumnSpec list \<Rightarrow> nat \<Rightarrow> bool" where
  "zone_maps_cover bs css cs n \<longleftrightarrow> (\<forall>i < length cs. \<forall>b < length (zm_entries (cs_zone_map (css ! i))).
     covers_ints (zm_entries (cs_zone_map (css ! i)) ! b) (spec_value (cs ! i) ` {r. r < n \<and> r div bs = b}))"

definition bloom_filters_cover :: "ColumnScanner list \<Rightarrow> ColumnSpec list \<Rightarrow> nat \<Rightarrow> bool" where
  "bloom_filters_cover css cs n \<longleftrightarrow>
     (\<forall>i < length cs. bloom_covers (cs_bloom_filter (css ! i)) (spec_value (cs ! i) ` {..<n}))"

lemma CanMatch_cmp: "is_cmp p \<Longrightarrow> IsNumeric t \<Longrightarrow>
    CanMatch t p bs e = (if dispatches p then CanMatch_at t p bs e else Inr True)"
  by (simp add: CanMatch_def)

lemma ShouldScan32:
  fixes v :: u64
  assumes "is_cmp pt" and "in_srange TYPE(32) (sint v)" and "b < length (zm_entries zm) \<longrightarrow> covers_ints (zm_entries zm ! b) V"
  shows "\<exists>ok. ShouldScanBlock zm b Int32 pt (bytes_of (ucast v :: u32)) = Inr ok \<and>
    (ok \<or> (\<forall>x \<in> (V :: u64 set). \<not> cmp_holds pt (sint x) (sint v)))"
proof (cases "b < length (zm_entries zm) \<and> dispatches pt")
  case True
  let ?e = "zm_entries zm ! b" and ?c = "ucast v :: u32"
  have "CanMatch_int pt ?c ?e" if "x \<in> V" "cmp_holds pt (sint x) (sint v)" for x
    using that True assms(1,3) sint_ucast_fits [OF assms(2)]
    by (auto simp: CanMatch_int_def CanMatch_with_def covers_ints_def sint_scast
        intro!: range_can_match_sound [where v = "sint x"])
  then show ?thesis
    using True CanMatch_cmp [OF assms(1), of Int32]
    by (auto simp: ShouldScanBlock_def read_word_here IsNumeric_def IsInteger_def)
qed (use CanMatch_cmp [OF assms(1), of Int32] in \<open>auto simp: ShouldScanBlock_def IsNumeric_def IsInteger_def\<close>)

lemma ShouldScan64:
  assumes "is_cmp pt" and "b < length (zm_entries zm) \<longrightarrow> covers_ints (zm_entries zm ! b) V"
  shows "\<exists>ok. ShouldScanBlock zm b Int64 pt (bytes_of (v :: u64)) = Inr ok \<and>
    (ok \<or> (\<forall>x \<in> (V :: u64 set). \<not> cmp_holds pt (sint x) (sint v)))"
proof (cases "b < length (zm_entries zm) \<and> dispatches pt")
  case True
  have "CanMatch_int pt v (zm_entries zm ! b)" if "x \<in> V" "cmp_holds pt (sint x) (sint v)" for x
    using that True assms zone64.sound [of "zm_entries zm ! b" V x "(pt, v)"] by auto
  then show ?thesis
    using True CanMatch_cmp [OF assms(1), of Int64]
    by (auto simp: ShouldScanBlock_def read_word_here IsNumeric_def IsInteger_def)
qed (use CanMatch_cmp [OF assms(1), of Int64] in \<open>auto simp: ShouldScanBlock_def IsNumeric_def IsInteger_def\<close>)

lemma zone_map_allows_sound:
  assumes p: "pr_column_predicates p = pt # pts" "bp_constants (pr_program p) = v # vs"
      "bp_column_indices (pr_program p) = col # cols"
    and col: "col < length cs" and "is_cmp pt" and fits: "const_fits (cs ! col) v"
    and s: "segment_serves s cs" and css: "scanners_for css cs"
    and cov: "sc_enable_zone_map_pruning ctx \<Longrightarrow> zone_maps_cover (sc_block_size ctx) css cs n"
  shows "\<exists>ok. zone_map_allows ctx css s p b = Inr ok \<and>
    (ok \<or> (\<forall>r < n. r div sc_block_size ctx = b \<longrightarrow> \<not> cmp_holds pt (sint (spec_value (cs ! col) r)) (sint v)))"
proof (cases "sc_enable_zone_map_pruning ctx")
  case True
  let ?V = "spec_value (cs ! col) ` {r. r < n \<and> r div sc_block_size ctx = b}" and ?zm = "cs_zone_map (css ! col)"
  have cv: "b < length (zm_entries ?zm) \<longrightarrow> covers_ints (zm_entries ?zm ! b) ?V"
    using cov [OF True] col by (simp add: zone_maps_cover_def)
  have nth: "nth_res css col = Inr (css ! col)" using css col by (simp add: scanners_for_def nth_res_def)
  note ty = Segment_ColumnType_serves [OF s col]
  show ?thesis
  proof (cases "cs ! col")
    case (Spec32 e xs)
    then show ?thesis
      using True p nth ty fits ShouldScan32 [OF assms(5) _ cv, of v]
      by (fastforce simp: zone_map_allows_def nth_res_here)
  next
    case (Spec64 e xs)
    then show ?thesis
      using True p nth ty ShouldScan64 [OF assms(5) cv, of v]
      by (fastforce simp: zone_map_allows_def nth_res_here)
  qed
qed (auto simp: zone_map_allows_def)

lemma bloom_allows_sound:
  assumes p: "pr_column_predicates p = pt # pts" "bp_constants (pr_program p) = v # vs"
      "bp_column_indices (pr_program p) = col # cols"
    and col: "col < length cs" and css: "scanners_for css cs"
    and cov: "sc_enable_bloom_filter ctx \<Longrightarrow> bloom_filters_cover css cs n"
  shows "\<exists>ok. bloom_allows ctx css p = Inr ok \<and>
    (ok \<or> (\<forall>r < n. \<not> cmp_holds pt (sint (spec_value (cs ! col) r)) (sint v)))"
proof (cases "sc_enable_bloom_filter ctx \<and> pt = Equal")
  case True
  have cv: "bloom_covers (cs_bloom_filter (css ! col)) (spec_value (cs ! col) ` {..<n})"
    using cov True col by (simp add: bloom_filters_cover_def)
  then have "\<exists>ok. Bloom_MightContain v (cs_bloom_filter (css ! col)) = Inr ok"
    by (simp add: bloom_covers_def Bloom_MightContain_def might_contain_abs)
  moreover have "Bloom_MightContain v (cs_bloom_filter (css ! col)) = Inr True"
    if "r < n" "spec_value (cs ! col) r = v" for r
    using bloom.sound [OF cv, of v v] that by auto
  ultimately show ?thesis
    using True p col css
    by (auto simp: bloom_allows_def nth_res_here scanners_for_def BloomFilterCheckInt64_def sint_inj)
qed (use p in \<open>auto simp: bloom_allows_def nth_res_here\<close>)

text \<open>Skipping is sound for every query that implies the first comparison.\<close>

lemma prunes_soundly_first:
  assumes "pr_column_predicates p = pt # pts" "bp_constants (pr_program p) = v # vs"
      "bp_column_indices (pr_program p) = col # cols"
    and "col < length cs" and "is_cmp pt" and "const_fits (cs ! col) v" and "scanners_for css cs"
    and "sc_enable_zone_map_pruning ctx \<Longrightarrow> zone_maps_cover (sc_block_size ctx) css cs n"
    and "sc_enable_bloom_filter ctx \<Longrightarrow> bloom_filters_cover css cs n"
    and "\<And>r. r < n \<Longrightarrow> Q r \<Longrightarrow> cmp_holds pt (sint (spec_value (cs ! col) r)) (sint v)"
  shows "prunes_soundly ctx css p cs n Q"
  unfolding prunes_soundly_def
proof (intro allI impI)
  fix b s assume s: "segment_serves s cs"
  obtain z where z: "zone_map_allows ctx css s p b = Inr z"
    "z \<or> (\<forall>r < n. r div sc_block_size ctx = b \<longrightarrow> \<not> cmp_holds pt (sint (spec_value (cs ! col) r)) (sint v))"
    using zone_map_allows_sound [OF assms(1-6) s assms(7,8), of b] by blast
  obtain f where f: "bloom_allows ctx css p = Inr f"
    "f \<or> (\<forall>r < n. \<not> cmp_holds pt (sint (spec_value (cs ! col) r)) (sint v))"
    using bloom_allows_sound [OF assms(1-4,7,9)] by blast
  have "z \<and> f \<or> (\<forall>r < n. r div sc_block_size ctx = b \<longrightarrow> \<not> Q r)" using z(2) f(2) assms(10) by blast
  then show "\<exists>zm_ok bf_ok. zone_map_allows ctx css s p b = Inr zm_ok \<and> bloom_allows ctx css p = Inr bf_ok \<and>
      (zm_ok \<and> bf_ok \<or> (\<forall>r < n. r div sc_block_size ctx = b \<longrightarrow> \<not> Q r))"
    using z(1) f(1) by blast
qed

lemma prunes_soundly_disabled:
  "\<not> sc_enable_zone_map_pruning ctx \<Longrightarrow> \<not> sc_enable_bloom_filter ctx \<Longrightarrow> prunes_soundly ctx css p cs n Q"
  by (auto simp: prunes_soundly_def zone_map_allows_def bloom_allows_def)

section \<open>Facts on opening a scanner\<close>

lemma served_by_reader:
  assumes "segment_serves s cs" and "reads_file (sg_reader s) w" and "reads_file r w"
    and "sr_cached_columns r = sr_cached_columns (sg_reader s)"
  shows "segment_serves (s\<lparr>sg_reader := r\<rparr>) cs"
  using assms by (auto simp: segment_serves_def reader_serves_def reads_file_def)

definition scanner_at :: "SegmentWriter \<Rightarrow> nat \<Rightarrow> ColumnScanner" where
  "scanner_at w i = \<lparr>cs_column_index = i, cs_zone_map = stored_zone_map w i, cs_bloom_filter = stored_bloom_filter w i\<rparr>"

lemma Initialize_reads:
  assumes w: "writer_ok w" "length (file_of w) < 2 ^ 32" "i < length (sw_column_buffers w)" "index_ok w i"
    and s: "segment_serves s cs" "reads_file (sg_reader s) w"
  shows "\<exists>s'. ColumnScanner_Initialize (ColumnScanner_new i) s = Inr (scanner_at w i, s') \<and> segment_serves s' cs \<and>
    reads_file (sg_reader s') w \<and> sg_header s' = sg_header s"
proof -
  obtain r1 where r1: "Reader_GetZoneMap i (sg_reader s) = Inr (stored_zone_map w i, r1)" "reads_file r1 w"
    "sr_cached_columns r1 = sr_cached_columns (sg_reader s)"
    using stored_indexes(1) [OF w(1-3) s(2) w(4)] by blast
  obtain r2 where r2: "Reader_GetBloomFilter i r1 = Inr (stored_bloom_filter w i, r2)" "reads_file r2 w"
    "sr_cached_columns r2 = sr_cached_columns r1"
    using stored_indexes(2) [OF w(1-3) r1(2) w(4)] by blast
  have "segment_serves (s\<lparr>sg_reader := r2\<rparr>) cs" using served_by_reader [OF s r2(2)] r1(3) r2(3) by simp
  then show ?thesis
    using r1 r2 by (simp add: ColumnScanner_Initialize_def ColumnScanner_new_def Segment_GetZoneMap_def
        Segment_GetBloomFilter_def scanner_at_def)
qed

lemma SegmentScanner_new_reads:
  assumes w: "writer_ok w" "length (file_of w) < 2 ^ 32" "\<forall>i < length (sw_column_buffers w). index_ok w i"
    and s: "segment_serves s cs" "reads_file (sg_reader s) w"
    and n: "unat (Segment_NumColumns s) = length (sw_column_buffers w)"
  shows "\<exists>s'. SegmentScanner_new s ctx = Inr \<lparr>sg_segment = s', sg_column_scanners =
      map (scanner_at w) [0..<length (sw_column_buffers w)], sg_context = ctx, sg_stats = ScanStats_zero\<rparr> \<and>
    segment_serves s' cs \<and> sg_header s' = sg_header s"
proof -
  let ?f = "\<lambda>i (css, s). bind_res (ColumnScanner_Initialize (ColumnScanner_new i) s) (\<lambda>(cs, s'). Inr (css @ [cs], s'))"
  have "\<exists>s'. fold_res ?f [0..<j] ([], s) = Inr (map (scanner_at w) [0..<j], s') \<and> segment_serves s' cs \<and>
      reads_file (sg_reader s') w \<and> sg_header s' = sg_header s" if "j \<le> length (sw_column_buffers w)" for j
    using that
  proof (induction j)
    case (Suc j)
    then obtain s1 where s1: "fold_res ?f [0..<j] ([], s) = Inr (map (scanner_at w) [0..<j], s1)"
      "segment_serves s1 cs" "reads_file (sg_reader s1) w" "sg_header s1 = sg_header s" by auto
    have "j < length (sw_column_buffers w)" "index_ok w j" using Suc.prems w(3) by simp_all
    from Initialize_reads [OF w(1,2) this s1(2,3)] s1 show ?case by (auto simp: fold_res_append)
  qed (use s in simp)
  from this [of "length (sw_column_buffers w)"] show ?thesis by (auto simp: SegmentScanner_new_def n)
qed

text \<open>A scanner on the finished file of a writer that holds a table.\<close>

lemma scanner_of_file:
  assumes h: "writer_holds w cs" and lim: "length (file_of w) < 2 ^ 32" and ix: "\<forall>i < length cs. index_ok w i"
    and t: "table_ok cs n" and cs: "cs \<noteq> []" and n: "n + sc_block_size ctx \<le> 2 ^ 64"
    and bs: "0 < sc_block_size ctx" "sc_block_size ctx \<le> kScanBlockSize"
  shows "\<exists>s sc. Segment_Open (Some (fst (Writer_Finish w))) = Inr s \<and> SegmentScanner_new s ctx = Inr sc \<and>
    scanner_serves sc cs n \<and> sg_stats sc = ScanStats_zero \<and> sg_context sc = ctx \<and>
    sg_column_scanners sc = map (scanner_at w) [0..<length cs]"
proof -
  have ok: "writer_ok w" and len: "length (sw_column_buffers w) = length cs"
    and rows: "sw_row_count w = Max (insert 0 (spec_rows ` set cs))"
    using h by (simp_all add: writer_holds_def)
  obtain s where s: "Segment_Open (Some (file_of w)) = Inr s" "sg_header s = header_copy (final_header w)"
    "reads_file (sg_reader s) w"
    using open_segment [OF ok] unfolding reads_file_def by blast
  have sv: "segment_serves s cs" by (rule open_serves [OF h lim s(1)])
  have "spec_rows ` set cs = {n}" using t cs by (auto simp: table_ok_def image_iff) (metis list.set_intros(1) neq_Nil_conv)
  then have nr: "sw_row_count w = n" by (simp add: rows)
  have "n < 2 ^ 64" using n bs(1) by linarith
  then have hd: "unat (Segment_NumColumns s) = length cs" "unat (Segment_NumRows s) = n"
    using ok len nr by (simp_all add: Segment_NumColumns_def Segment_NumRows_def s(2) header_copy_def final_header_def
        writer_ok_def unat_of_nat)
  obtain s' where s': "SegmentScanner_new s ctx = Inr \<lparr>sg_segment = s', sg_column_scanners =
      map (scanner_at w) [0..<length cs], sg_context = ctx, sg_stats = ScanStats_zero\<rparr>"
    "segment_serves s' cs" "sg_header s' = sg_header s"
    using SegmentScanner_new_reads [OF ok lim _ sv s(3), of ctx] ix hd(1) len by auto
  have "scanners_for (map (scanner_at w) [0..<length cs]) cs" by (simp add: scanners_for_def scanner_at_def)
  then show ?thesis
    using s(1) s' hd t n bs Finish_segment_open(2) [OF ok lim]
    by (auto simp: scanner_serves_def Segment_NumColumns_def Segment_NumRows_def)
qed

section \<open>Facts on building the indexes of a table\<close>

lemma built_covers_row:
  fixes data :: "'a::len word list"
  assumes "LENGTH('a) \<le> 64" and "BuildFromColumn Update_int data None (ZoneMap_new bs) = Inr zm" and "bs < 2 ^ 32"
    and "r < length data"
  shows "covers_ints (zm_entries zm ! (r div bs)) {data ! r}"
proof -
  have bs: "zm_block_rows (ZoneMap_new bs) = bs" by (simp add: ZoneMap_new_def)
  note blk = BuildFromColumn_block [OF assms(2,4), unfolded bs]
  have "length (block_slice bs (r div bs) data) < 2 ^ 32"
    using length_slice_le [of bs "r div bs" data] assms(3) by linarith
  then have "covers_ints (zm_entries zm ! (r div bs)) (set (valid_values (block_slice bs (r div bs) data) None))"
    using blk(3) Update_int_covers [OF assms(1)] by auto
  moreover have "data ! r \<in> set (valid_values (block_slice bs (r div bs) data) None)"
    using valid_in_slice [of data None bs r] blk(1) assms(4) by (simp add: nulls_fit_def null_at_def)
  ultimately show ?thesis by (auto simp: covers_ints_def)
qed

text \<open>The zone map of a column, built by the code over blocks of \<open>bs\<close> rows.\<close>

fun build_zone_map :: "nat \<Rightarrow> ColumnSpec \<Rightarrow> ZoneMap res" where
  "build_zone_map bs (Spec32 e xs) = BuildFromColumn Update_int xs None (ZoneMap_new bs)"
| "build_zone_map bs (Spec64 e xs) = BuildFromColumn Update_int xs None (ZoneMap_new bs)"

lemma build_zone_map_covers:
  assumes "build_zone_map bs c = Inr zm" and "bs < 2 ^ 32"
  shows "covers_ints (zm_entries zm ! b) (spec_value c ` {r. r < spec_rows c \<and> r div bs = b})"
proof (cases c)
  case (Spec32 e xs)
  then have "covers_ints (zm_entries zm ! b) {spec_value c r}" if "r < spec_rows c" "r div bs = b" for r
    using that built_covers_row [of xs bs zm r] assms by (auto simp: covers_ints_def sint_scast)
  then show ?thesis by (auto simp: covers_ints_def)
next
  case (Spec64 e xs)
  then have "covers_ints (zm_entries zm ! b) {spec_value c r}" if "r < spec_rows c" "r div bs = b" for r
    using that built_covers_row [of xs bs zm r] assms by (auto simp: covers_ints_def)
  then show ?thesis by (auto simp: covers_ints_def)
qed

text \<open>The indexes stored for a table: a zone map of the scan's block size, or none, and a Bloom filter
  that every widened value of the column was added to.\<close>

definition zone_maps_built :: "nat \<Rightarrow> SegmentWriter \<Rightarrow> ColumnSpec list \<Rightarrow> bool" where
  "zone_maps_built bs w cs \<longleftrightarrow> (\<forall>i < length cs. zm_entries (stored_zone_map w i) = [] \<or>
     build_zone_map bs (cs ! i) = Inr (stored_zone_map w i))"

definition bloom_filters_built :: "SegmentWriter \<Rightarrow> ColumnSpec list \<Rightarrow> bool" where
  "bloom_filters_built w cs \<longleftrightarrow> (\<forall>i < length cs. \<exists>bf. Bloom_inv bf \<and>
     Bloom_AddBatch (map (spec_value (cs ! i)) [0..<spec_rows (cs ! i)]) bf = Inr (stored_bloom_filter w i))"

lemma built_zone_maps_cover:
  assumes "zone_maps_built bs w cs" and "table_ok cs n" and "bs < 2 ^ 32"
  shows "zone_maps_cover bs (map (scanner_at w) [0..<length cs]) cs n"
  using assms build_zone_map_covers [OF _ assms(3)] table_ok_nth [OF assms(2)]
  by (fastforce simp: zone_maps_cover_def zone_maps_built_def scanner_at_def)

lemma built_bloom_filters_cover:
  assumes "bloom_filters_built w cs" and "table_ok cs n"
  shows "bloom_filters_cover (map (scanner_at w) [0..<length cs]) cs n"
  unfolding bloom_filters_cover_def
proof (intro allI impI)
  fix i assume i: "i < length cs"
  obtain bf where "Bloom_inv bf"
    "Bloom_AddBatch (map (spec_value (cs ! i)) [0..<spec_rows (cs ! i)]) bf = Inr (stored_bloom_filter w i)"
    using assms(1) i unfolding bloom_filters_built_def by blast
  from Bloom_AddBatch_covers [OF this]
  show "bloom_covers (cs_bloom_filter (map (scanner_at w) [0..<length cs] ! i)) (spec_value (cs ! i) ` {..<n})"
    using i table_ok_nth [OF assms(2) i] by (simp add: scanner_at_def lessThan_atLeast0)
qed

lemma build_zone_map_defined:
  assumes "0 < bs"
  shows "\<exists>zm. build_zone_map bs c = Inr zm \<and> zm_block_rows zm = bs \<and>
    length (zm_entries zm) = (spec_rows c + bs - 1) div bs"
  using assms by (cases c) (simp_all add: BuildFromColumn_def ZoneMap_new_def Let_def)

lemma conj_prunes_soundly:
  assumes "conj_scannable e es cs" and "table_ok cs n" and "zone_maps_built (sc_block_size ctx) w cs"
    and "bloom_filters_built w cs" and "sc_block_size ctx < 2 ^ 32"
  shows "prunes_soundly ctx (map (scanner_at w) [0..<length cs]) (conj_predicate e es) cs n
    (\<lambda>r. \<forall>e' \<in> set (e # es). eval_pexp (row_env cs r) e')"
proof -
  have cmp: "\<forall>e' \<in> set (e # es). is_comparison e'" and col: "cmp_col e < length cs"
    and fits: "const_fits (cs ! cmp_col e) (cmp_const e)"
    using assms(1) by (simp_all add: conj_scannable_def)
  note lists = conj_predicate_lists [OF cmp, unfolded list.map]
  have ev: "is_cmp (cmp_type e)" using eval_comparison(2) [of e] cmp by simp
  show ?thesis
  proof (rule prunes_soundly_first [OF lists col ev fits])
    show "scanners_for (map (scanner_at w) [0..<length cs]) cs" by (simp add: scanners_for_def scanner_at_def)
    show "zone_maps_cover (sc_block_size ctx) (map (scanner_at w) [0..<length cs]) cs n"
      by (rule built_zone_maps_cover [OF assms(3,2,5)])
    show "bloom_filters_cover (map (scanner_at w) [0..<length cs]) cs n"
      by (rule built_bloom_filters_cover [OF assms(4,2)])
  qed (use eval_comparison(1) [of e] cmp in \<open>auto simp: row_env_def\<close>)
qed

section \<open>Facts on scanning without a Bloom filter\<close>

lemma empty_bloom_filter: "Bloom_MightContain v BloomFilter_default = Inr False"
proof -
  have inv: "Bloom_inv BloomFilter_default"
    by (simp add: Bloom_inv_def BloomFilter_default_def BloomFilter_new_def kDefaultBits_def)
  have "bloom_abs BloomFilter_default = {}"
    by (auto simp: bloom_abs_def pbit_def BloomFilter_default_def BloomFilter_new_def nth_append)
  moreover have "probes BloomFilter_default (ucast v) \<noteq> {}"
    by (auto simp: probes_def BloomFilter_default_def BloomFilter_new_def kDefaultHashes_def)
  ultimately show ?thesis using inv by (simp add: Bloom_MightContain_def might_contain_abs)
qed

text \<open>With no Bloom filter stored for a column, an equality scan on it delivers nothing: the reader
  returns an empty filter, which excludes every value.\<close>

lemma scan_without_bloom_filter:
  assumes sc: "scanner_serves sc cs n" and bf: "sc_enable_bloom_filter (sg_context sc)" and col: "col < length cs"
    and fits: "const_fits (cs ! col) v" and none: "cs_bloom_filter (sg_column_scanners sc ! col) = BloomFilter_default"
  shows "\<exists>sc'. SegmentScanner_Scan avx512 (Predicate_Equal col v Predicate_empty) sc = Inr ([], sc')"
proof -
  let ?p = "Predicate_Equal col v Predicate_empty" and ?ctx = "sg_context sc" and ?css = "sg_column_scanners sc"
  have p: "pr_column_predicates ?p = Equal # []" "bp_constants (pr_program ?p) = v # []"
    "bp_column_indices (pr_program ?p) = col # []"
    by (simp_all add: builder_defs Let_def Predicate_empty_def BytecodeProgram_empty_def)
  have s: "segment_serves (sg_segment sc) cs" and css: "scanners_for ?css cs" and bs: "0 < sc_block_size ?ctx"
    and t: "table_ok cs n" and nc: "unat (Segment_NumColumns (sg_segment sc)) = length cs"
    using sc by (simp_all add: scanner_serves_def)
  have bloom: "bloom_allows ?ctx ?css ?p = Inr False"
    using bf p col css none empty_bloom_filter by (simp add: bloom_allows_def nth_res_here scanners_for_def
        BloomFilterCheckInt64_def)
  have zone: "\<exists>ok. zone_map_allows ?ctx ?css s1 ?p b = Inr ok" if "segment_serves s1 cs" for s1 b
    using zone_map_allows_sound [OF p col _ fits that css, of ?ctx 0 b] by (auto simp: zone_maps_cover_def covers_ints_def)
  obtain s1 where s1: "load_columns (sg_segment sc) = Inr (map spec_column cs, s1)" "segment_serves s1 cs"
    using load_columns_serve [OF s _ nc] t by (auto simp: table_ok_def)
  have "\<exists>st'. fold_res (Scan_block avx512 ?ctx ?css ?p (map spec_column cs) m) bs (s1, st, []) = Inr (s1, st', [])" for bs st m
  proof (induction bs arbitrary: st)
    case (Cons b bs)
    obtain ok where "zone_map_allows ?ctx ?css s1 ?p b = Inr ok" using zone [OF s1(2)] by blast
    then have "\<exists>st'. Scan_block avx512 ?ctx ?css ?p (map spec_column cs) m b (s1, st, []) = Inr (s1, st', [])"
      using bloom by (simp add: Scan_block_def Let_def)
    with Cons.IH show ?case by auto
  qed simp
  then obtain st' where "fold_res (Scan_block avx512 ?ctx ?css ?p (map spec_column cs) (unat (Segment_NumRows (sg_segment sc))))
      [0..<(unat (Segment_NumRows (sg_segment sc)) + sc_block_size ?ctx - 1) mod 2 ^ 64 div sc_block_size ?ctx]
      (s1, sg_stats sc, []) = Inr (s1, st', [])" by blast
  then show ?thesis using s1(1) bs by (simp add: SegmentScanner_Scan_def Let_def)
qed

section \<open>Facts on scanning in parallel\<close>

lemma stripe_filter: "0 < stride \<Longrightarrow> stripe stride i n = filter (\<lambda>k. k mod stride = i mod stride) [i..<n]"
proof (induction stride i n rule: stripe.induct)
  case (1 stride i n)
  show ?case
  proof (cases "i < n")
    case True
    define m where "m = min (i + stride) n"
    have "[i..<n] = [i..<m] @ [m..<n]" using True upt_add_eq_append [of i m "n - m"] by (simp add: m_def)
    moreover have "filter (\<lambda>k. k mod stride = i mod stride) [i..<m] = [i]"
    proof -
      have "k = i" if "i \<le> k" "k < i + stride" "k mod stride = i mod stride" for k
        using that by (metis add_diff_cancel_left' diff_less_mono le_add_diff_inverse mod_less mod_eq_dvd_iff_nat dvd_imp_mod_0 add_0_right)
      then have "filter (\<lambda>k. k mod stride = i mod stride) [i..<m] = filter (\<lambda>k. k = i) [i..<m]"
        by (intro filter_cong) (auto simp: m_def)
      also have "\<dots> = [i]" using True 1(2) by (simp add: m_def upt_conv_Cons filter_empty_conv)
      finally show ?thesis .
    qed
    moreover have "filter (\<lambda>k. k mod stride = i mod stride) [m..<n] = stripe stride (i + stride) n"
      using 1 True by (cases "i + stride \<le> n") (simp_all add: m_def stripe.simps [of stride "i + stride" n])
    ultimately show ?thesis using True 1(2) by (simp add: stripe.simps [of stride i n])
  qed (simp add: stripe.simps [of stride i n])
qed

lemma sum_stripes:
  fixes g :: "nat \<Rightarrow> 'm::comm_monoid_add"
  assumes "0 < stride"
  shows "(\<Sum>t\<leftarrow>[0..< stride]. \<Sum>i\<leftarrow>filter (\<lambda>k. k mod stride = t) xs. g i) = (\<Sum>i\<leftarrow>xs. g i)"
  unfolding sum_list_distinct_conv_sum_set [OF distinct_upt] set_upt atLeast0LessThan
proof (induction xs)
  case (Cons x xs)
  have "(\<Sum>t\<in>{..< stride}. \<Sum>i\<leftarrow>filter (\<lambda>k. k mod stride = t) (x # xs). g i) =
      (\<Sum>t\<in>{..< stride}. (if t = x mod stride then g x else 0) + (\<Sum>i\<leftarrow>filter (\<lambda>k. k mod stride = t) xs. g i))"
    by (intro sum.cong) auto
  then show ?case using Cons assms by (simp add: sum.distrib)
qed simp

lemma ScanThread_uncancelled:
  assumes "\<And>i. i \<in> set is \<Longrightarrow> \<exists>sc sc'. SegmentScanner_new (segs ! i) ctx = Inr sc \<and>
    SegmentScanner_Scan avx512 p sc = Inr (calls i, sc') \<and> sg_stats sc' = stats i"
  shows "ScanThread avx512 (\<lambda>_ _. False) p ctx segs is (outs, st) =
    Inr (outs @ concat (map calls is), fold (\<lambda>i st. add_stats st (stats i)) is st)"
  using assms
proof (induction "is" arbitrary: outs st)
  case (Cons i "is")
  obtain sc sc' where sc: "SegmentScanner_new (segs ! i) ctx = Inr sc" "SegmentScanner_Scan avx512 p sc = Inr (calls i, sc')"
    "sg_stats sc' = stats i" using Cons.prems [of i] by auto
  have "map snd (enumerate 0 (calls i)) = calls i" by simp
  then show ?case using sc Cons by (simp add: case_prod_unfold)
qed simp

lemma fold_add_stats:
  "ss_rows_returned (fold (\<lambda>i st. add_stats st (stats i)) is st) = ss_rows_returned st + (\<Sum>i\<leftarrow>is. ss_rows_returned (stats i))"
  by (induction "is" arbitrary: st) (simp_all add: add_stats_def)

section \<open>Facts on aggregation\<close>

text \<open>What the aggregate of a list of values is: sum, count, minimum and maximum.\<close>

definition summary :: "u64 list \<Rightarrow> u64 \<times> u64 \<times> u64 \<times> u64" where
  "summary vs = (double_of_int (\<Sum>v\<leftarrow>vs. sint v), of_nat (length vs), foldl smin 0x7FFFFFFFFFFFFFFF vs,
     foldl smax 0x8000000000000000 vs)"

definition summable :: "u64 list \<Rightarrow> bool" where
  "summable vs \<longleftrightarrow> (\<Sum>v\<leftarrow>vs. \<bar>sint v\<bar>) < 2 ^ 53 \<and> length vs < 2 ^ 63"

definition agg_state :: "AggregateScanner \<Rightarrow> nat \<Rightarrow> u64 \<times> u64 \<times> u64 \<times> u64" where
  "agg_state ag i = (ag_sums ag ! i, ag_counts ag ! i, ag_mins ag ! i, ag_maxs ag ! i)"

definition agg_holds :: "AggregateScanner \<Rightarrow> nat list \<Rightarrow> (nat \<Rightarrow> u64 list) \<Rightarrow> bool" where
  "agg_holds ag cols f \<longleftrightarrow> ag_columns ag = cols \<and> length (ag_sums ag) = length cols \<and>
     length (ag_counts ag) = length cols \<and> length (ag_mins ag) = length cols \<and> length (ag_maxs ag) = length cols \<and>
     (\<forall>i < length cols. agg_state ag i = summary (f i))"

lemma abs_sum_le: "\<bar>\<Sum>v\<leftarrow>vs. sint v\<bar> \<le> (\<Sum>v\<leftarrow>vs. \<bar>sint v\<bar>)"
  by (induction vs) auto

lemma summable_append: "summable (us @ vs) \<Longrightarrow> summable us"
proof -
  have "0 \<le> (\<Sum>v\<leftarrow>vs. \<bar>sint v\<bar>)" by (induction vs) auto
  then show "summable (us @ vs) \<Longrightarrow> summable us" by (simp add: summable_def)
qed

lemma aggregate_value_holds:
  assumes h: "agg_holds ag cols f" and i: "i < length cols" and s: "summable (f i @ [v])"
  shows "\<exists>ag'. aggregate_value i v ag = Inr ag' \<and> agg_holds ag' cols (f(i := f i @ [v]))"
proof -
  have st: "ag_sums ag ! i = double_of_int (\<Sum>v\<leftarrow>f i. sint v)" "ag_counts ag ! i = of_nat (length (f i))"
    using h i by (auto simp: agg_holds_def agg_state_def summary_def)
  have "\<bar>\<Sum>v\<leftarrow>f i. sint v\<bar> < 2 ^ 53" "\<bar>sint v\<bar> < 2 ^ 53"
    using s summable_append [OF s] abs_sum_le [of "f i"] abs_ge_zero [of "\<Sum>v\<leftarrow>f i. sint v"]
    by (auto simp: summable_def)
  then have add: "fp_add (ag_sums ag ! i) (double_of_int (sint v)) = double_of_int (\<Sum>v\<leftarrow>f i @ [v]. sint v)"
    using fp_add_ints by (simp add: st)
  have "length (f i) + 1 < 2 ^ 63" using s by (simp add: summable_def)
  then have "sint (of_nat (length (f i)) :: u64) = int (length (f i))"
    by (simp add: sint_uint signed_take_bit_int_eq_self unsigned_of_nat take_bit_nat_eq_self)
  then have cnt: "sadd_res (ag_counts ag ! i) 1 = Inr (of_nat (length (f i @ [v])))"
    using \<open>length (f i) + 1 < 2 ^ 63\<close> by (simp add: st sadd_res_def in_srange_def)
  show ?thesis
    using h i add cnt
    by (auto simp: aggregate_value_def agg_holds_def agg_state_def summary_def nth_list_update)
qed

lemma aggregate_values_hold:
  assumes "agg_holds ag cols f" and "i < length cols" and "summable (f i @ vs)"
  shows "\<exists>ag'. fold_res (aggregate_value i) vs ag = Inr ag' \<and> agg_holds ag' cols (f(i := f i @ vs))"
  using assms
proof (induction vs arbitrary: ag f)
  case (Cons v vs)
  have "summable (f i @ [v])" using Cons.prems(3) summable_append [of "f i @ [v]" vs] by simp
  from aggregate_value_holds [OF Cons.prems(1,2) this]
  obtain ag1 where ag1: "aggregate_value i v ag = Inr ag1" "agg_holds ag1 cols (f(i := f i @ [v]))" by blast
  have upd: "(f(i := f i @ [v]))(i := (f(i := f i @ [v])) i @ vs) = f(i := f i @ v # vs)" by auto
  have "summable ((f(i := f i @ [v])) i @ vs)" using Cons.prems(3) by simp
  from Cons.IH [OF ag1(2) Cons.prems(2) this, unfolded upd] ag1(1) show ?case by simp
qed simp

lemma column_elements:
  assumes "r + k \<le> length xs" and "c = Spec64 e xs"
  shows "fold_res (\<lambda>j ag. bind_res (read_elem (spec_bytes c r k) 0 j) (\<lambda>v. aggregate_value i v ag)) [0..<k] ag =
    fold_res (aggregate_value i) (map (spec_value c) [r..<r + k]) ag"
proof -
  have el: "read_elem (spec_bytes c r k) 0 j = Inr (spec_value c (r + j))" if "j < k" for j
    using that assms read_elem_append [of "[]" 0 j "take k (drop r xs)" "[]"] by simp
  have "fold_res (\<lambda>j ag. bind_res (read_elem (spec_bytes c r k) 0 j) (\<lambda>v. aggregate_value i v ag)) js ag =
      fold_res (aggregate_value i) (map (\<lambda>j. spec_value c (r + j)) js) ag" if "set js \<subseteq> {..<k}" for js ag
    using that by (induction js arbitrary: ag) (auto simp: el intro!: bind_res_cong)
  moreover have "map (\<lambda>j. spec_value c (r + j)) [0..<k] = map (spec_value c) [r..<r + k]" by (auto intro: nth_equalityI)
  ultimately show ?thesis by (metis atLeast0LessThan atLeast_upt order_refl)
qed

definition int64_columns :: "nat list \<Rightarrow> ColumnSpec list \<Rightarrow> bool" where
  "int64_columns cols cs \<longleftrightarrow> (\<forall>c \<in> set cols. c < length cs \<and> spec_type (cs ! c) = Int64)"

definition column_values :: "ColumnSpec list \<Rightarrow> nat list \<Rightarrow> nat list \<Rightarrow> nat \<Rightarrow> u64 list" where
  "column_values cs cols ms i = map (spec_value (cs ! (cols ! i))) ms"

lemma aggregate_call_holds:
  assumes h: "agg_holds ag cols f" and cs: "int64_columns cols cs" "table_ok cs n" and r: "r + k \<le> n"
    and s: "\<forall>i < length cols. summable (f i @ column_values cs cols [r..<r + k] i)"
  shows "\<exists>ag'. aggregate_call (map (\<lambda>c. spec_bytes c r k) cs, k) ag = Inr ag' \<and>
    agg_holds ag' cols (\<lambda>i. f i @ column_values cs cols [r..<r + k] i)"
proof -
  let ?g = "\<lambda>m i. if i < m then f i @ column_values cs cols [r..<r + k] i else f i"
  let ?step = "\<lambda>i ag. bind_res (nth_res (map (\<lambda>c. spec_bytes c r k) cs) (ag_columns ag ! i)) (\<lambda>data.
    fold_res (\<lambda>j ag. bind_res (read_elem data 0 j) (\<lambda>v. aggregate_value i v ag)) [0..<k] ag)"
  have "\<exists>ag'. fold_res ?step [0..<m] ag = Inr ag' \<and> agg_holds ag' cols (?g m)" if "m \<le> length cols" for m
    using that
  proof (induction m)
    case (Suc m)
    then obtain ag1 where ag1: "fold_res ?step [0..<m] ag = Inr ag1" "agg_holds ag1 cols (?g m)" by auto
    let ?c = "cs ! (cols ! m)"
    have c: "cols ! m < length cs" "spec_type ?c = Int64" using cs(1) Suc.prems by (auto simp: int64_columns_def)
    then obtain e xs where xs: "?c = Spec64 e xs" by (cases ?c) auto
    have "r + k \<le> length xs" using table_ok_nth [OF cs(2) c(1)] r xs by simp
    then have "?step m ag1 = fold_res (aggregate_value m) (column_values cs cols [r..<r + k] m) ag1"
      using ag1(2) c(1) column_elements [OF _ xs, of r k m ag1]
      by (simp add: agg_holds_def nth_res_def column_values_def)
    moreover obtain ag2 where "fold_res (aggregate_value m) (column_values cs cols [r..<r + k] m) ag1 = Inr ag2"
      "agg_holds ag2 cols ((?g m)(m := ?g m m @ column_values cs cols [r..<r + k] m))"
      using aggregate_values_hold [OF ag1(2), of m "column_values cs cols [r..<r + k] m"] s Suc.prems by auto
    moreover have "(?g m)(m := ?g m m @ column_values cs cols [r..<r + k] m) = ?g (Suc m)" by (auto simp: less_Suc_eq)
    ultimately show ?case using ag1(1) by (simp add: fold_res_append)
  qed (use h in simp)
  moreover have "ag_columns ag = cols" using h by (simp add: agg_holds_def)
  ultimately obtain ag' where "aggregate_call (map (\<lambda>c. spec_bytes c r k) cs, k) ag = Inr ag'"
    "agg_holds ag' cols (?g (length cols))" unfolding aggregate_call_def by auto
  then show ?thesis by (auto simp: agg_holds_def)
qed

lemma aggregate_calls_hold:
  assumes "agg_holds ag cols f" and cs: "int64_columns cols cs" "table_ok cs n"
    and "\<forall>(r, k) \<in> set rs. r + k \<le> n"
    and "\<forall>i < length cols. summable (f i @ column_values cs cols (rows_of_runs rs) i)"
  shows "\<exists>ag'. fold_res aggregate_call (calls_for cs rs) ag = Inr ag' \<and>
    agg_holds ag' cols (\<lambda>i. f i @ column_values cs cols (rows_of_runs rs) i)"
  using assms(1,4,5)
proof (induction rs arbitrary: ag f)
  case Nil
  then show ?case by (simp add: calls_for_def rows_of_runs_def column_values_def)
next
  case (Cons x rs)
  obtain r k where x: "x = (r, k)" by force
  let ?f = "\<lambda>i. f i @ column_values cs cols [r..<r + k] i"
  have split: "column_values cs cols (rows_of_runs (x # rs)) i =
      column_values cs cols [r..<r + k] i @ column_values cs cols (rows_of_runs rs) i" for i
    by (simp add: column_values_def rows_of_runs_def x)
  have all: "\<forall>i < length cols. summable (?f i @ column_values cs cols (rows_of_runs rs) i)"
    using Cons.prems(3) by (simp add: split)
  obtain ag1 where ag1: "aggregate_call (map (\<lambda>c. spec_bytes c r k) cs, k) ag = Inr ag1" "agg_holds ag1 cols ?f"
  proof -
    have "r + k \<le> n" using Cons.prems(2) by (simp add: x)
    moreover have "\<forall>i < length cols. summable (?f i)" using all summable_append by blast
    ultimately show thesis using aggregate_call_holds [OF Cons.prems(1) cs, of r k] that by blast
  qed
  have "\<forall>(r, k) \<in> set rs. r + k \<le> n" using Cons.prems(2) by simp
  from Cons.IH [OF ag1(2) this all] ag1(1) show ?case by (simp add: calls_for_def split) (simp add: x)
qed

lemma Results_hold: "agg_holds ag cols f \<Longrightarrow> AggregateScanner_Results ag = map (\<lambda>i. summary (f i)) [0..<length cols]"
  by (auto simp: AggregateScanner_Results_def agg_holds_def agg_state_def)

text \<open>A column of 32-bit values is read as if it held 64-bit ones: the first value of a single delivered
  row already reaches past the end of the row's buffer.\<close>

lemma aggregate_int32_out_of_bounds:
  assumes "ag_columns ag = [0]"
  shows "aggregate_call ([bytes_of (v :: u32)], 1) ag = Inl OutOfBounds"
  using assms by (simp add: aggregate_call_def nth_res_def read_elem_def read_word_def)

lemma runs_bounded:
  assumes "run_sizes_ok rs" and "set (rows_of_runs rs) \<subseteq> {..<n}"
  shows "\<forall>(r, k) \<in> set rs. r + k \<le> n"
proof safe
  fix r k assume rk: "(r, k) \<in> set rs"
  then have "0 < k" using assms(1) by (auto simp: run_sizes_ok_def)
  then have "r + k - 1 \<in> set (rows_of_runs rs)" using rk by (auto simp: rows_of_runs_def intro!: bexI [of _ "(r, k)"])
  then show "r + k \<le> n" using assms(2) \<open>0 < k\<close> by auto
qed

lemma AggregateScanner_new_holds:
  assumes "SegmentScanner_new s ScanContext_default = Inr sc"
  shows "\<exists>ag. AggregateScanner_new s cols = Inr ag \<and> ag_scanner ag = sc \<and> agg_holds ag cols (\<lambda>_. [])"
proof -
  have "double_of_int 0 = 0" by (simp add: double_of_int_def double_of_units_def mag_of_units_def)
  then show ?thesis
    using assms by (simp add: AggregateScanner_new_def Let_def agg_holds_def agg_state_def summary_def)
qed

section \<open>Small tables\<close>

text \<open>A writer with one column and both of its indexes, and a scan of one column without them.\<close>

lemma indexed_table:
  assumes c: "spec_ok c" "0 < spec_rows c" "spec_rows c < 2 ^ 20" "length (spec_block c) < 2 ^ 24"
    and bs: "0 < bs" "bs < 2 ^ 32"
  shows "\<exists>w. writer_holds w [c] \<and> length (file_of w) < 2 ^ 32 \<and> (\<forall>i < length [c]. index_ok w i) \<and>
    zone_maps_built bs w [c] \<and> bloom_filters_built w [c]"
proof -
  let ?bf0 = "BloomFilter_new 64 1"
  obtain w0 where w0: "writer_holds w0 [c]" using one_column_writer [OF c(1)] by blast
  obtain zm where zm: "build_zone_map bs c = Inr zm" "zm_block_rows zm = bs"
    "length (zm_entries zm) = (spec_rows c + bs - 1) div bs"
    using build_zone_map_defined [OF bs(1)] by blast
  have "0 < (spec_rows c + bs - 1) div bs" using c(2) bs(1) by (simp add: div_greater_zero_iff)
  moreover have "(spec_rows c + bs - 1) div bs \<le> spec_rows c"
  proof -
    have "spec_rows c + bs - 1 < (spec_rows c + 1) * bs"
      using c(2) bs(1) by (cases bs; cases "spec_rows c") simp_all
    then have "(spec_rows c + bs - 1) div bs < spec_rows c + 1" using bs(1) by (simp add: div_less_iff_less_mult)
    then show ?thesis by simp
  qed
  ultimately have blocks: "0 < length (zm_entries zm)" "length (zm_entries zm) < 2 ^ 20" using zm(3) c(3) by simp_all
  have bf0: "Bloom_inv ?bf0" by (simp add: Bloom_inv_def BloomFilter_new_def num_words_def)
  obtain bf where bf: "Bloom_AddBatch (map (spec_value c) [0..<spec_rows c]) ?bf0 = Inr bf" "same_shape bf ?bf0" "Bloom_inv bf"
    using Bloom_AddBatch_abs [OF bf0] by blast
  have bits: "length (bf_bits bf) = 1" using bf(2) by (simp add: same_shape_def BloomFilter_new_def num_words_def)
  define w where "w = AddBloomFilter 0 bf (AddZoneMap 0 zm w0)"
  note at = indexes_at [OF w_def]
  have "writer_holds w [c]" and "length (file_of w) < 2 ^ 32"
    using indexed_file_size [OF w0 w_def] blocks(2) bits c(4) by (simp_all add: index_image_lengths)
  moreover have "stored_zone_map w 0 = zm" "stored_bloom_filter w 0 = bf"
    using at blocks(1) bits by (simp_all add: stored_zone_map_def stored_bloom_filter_def NumBlocks_def Bloom_Size_def)
  moreover have "index_ok w 0" using at zm(2) blocks(2) bf(3) bs(2) by (simp add: index_ok_def)
  ultimately show ?thesis
    using zm(1) bf0 bf(1) by (auto simp: zone_maps_built_def bloom_filters_built_def)
qed

lemma one_column_scan:
  assumes c: "spec_ok c" "length (spec_block c) < 2 ^ 24" "spec_rows c + sc_block_size ctx \<le> 2 ^ 64"
    and bs: "0 < sc_block_size ctx" "sc_block_size ctx \<le> kScanBlockSize"
    and off: "\<not> sc_enable_zone_map_pruning ctx" "\<not> sc_enable_bloom_filter ctx" and e: "scannable e [c]"
  shows "\<exists>s sc rs sc'. SegmentScanner_new s ctx = Inr sc \<and>
    SegmentScanner_Scan avx512 (build_postfix e Predicate_empty) sc = Inr (calls_for [c] rs, sc') \<and>
    rows_of_runs rs = filter (\<lambda>r. eval_pexp (row_env [c] r) e) [0..<spec_rows c] \<and>
    ss_rows_returned (sg_stats sc') = length (rows_of_runs rs)"
proof -
  obtain w where w: "writer_holds w [c]" "sw_zone_maps w = []" "sw_bloom_filters w = []"
    using one_column_writer [OF c(1)] by blast
  have lim: "length (file_of w) < 2 ^ 32" using file_size_specs [OF w] c(2) by simp
  have ix: "\<forall>i < length [c]. index_ok w i" using w by (simp add: index_ok_def)
  have t: "table_ok [c] (spec_rows c)" using c(1) by (simp add: table_ok_def)
  obtain s sc where s: "SegmentScanner_new s ctx = Inr sc" "scanner_serves sc [c] (spec_rows c)"
    "sg_stats sc = ScanStats_zero" "sg_context sc = ctx"
    using scanner_of_file [OF w(1) lim ix t _ c(3) bs] by blast
  have "prunes_soundly (sg_context sc) (sg_column_scanners sc) p [c] (spec_rows c) Q" for p Q
    using off s(4) by (intro prunes_soundly_disabled) simp_all
  from Scan_serves [OF s(2) answers_postfix [OF e] s(3) this, of avx512] s(1) show ?thesis
    unfolding stats_count_def by metis
qed

section \<open>Properties\<close>

text \<open>The vectorised filter of the scanner, in the AVX-512 build and in the portable one, writes the
  row-wise comparison into the first rows of the mask and leaves the rest.\<close>

lemma scan_filter_correct:
  fixes data :: "'a::len word list"
  assumes "LENGTH('a) = 32 \<or> LENGTH('a) = 64" and "length data \<le> length msk"
  shows "VectorFilter avx512 rel data v msk = Inr (map (\<lambda>x. rel x v) data @ drop (length data) msk)"
proof -
  have "write_rows (\<lambda>k. rel (data ! k) v) 0 (length data) msk = map (\<lambda>x. rel x v) data @ drop (length data) msk"
    using assms(2) by (intro nth_equalityI) (auto simp: nth_append)
  then show ?thesis by (simp add: VectorFilter_writes [OF assms])
qed

text \<open>C1: With the skipping of blocks by zone maps and Bloom filters switched off, scanning the finished file, below
  \<open>2 ^ 32\<close> bytes, of a writer that holds a table of plain or delta encoded integer columns calls back, in order and in runs of
  at most 4096 rows, with exactly the rows on which the expression holds, in both builds. The expression is
  not a single comparison under a negation, which the fast path scans without the negation, and a single
  comparison on a 32-bit column has a constant that fits 32 bits (\<open>scannable\<close>). The statistics count the blocks, the rows and the rows delivered, and when
  no block is counted as skipped the delivered and the filtered rows add up to the rows scanned.\<close>

theorem scan_selects_rows:
  assumes "writer_holds w cs" and "length (file_of w) < 2 ^ 32" and "\<forall>i < length cs. index_ok w i"
    and "table_ok cs n" and "cs \<noteq> []" and "n + sc_block_size ctx \<le> 2 ^ 64"
    and "0 < sc_block_size ctx" and "sc_block_size ctx \<le> kScanBlockSize"
    and "\<not> sc_enable_zone_map_pruning ctx" and "\<not> sc_enable_bloom_filter ctx" and "scannable e cs"
  shows "\<exists>s sc rs sc'. Segment_Open (Some (fst (Writer_Finish w))) = Inr s \<and> SegmentScanner_new s ctx = Inr sc \<and>
    SegmentScanner_Scan avx512 (build_postfix e Predicate_empty) sc = Inr (calls_for cs rs, sc') \<and>
    rows_of_runs rs = filter (\<lambda>r. eval_pexp (row_env cs r) e) [0..<n] \<and> run_sizes_ok rs \<and>
    stats_count (sg_stats sc') ((n + sc_block_size ctx - 1) div sc_block_size ctx) n (length (rows_of_runs rs))"
proof -
  obtain s sc where s: "Segment_Open (Some (fst (Writer_Finish w))) = Inr s" "SegmentScanner_new s ctx = Inr sc"
    and sc: "scanner_serves sc cs n" "sg_stats sc = ScanStats_zero" "sg_context sc = ctx"
    using scanner_of_file [OF assms(1-8)] by blast
  have "prunes_soundly (sg_context sc) (sg_column_scanners sc) p cs n Q" for p Q
    using assms(9,10) sc(3) by (intro prunes_soundly_disabled) simp_all
  from Scan_serves [OF sc(1) answers_postfix [OF assms(11)] sc(2) this] s sc(3) show ?thesis by metis
qed

theorem scan_selects_rows_witness:
  "\<exists>s sc rs sc'. SegmentScanner_new s (ScanContext_default\<lparr>sc_block_size := 2, sc_enable_zone_map_pruning := False,
      sc_enable_bloom_filter := False\<rparr>) = Inr sc \<and>
    SegmentScanner_Scan True (build_postfix (PNot (PAnd (PGt 0 3) (PLt 0 9))) Predicate_empty) sc =
      Inr (calls_for [Spec64 Plain [5, 2, 9]] rs, sc') \<and>
    rows_of_runs rs = [1, 2] \<and> ss_rows_returned (sg_stats sc') = 2"
proof -
  let ?c = "Spec64 Plain [5, 2, 9]" and ?e = "PNot (PAnd (PGt 0 3) (PLt 0 9))"
  let ?ctx = "ScanContext_default\<lparr>sc_block_size := 2, sc_enable_zone_map_pruning := False, sc_enable_bloom_filter := False\<rparr>"
  obtain w where w: "writer_holds w [?c]" "sw_zone_maps w = []" "sw_bloom_filters w = []"
    using one_column_writer [of ?c] by (auto simp: fixed_width_def)
  have "length (file_of w) < 2 ^ 32" using file_size_specs [OF w] by simp
  moreover have "\<forall>i < length [?c]. index_ok w i" using w by (simp add: index_ok_def)
  moreover have "table_ok [?c] 3" "scannable ?e [?c]" by (simp_all add: table_ok_def fixed_width_def scannable_def)
  moreover have "0 < sc_block_size ?ctx" "sc_block_size ?ctx \<le> kScanBlockSize" "3 + sc_block_size ?ctx \<le> 2 ^ 64"
    "\<not> sc_enable_zone_map_pruning ?ctx" "\<not> sc_enable_bloom_filter ?ctx"
    by (simp_all add: ScanContext_default_def kScanBlockSize_def)
  ultimately obtain s sc rs sc' where r: "SegmentScanner_new s ?ctx = Inr sc"
    "SegmentScanner_Scan True (build_postfix ?e Predicate_empty) sc = Inr (calls_for [?c] rs, sc')"
    "rows_of_runs rs = filter (\<lambda>r. eval_pexp (row_env [?c] r) ?e) [0..<3]"
    and st: "stats_count (sg_stats sc') ((3 + sc_block_size ?ctx - 1) div sc_block_size ?ctx) 3 (length (rows_of_runs rs))"
    using scan_selects_rows [of w "[?c]" 3 ?ctx ?e True] w(1) by blast
  have rows: "rows_of_runs rs = [1, 2]" unfolding r(3) by (simp add: row_env_def upt_rec)
  then have "ss_rows_returned (sg_stats sc') = 2" using st by (simp add: stats_count_def)
  with r(1,2) rows show ?thesis by blast
qed



text \<open>C6: A negated comparison is scanned as the comparison itself: the fast path looks at the operands of
  the single predicate and not at the program, so the rows delivered are the complement of the
  rows asked for.\<close>

theorem scan_ignores_negation:
  assumes "is_comparison e"
  shows "SegmentScanner_Scan avx512 (build_postfix (PNot e) Predicate_empty) sc =
    SegmentScanner_Scan avx512 (build_postfix e Predicate_empty) sc"
proof -
  let ?p = "build_postfix e Predicate_empty" and ?q = "build_postfix (PNot e) Predicate_empty"
  have eq: "pr_column_predicates ?q = pr_column_predicates ?p" "bp_constants (pr_program ?q) = bp_constants (pr_program ?p)"
    "bp_column_indices (pr_program ?q) = bp_column_indices (pr_program ?p)"
    by (simp_all add: Predicate_Not_def Emit_def)
  have fast: "fast_path ?p" "fast_path ?q"
    unfolding fast_path_def eq using comparison_lists [OF assms] by (simp_all add: postfix_lists(1,2))
  have "Scan_block avx512 ctx css ?q columns num_rows b st = Scan_block avx512 ctx css ?p columns num_rows b st"
    for ctx css columns num_rows b st
    unfolding Scan_block_def zone_map_allows_def bloom_allows_def candidates_def eq if_P [OF fast(1)] if_P [OF fast(2)] ..
  then show ?thesis unfolding SegmentScanner_Scan_def by presburger
qed

theorem scan_ignores_negation_witness:
  "\<forall>sc. SegmentScanner_Scan False (build_postfix (PNot (PEq 0 5)) Predicate_empty) sc =
    SegmentScanner_Scan False (build_postfix (PEq 0 5) Predicate_empty) sc"
  using scan_ignores_negation [of "PEq 0 5" False] by simp

text \<open>C4: When no scan is cancelled and every segment scans without error, the threads of a parallel scan
  together make exactly the calls of the single scans, each segment's calls once and each thread's in
  the order of its segments, and the total of the returned rows is the sum over the segments.\<close>

theorem parallel_scan_complete:
  assumes "0 < sc_num_threads (ps_context ps)"
    and "\<forall>i < length (ps_segments ps). \<exists>sc sc'. SegmentScanner_new (ps_segments ps ! i) (ps_context ps) = Inr sc \<and>
      SegmentScanner_Scan avx512 p sc = Inr (calls i, sc') \<and> sg_stats sc' = stats i"
  shows "\<exists>outs ps'. ParallelScanner_Scan avx512 (\<lambda>_ _. False) p ps = Inr (outs, ps') \<and>
    outs = map (\<lambda>t. concat (map calls (filter (\<lambda>i. i mod sc_num_threads (ps_context ps) = t)
      [0..<length (ps_segments ps)]))) [0..<sc_num_threads (ps_context ps)] \<and>
    length (concat outs) = (\<Sum>i\<leftarrow>[0..<length (ps_segments ps)]. length (calls i)) \<and>
    (\<forall>c. count_list (concat outs) c = (\<Sum>i\<leftarrow>[0..<length (ps_segments ps)]. count_list (calls i) c)) \<and>
    ss_rows_returned (ps_total_stats ps') = ss_rows_returned (ps_total_stats ps) +
      (\<Sum>i\<leftarrow>[0..<length (ps_segments ps)]. ss_rows_returned (stats i))"
proof -
  let ?T = "sc_num_threads (ps_context ps)" and ?n = "length (ps_segments ps)"
  let ?seg = "\<lambda>t. filter (\<lambda>i. i mod ?T = t) [0..<?n]"
  have st: "stripe ?T t ?n = ?seg t" if "t < ?T" for t
  proof -
    have "[0..<?n] = [0..<min t ?n] @ [min t ?n..<?n]" using upt_add_eq_append [of 0 "min t ?n" "?n - min t ?n"] by simp
    moreover have "filter (\<lambda>i. i mod ?T = t) [0..<min t ?n] = []" using that by (auto simp: filter_empty_conv)
    moreover have "[min t ?n..<?n] = [t..<?n]" by (simp add: min_def)
    ultimately show ?thesis using stripe_filter [OF assms(1), of t ?n] that by (metis append_Nil filter_append mod_less)
  qed
  let ?r = "\<lambda>t. (concat (map calls (?seg t)), fold (\<lambda>i st. add_stats st (stats i)) (?seg t) ScanStats_zero)"
  have threads: "map_res (\<lambda>t. ScanThread avx512 (\<lambda>_ _. False) p (ps_context ps) (ps_segments ps) (stripe ?T t ?n)
      ([], ScanStats_zero)) [0..<?T] = Inr (map ?r [0..<?T])"
  proof (rule map_res_Inr)
    fix t assume "t \<in> set [0..<?T]"
    then have t: "t < ?T" by simp
    show "ScanThread avx512 (\<lambda>_ _. False) p (ps_context ps) (ps_segments ps) (stripe ?T t ?n) ([], ScanStats_zero) =
        Inr (?r t)"
      unfolding st [OF t] using assms(2) by (subst ScanThread_uncancelled [where calls = calls and stats = stats]) auto
  qed
  have len: "length (concat (map (\<lambda>t. concat (map calls (?seg t))) [0..<?T])) = (\<Sum>i\<leftarrow>[0..<?n]. length (calls i))"
    using sum_stripes [OF assms(1), of "\<lambda>i. length (calls i)" "[0..<?n]"]
    by (simp add: length_concat comp_def)
  have cnt: "count_list (concat xss) c = (\<Sum>xs\<leftarrow>xss. count_list xs c)" for xss and c :: "byte list list \<times> nat"
    by (induction xss) simp_all
  have count: "count_list (concat (map (\<lambda>t. concat (map calls (?seg t))) [0..<?T])) c = (\<Sum>i\<leftarrow>[0..<?n]. count_list (calls i) c)" for c
    using sum_stripes [OF assms(1), of "\<lambda>i. count_list (calls i) c" "[0..<?n]"]
    by (simp add: cnt comp_def)
  have tot: "ss_rows_returned (fold (\<lambda>r st. add_stats st (snd r)) (map ?r [0..<?T]) st0) =
      ss_rows_returned st0 + (\<Sum>i\<leftarrow>[0..<?n]. ss_rows_returned (stats i))" for st0
    using sum_stripes [OF assms(1), of "\<lambda>i. ss_rows_returned (stats i)" "[0..<?n]"]
    by (simp add: fold_map comp_def fold_add_stats [of "\<lambda>t. fold (\<lambda>i st. add_stats st (stats i)) (?seg t) ScanStats_zero"]
        fold_add_stats ScanStats_zero_def)
  show ?thesis
    unfolding ParallelScanner_Scan_def Let_def threads using len count tot by (simp add: comp_def)
qed

theorem parallel_scan_complete_witness:
  "\<exists>ps outs ps'. sc_num_threads (ps_context ps) = 2 \<and> length (ps_segments ps) = 3 \<and>
    ParallelScanner_Scan True (\<lambda>_ _. False) (build_postfix (PLt 0 6) Predicate_empty) ps = Inr (outs, ps') \<and>
    length outs = 2 \<and> ss_rows_returned (ps_total_stats ps') = 6"
proof -
  let ?c = "Spec64 Plain [5, 2, 9]" and ?e = "PLt 0 6"
  let ?ctx = "ScanContext_default\<lparr>sc_num_threads := 2, sc_enable_zone_map_pruning := False, sc_enable_bloom_filter := False\<rparr>"
  let ?Q = "\<lambda>r. eval_pexp (row_env [?c] r) ?e"
  have "scannable ?e [?c]" by (simp add: scannable_def)
  then obtain s sc rs sc' where s: "SegmentScanner_new s ?ctx = Inr sc"
    "SegmentScanner_Scan True (build_postfix ?e Predicate_empty) sc = Inr (calls_for [?c] rs, sc')"
    "rows_of_runs rs = filter ?Q [0..<spec_rows ?c]" "ss_rows_returned (sg_stats sc') = length (rows_of_runs rs)"
    using one_column_scan [of ?c ?ctx ?e True] by (auto simp: fixed_width_def ScanContext_default_def kScanBlockSize_def)
  have "length (rows_of_runs rs) = 2" unfolding s(3) by (simp add: row_env_def upt_rec)
  then have two: "ss_rows_returned (sg_stats sc') = 2" using s(4) by simp
  let ?ps = "\<lparr>ps_segments = [s, s, s], ps_context = ?ctx, ps_total_stats = ScanStats_zero\<rparr>"
  have "\<forall>i < length (ps_segments ?ps). \<exists>sc sc1. SegmentScanner_new (ps_segments ?ps ! i) (ps_context ?ps) = Inr sc \<and>
      SegmentScanner_Scan True (build_postfix ?e Predicate_empty) sc = Inr (calls_for [?c] rs, sc1) \<and> sg_stats sc1 = sg_stats sc'"
    using s(1,2) by (auto simp: less_Suc_eq)
  from parallel_scan_complete [OF _ this]
  obtain outs ps' where "ParallelScanner_Scan True (\<lambda>_ _. False) (build_postfix ?e Predicate_empty) ?ps = Inr (outs, ps')"
    "length outs = 2" "ss_rows_returned (ps_total_stats ps') = 6"
    using two by (auto simp: ScanStats_zero_def)
  then show ?thesis by (intro exI [of _ ?ps] exI [of _ outs] exI [of _ ps']) simp
qed



end
