(* ===== verification/OrderedMaps.thy ===== *)
theory OrderedMaps
  imports Prelude
begin

text \<open>
  \<^verbatim>\<open>std::map\<close> as the delta store uses it: insertion or overwriting by \<^verbatim>\<open>operator[]\<close>, \<^verbatim>\<open>find\<close>,
  iteration in key order and \<^verbatim>\<open>lower_bound\<close>. The map is the list of its entries in key order.
  The locale \<open>ordered_map\<close> is the contract the store relies on.
\<close>

section \<open>The map as an ordered list of entries\<close>

type_synonym ('k, 'v) omap = "('k \<times> 'v) list"

fun om_update :: "'k::linorder \<Rightarrow> 'v \<Rightarrow> ('k, 'v) omap \<Rightarrow> ('k, 'v) omap" where
  "om_update k v [] = [(k, v)]"
| "om_update k v ((k', v') # m) =
     (if k < k' then (k, v) # (k', v') # m
      else if k = k' then (k, v) # m
      else (k', v') # om_update k v m)"

fun om_find :: "('k::linorder, 'v) omap \<Rightarrow> 'k \<Rightarrow> 'v option" where
  "om_find [] k = None"
| "om_find ((k', v) # m) k =
     (if k < k' then None else if k = k' then Some v else om_find m k)"

text \<open>The entries from \<^verbatim>\<open>lower_bound(lo)\<close> on while the key is below \<open>hi\<close>.\<close>

definition om_range :: "'k::linorder \<Rightarrow> 'k \<Rightarrow> ('k, 'v) omap \<Rightarrow> ('k \<times> 'v) list" where
  "om_range lo hi m = takeWhile (\<lambda>(k, _). k < hi) (dropWhile (\<lambda>(k, _). k < lo) m)"

definition om_inv :: "('k::linorder, 'v) omap \<Rightarrow> bool" where
  "om_inv m \<longleftrightarrow> sorted_wrt (<) (map fst m)"

section \<open>The contract\<close>

locale ordered_map =
  fixes empty :: 'm
    and update :: "'k::linorder \<Rightarrow> 'v \<Rightarrow> 'm \<Rightarrow> 'm"
    and find :: "'m \<Rightarrow> 'k \<Rightarrow> 'v option"
    and entries :: "'m \<Rightarrow> ('k \<times> 'v) list"
    and inv :: "'m \<Rightarrow> bool"
  assumes find_empty: "find empty k = None"
    and find_update: "inv m \<Longrightarrow> find (update k v m) k' = (if k' = k then Some v else find m k')"
    and entries_find: "inv m \<Longrightarrow> (k, v) \<in> set (entries m) \<longleftrightarrow> find m k = Some v"
    and entries_sorted: "inv m \<Longrightarrow> sorted_wrt (<) (map fst (entries m))"
    and inv_empty: "inv empty"
    and inv_update: "inv m \<Longrightarrow> inv (update k v m)"
begin

lemma update_same: "inv m \<Longrightarrow> find (update k v m) k = Some v"
  by (simp add: find_update)

lemma update_twice:
  "inv m \<Longrightarrow> find (update k w (update k v m)) = find (update k w m)"
  by (auto simp: find_update inv_update)

lemma find_entries_unique:
  assumes "inv m" and "(k, v) \<in> set (entries m)" and "(k, w) \<in> set (entries m)"
  shows "v = w"
  using assms by (simp add: entries_find)

text \<open>Two maps that answer every lookup alike have the same entries, in the same order.\<close>

lemma entries_determined:
  assumes "inv m" and "inv m'" and "find m = find m'"
  shows "entries m = entries m'"
proof -
  have same: "set (entries m) = set (entries m')"
    using entries_find [OF assms(1)] entries_find [OF assms(2)] assms(3) by auto
  have keys: "map fst (entries m) = map fst (entries m')"
    using entries_sorted [OF assms(1)] entries_sorted [OF assms(2)] same
    by (intro strict_sorted_equal) simp_all
  have "inj_on fst (set (entries m) \<union> set (entries m'))"
    using find_entries_unique [OF assms(1)] unfolding same by (fastforce simp: inj_on_def)
  with keys show ?thesis by (rule map_inj_on)
qed

end

section \<open>Facts\<close>

lemma om_inv_Cons: "om_inv ((k, v) # m) \<longleftrightarrow> om_inv m \<and> (\<forall>k' \<in> fst ` set m. k < k')"
  by (auto simp: om_inv_def)

lemma keys_update: "fst ` set (om_update k v m) = insert k (fst ` set m)"
  by (induction k v m rule: om_update.induct) auto

lemma inv_om_update: "om_inv m \<Longrightarrow> om_inv (om_update k v m)"
proof (induction k v m rule: om_update.induct)
  case (1 k v)
  then show ?case by (simp add: om_inv_def)
next
  case (2 k v k' v' m)
  then show ?case by (auto simp: om_inv_Cons keys_update)
qed

lemma om_find_update:
  "om_inv m \<Longrightarrow> om_find (om_update k v m) k' = (if k' = k then Some v else om_find m k')"
  by (induction k v m rule: om_update.induct) (auto simp: om_inv_Cons)

lemma om_find_entries: "om_inv m \<Longrightarrow> (k, v) \<in> set m \<longleftrightarrow> om_find m k = Some v"
  by (induction m k rule: om_find.induct) (force simp: om_inv_Cons)+

interpretation omap: ordered_map "[]" om_update om_find "\<lambda>m. m" om_inv
proof
  show "om_inv []" by (simp add: om_inv_def)
  show "sorted_wrt (<) (map fst m)" if "om_inv m" for m :: "('k::linorder \<times> 'v) list"
    using that by (simp add: om_inv_def)
qed (simp_all add: om_find_update om_find_entries inv_om_update)

lemma om_range_filter:
  assumes "om_inv m"
  shows "om_range lo hi m = filter (\<lambda>(k, _). lo \<le> k \<and> k < hi) m"
  using assms
proof (induction m)
  case Nil
  then show ?case by (simp add: om_range_def)
next
  case (Cons e m)
  obtain k v where e: "e = (k, v)" by (cases e)
  have m: "om_inv m" and above: "\<forall>(k', v') \<in> set m. k < k'"
    using Cons.prems by (auto simp: e om_inv_Cons)
  show ?case
  proof (cases "k < lo")
    case True
    then show ?thesis using Cons.IH [OF m] by (auto simp: e om_range_def)
  next
    case False
    have "takeWhile (\<lambda>(k, _). k < hi) m = filter (\<lambda>(k, _). lo \<le> k \<and> k < hi) m"
    proof -
      have "dropWhile (\<lambda>(k, _). k < lo) m = m"
        using False above by (cases m) auto
      then show ?thesis using Cons.IH [OF m] by (simp add: om_range_def)
    qed
    moreover have "filter (\<lambda>(k, _). lo \<le> k \<and> k < hi) m = []" if "\<not> k < hi"
      using that above by (fastforce simp: filter_empty_conv)
    ultimately show ?thesis using False by (simp add: e om_range_def)
  qed
qed

end
