(* ===== verification/DeltaStores.thy ===== *)
theory DeltaStores
  imports OrderedMaps DataTypes
begin

text \<open>
  \<^verbatim>\<open>include/columnar/delta_store.h\<close>: the write buffer with its per-column maps of inserted and
  deleted rows, and the manager that rotates stores through flushing. Each operation is the
  whole method run to completion; \<^verbatim>\<open>size_t\<close> counters that are only added to or subtracted from
  wrap at 64 bits. The step relation at the end lets operations of several threads interleave at
  the granularity of the column locks.
\<close>

section \<open>The store\<close>

record ColumnDelta =
  inserts :: "(u64, u64 \<times> byte list) omap"
  deletes :: "(u64, u64) omap"

definition ColumnDelta_empty :: ColumnDelta where
  "ColumnDelta_empty = \<lparr>inserts = [], deletes = []\<rparr>"

definition ColumnDelta_MemoryUsage :: "ColumnDelta \<Rightarrow> nat" where
  "ColumnDelta_MemoryUsage cd =
     sum_list (map (\<lambda>(_, (_, d)). length d + 16) (inserts cd)) + length (deletes cd) * 16"

record DeltaStore =
  ds_columns :: "ColumnDelta list"
  ds_num_columns :: nat
  ds_flush_threshold :: u64
  pending_rows :: u64
  global_timestamp :: u64
  flushing :: bool

definition DeltaStore_new :: "nat \<Rightarrow> u64 \<Rightarrow> DeltaStore" where
  "DeltaStore_new num_columns flush_threshold =
     \<lparr>ds_columns = replicate num_columns ColumnDelta_empty, ds_num_columns = num_columns,
      ds_flush_threshold = flush_threshold, pending_rows = 0, global_timestamp = 0,
      flushing = False\<rparr>"

text \<open>\<^verbatim>\<open>if (timestamp == 0) timestamp = ++global_timestamp_\<close>.\<close>

definition next_timestamp :: "u64 \<Rightarrow> DeltaStore \<Rightarrow> u64 \<times> DeltaStore" where
  "next_timestamp ts ds =
     (if ts = 0 then (global_timestamp ds + 1, ds\<lparr>global_timestamp := global_timestamp ds + 1\<rparr>)
      else (ts, ds))"

definition insert_cell :: "u64 \<Rightarrow> u64 \<Rightarrow> byte list \<Rightarrow> ColumnDelta \<Rightarrow> ColumnDelta" where
  "insert_cell row_id ts d cd = cd\<lparr>inserts := om_update row_id (ts, d) (inserts cd)\<rparr>"

definition delete_cell :: "u64 \<Rightarrow> u64 \<Rightarrow> ColumnDelta \<Rightarrow> ColumnDelta" where
  "delete_cell row_id ts cd = cd\<lparr>deletes := om_update row_id ts (deletes cd)\<rparr>"

definition on_column :: "nat \<Rightarrow> (ColumnDelta \<Rightarrow> ColumnDelta) \<Rightarrow> DeltaStore \<Rightarrow> DeltaStore" where
  "on_column col f ds = ds\<lparr>ds_columns := (ds_columns ds)[col := f (ds_columns ds ! col)]\<rparr>"

definition Delta_Insert :: "u64 \<Rightarrow> byte list list \<Rightarrow> u64 \<Rightarrow> DeltaStore \<Rightarrow> DeltaStore" where
  "Delta_Insert row_id column_data timestamp ds =
     (let (ts, ds1) = next_timestamp timestamp ds;
          ds2 = fold (\<lambda>col. on_column col (insert_cell row_id ts (column_data ! col)))
                  [0..<min (ds_num_columns ds) (length column_data)] ds1
      in ds2\<lparr>pending_rows := pending_rows ds2 + 1\<rparr>)"

definition Delta_Delete :: "u64 \<Rightarrow> u64 \<Rightarrow> DeltaStore \<Rightarrow> DeltaStore" where
  "Delta_Delete row_id timestamp ds =
     (let (ts, ds1) = next_timestamp timestamp ds
      in fold (\<lambda>col. on_column col (delete_cell row_id ts)) [0..<ds_num_columns ds] ds1)"

text \<open>\<^verbatim>\<open>Get\<close> returns the data and the timestamp, or nothing.\<close>

definition Delta_Get :: "nat \<Rightarrow> u64 \<Rightarrow> DeltaStore \<Rightarrow> (byte list \<times> u64) option" where
  "Delta_Get col row_id ds =
     (if col \<ge> ds_num_columns ds then None
      else let cd = ds_columns ds ! col
           in case om_find (deletes cd) row_id of
                Some _ \<Rightarrow> None
              | None \<Rightarrow> (case om_find (inserts cd) row_id of
                           Some (ts, d) \<Rightarrow> Some (d, ts)
                         | None \<Rightarrow> None))"

definition live :: "ColumnDelta \<Rightarrow> u64 \<times> u64 \<times> byte list \<Rightarrow> bool" where
  "live cd e = (case om_find (deletes cd) (fst e) of None \<Rightarrow> True | Some t \<Rightarrow> t < fst (snd e))"

definition Delta_GetRange ::
  "nat \<Rightarrow> u64 \<Rightarrow> u64 \<Rightarrow> (u64 \<times> byte list) list \<Rightarrow> DeltaStore \<Rightarrow> (u64 \<times> byte list) list" where
  "Delta_GetRange col start_row end_row out ds =
     (if col \<ge> ds_num_columns ds then out
      else let cd = ds_columns ds ! col
           in out @ map (\<lambda>(k, (_, d)). (k, d))
                (filter (live cd) (om_range start_row end_row (inserts cd))))"

definition Delta_ShouldFlush :: "DeltaStore \<Rightarrow> bool" where
  "Delta_ShouldFlush ds \<longleftrightarrow> pending_rows ds \<ge> ds_flush_threshold ds"

definition Delta_PendingRows :: "DeltaStore \<Rightarrow> u64" where
  "Delta_PendingRows ds = pending_rows ds"

definition Delta_MemoryUsage :: "DeltaStore \<Rightarrow> nat" where
  "Delta_MemoryUsage ds = sum_list (map ColumnDelta_MemoryUsage (ds_columns ds))"

definition Delta_BeginFlush :: "DeltaStore \<Rightarrow> DeltaStore" where
  "Delta_BeginFlush ds = ds\<lparr>flushing := True\<rparr>"

definition Delta_EndFlush :: "u64 \<Rightarrow> DeltaStore \<Rightarrow> DeltaStore" where
  "Delta_EndFlush flushed_rows ds =
     ds\<lparr>pending_rows := pending_rows ds - flushed_rows, flushing := False\<rparr>"

definition Delta_Clear :: "DeltaStore \<Rightarrow> DeltaStore" where
  "Delta_Clear ds = ds\<lparr>ds_columns := map (\<lambda>_. ColumnDelta_empty) (ds_columns ds), pending_rows := 0\<rparr>"

text \<open>A visitor is a state transformer called on the entries in key order.\<close>

definition Delta_VisitInserts ::
  "nat \<Rightarrow> (u64 \<Rightarrow> u64 \<Rightarrow> byte list \<Rightarrow> 's \<Rightarrow> 's) \<Rightarrow> DeltaStore \<Rightarrow> 's \<Rightarrow> 's" where
  "Delta_VisitInserts col visitor ds s =
     (if col \<ge> ds_num_columns ds then s
      else fold (\<lambda>(k, (ts, d)). visitor k ts d) (inserts (ds_columns ds ! col)) s)"

definition Delta_VisitDeletes :: "nat \<Rightarrow> (u64 \<Rightarrow> u64 \<Rightarrow> 's \<Rightarrow> 's) \<Rightarrow> DeltaStore \<Rightarrow> 's \<Rightarrow> 's" where
  "Delta_VisitDeletes col visitor ds s =
     (if col \<ge> ds_num_columns ds then s
      else fold (\<lambda>(k, ts). visitor k ts) (deletes (ds_columns ds ! col)) s)"

section \<open>The manager\<close>

record DeltaStoreManager =
  dm_stores :: "DeltaStore list"
  dm_num_columns :: nat
  dm_flush_threshold :: u64
  active_store :: nat

definition Manager_new :: "nat \<Rightarrow> u64 \<Rightarrow> DeltaStoreManager" where
  "Manager_new num_columns flush_threshold =
     \<lparr>dm_stores = [DeltaStore_new num_columns flush_threshold], dm_num_columns = num_columns,
      dm_flush_threshold = flush_threshold, active_store = 0\<rparr>"

definition Manager_CurrentStore :: "DeltaStoreManager \<Rightarrow> DeltaStore res" where
  "Manager_CurrentStore m = nth_res (dm_stores m) (active_store m)"

text \<open>\<^verbatim>\<open>CurrentStore()->op(...)\<close>.\<close>

definition on_current :: "(DeltaStore \<Rightarrow> DeltaStore) \<Rightarrow> DeltaStoreManager \<Rightarrow> DeltaStoreManager res" where
  "on_current f m = bind_res (upd_res (dm_stores m) (active_store m) f) (\<lambda>ss. Inr (m\<lparr>dm_stores := ss\<rparr>))"

text \<open>The returned pointer is the index of the store, or nothing.\<close>

definition Manager_GetStoreForFlush :: "DeltaStoreManager \<Rightarrow> (nat option \<times> DeltaStoreManager) res" where
  "Manager_GetStoreForFlush m =
     (let current = active_store m
      in bind_res (nth_res (dm_stores m) current) (\<lambda>ds.
           if Delta_ShouldFlush ds
           then let stores = (if length (dm_stores m) = 1
                              then dm_stores m @ [DeltaStore_new (dm_num_columns m) (dm_flush_threshold m)]
                              else dm_stores m)
                in Inr (Some current,
                        m\<lparr>dm_stores := stores[current := Delta_BeginFlush ds],
                          active_store := (current + 1) mod length stores\<rparr>)
           else Inr (None, m)))"

definition Manager_FinishFlush :: "nat \<Rightarrow> u64 \<Rightarrow> DeltaStoreManager \<Rightarrow> DeltaStoreManager" where
  "Manager_FinishFlush store_idx flushed_rows m =
     (if store_idx < length (dm_stores m)
      then m\<lparr>dm_stores := (dm_stores m)[store_idx := Delta_EndFlush flushed_rows (dm_stores m ! store_idx)]\<rparr>
      else m)"

definition Manager_CompactStores :: "DeltaStoreManager \<Rightarrow> DeltaStoreManager" where
  "Manager_CompactStores m =
     m\<lparr>dm_stores := map (\<lambda>ds. if \<not> flushing ds \<and> Delta_PendingRows ds = 0 then Delta_Clear ds else ds)
                      (dm_stores m)\<rparr>"

section \<open>Invariants\<close>

definition ColumnDelta_inv :: "ColumnDelta \<Rightarrow> bool" where
  "ColumnDelta_inv cd \<longleftrightarrow> om_inv (inserts cd) \<and> om_inv (deletes cd)"

definition Delta_inv :: "DeltaStore \<Rightarrow> bool" where
  "Delta_inv ds \<longleftrightarrow> length (ds_columns ds) = ds_num_columns ds \<and> list_all ColumnDelta_inv (ds_columns ds)"

definition Manager_inv :: "DeltaStoreManager \<Rightarrow> bool" where
  "Manager_inv m \<longleftrightarrow> active_store m < length (dm_stores m) \<and> length (dm_stores m) \<le> 2 \<and>
     (\<forall>ds \<in> set (dm_stores m). Delta_inv ds \<and> ds_num_columns ds = dm_num_columns m)"

section \<open>Facts on the columns of a store\<close>

lemma on_column_sel [simp]:
  "ds_num_columns (on_column col f ds) = ds_num_columns ds"
  "ds_flush_threshold (on_column col f ds) = ds_flush_threshold ds"
  "pending_rows (on_column col f ds) = pending_rows ds"
  "global_timestamp (on_column col f ds) = global_timestamp ds"
  "flushing (on_column col f ds) = flushing ds"
  "length (ds_columns (on_column col f ds)) = length (ds_columns ds)"
  by (simp_all add: on_column_def)

lemma on_column_nth:
  "i < length (ds_columns ds) \<Longrightarrow>
     ds_columns (on_column col f ds) ! i = (if i = col then f (ds_columns ds ! i) else ds_columns ds ! i)"
  by (auto simp: on_column_def nth_list_update)

lemma fold_on_column:
  "n \<le> length (ds_columns ds) \<Longrightarrow>
   (let ds' = fold (\<lambda>col. on_column col (f col)) [0..<n] ds
    in ds_num_columns ds' = ds_num_columns ds \<and> ds_flush_threshold ds' = ds_flush_threshold ds \<and>
       pending_rows ds' = pending_rows ds \<and> global_timestamp ds' = global_timestamp ds \<and>
       flushing ds' = flushing ds \<and> length (ds_columns ds') = length (ds_columns ds) \<and>
       (\<forall>i < length (ds_columns ds). ds_columns ds' ! i =
          (if i < n then f i (ds_columns ds ! i) else ds_columns ds ! i)))"
proof (induction n)
  case 0
  then show ?case by simp
next
  case (Suc n)
  then show ?case by (auto simp: Let_def on_column_nth less_Suc_eq)
qed

lemmas fold_on_column_sel = fold_on_column [unfolded Let_def]

lemma next_timestamp_cases:
  obtains "ts = 0" "next_timestamp ts ds =
      (global_timestamp ds + 1, ds\<lparr>global_timestamp := global_timestamp ds + 1\<rparr>)"
  | "ts \<noteq> 0" "next_timestamp ts ds = (ts, ds)"
  by (cases "ts = 0") (auto simp: next_timestamp_def)

text \<open>The timestamp an operation ends up with.\<close>

definition stamp :: "u64 \<Rightarrow> DeltaStore \<Rightarrow> u64" where
  "stamp ts ds = (if ts = 0 then global_timestamp ds + 1 else ts)"

lemma next_timestamp_sel [simp]:
  "fst (next_timestamp ts ds) = stamp ts ds"
  "ds_columns (snd (next_timestamp ts ds)) = ds_columns ds"
  "ds_num_columns (snd (next_timestamp ts ds)) = ds_num_columns ds"
  "pending_rows (snd (next_timestamp ts ds)) = pending_rows ds"
  "flushing (snd (next_timestamp ts ds)) = flushing ds"
  "ds_flush_threshold (snd (next_timestamp ts ds)) = ds_flush_threshold ds"
  "global_timestamp (snd (next_timestamp ts ds)) =
     (if ts = 0 then global_timestamp ds + 1 else global_timestamp ds)"
  by (simp_all add: next_timestamp_def stamp_def)

lemma Delta_Insert_columns:
  assumes "length (ds_columns ds) = ds_num_columns ds"
  shows "length (ds_columns (Delta_Insert r d ts ds)) = ds_num_columns ds"
    and "ds_num_columns (Delta_Insert r d ts ds) = ds_num_columns ds"
    and "pending_rows (Delta_Insert r d ts ds) = pending_rows ds + 1"
    and "i < ds_num_columns ds \<Longrightarrow> ds_columns (Delta_Insert r d ts ds) ! i =
      (if i < length d then insert_cell r (stamp ts ds) (d ! i) (ds_columns ds ! i) else ds_columns ds ! i)"
  using fold_on_column_sel [of "min (ds_num_columns ds) (length d)" "snd (next_timestamp ts ds)"
      "\<lambda>col. insert_cell r (stamp ts ds) (d ! col)"] assms
  by (simp_all add: Delta_Insert_def split_beta Let_def)

lemma Delta_Delete_columns:
  assumes "length (ds_columns ds) = ds_num_columns ds"
  shows "length (ds_columns (Delta_Delete r ts ds)) = ds_num_columns ds"
    and "ds_num_columns (Delta_Delete r ts ds) = ds_num_columns ds"
    and "pending_rows (Delta_Delete r ts ds) = pending_rows ds"
    and "i < ds_num_columns ds \<Longrightarrow> ds_columns (Delta_Delete r ts ds) ! i =
      delete_cell r (stamp ts ds) (ds_columns ds ! i)"
  using fold_on_column_sel [of "ds_num_columns ds" "snd (next_timestamp ts ds)"
      "\<lambda>col. delete_cell r (stamp ts ds)"] assms
  by (simp_all add: Delta_Delete_def split_beta Let_def)

lemma Delta_inv_nth: "Delta_inv ds \<Longrightarrow> i < ds_num_columns ds \<Longrightarrow> ColumnDelta_inv (ds_columns ds ! i)"
  by (simp add: Delta_inv_def list_all_length)

lemma cell_inv [simp]:
  "ColumnDelta_inv cd \<Longrightarrow> ColumnDelta_inv (insert_cell r ts d cd)"
  "ColumnDelta_inv cd \<Longrightarrow> ColumnDelta_inv (delete_cell r ts cd)"
  "ColumnDelta_inv ColumnDelta_empty"
  by (simp_all add: ColumnDelta_inv_def insert_cell_def delete_cell_def ColumnDelta_empty_def
      omap.inv_update omap.inv_empty)

lemma inv_on_column:
  assumes "Delta_inv ds" and "\<And>cd. ColumnDelta_inv cd \<Longrightarrow> ColumnDelta_inv (f cd)"
  shows "Delta_inv (on_column col f ds)"
  using assms by (auto simp: Delta_inv_def list_all_length on_column_nth)

lemma inv_DeltaStore_new: "Delta_inv (DeltaStore_new n t)"
  by (simp add: Delta_inv_def DeltaStore_new_def list_all_length)

lemma inv_Delta_Insert: "Delta_inv ds \<Longrightarrow> Delta_inv (Delta_Insert r d ts ds)"
  using Delta_Insert_columns [of ds] by (auto simp: Delta_inv_def list_all_length)

lemma inv_Delta_Delete: "Delta_inv ds \<Longrightarrow> Delta_inv (Delta_Delete r ts ds)"
  using Delta_Delete_columns [of ds] by (auto simp: Delta_inv_def list_all_length)

lemma inv_Delta_flush [simp]:
  "Delta_inv (Delta_BeginFlush ds) \<longleftrightarrow> Delta_inv ds" "Delta_inv (Delta_EndFlush n ds) \<longleftrightarrow> Delta_inv ds"
  "Delta_inv ds \<Longrightarrow> Delta_inv (Delta_Clear ds)"
  by (simp_all add: Delta_inv_def Delta_BeginFlush_def Delta_EndFlush_def Delta_Clear_def list_all_length)

section \<open>Facts on reading back\<close>

lemmas cell_finds = omap.find_update insert_cell_def delete_cell_def ColumnDelta_inv_def

lemma Get_Insert:
  assumes "Delta_inv ds" and "col < ds_num_columns ds" and "col < length d"
  shows "Delta_Get col row (Delta_Insert r d ts ds) =
    (if row = r then (case om_find (deletes (ds_columns ds ! col)) r of
        None \<Rightarrow> Some (d ! col, stamp ts ds) | Some _ \<Rightarrow> None)
     else Delta_Get col row ds)"
  using assms Delta_inv_nth [OF assms(1,2)] Delta_Insert_columns [of ds]
  by (auto simp: Delta_Get_def Delta_inv_def cell_finds split: option.splits)

lemma Get_Delete:
  assumes "Delta_inv ds"
  shows "Delta_Get col row (Delta_Delete r ts ds) = (if row = r then None else Delta_Get col row ds)"
proof (cases "col < ds_num_columns ds")
  case True
  then show ?thesis
    using assms Delta_inv_nth [OF assms True] Delta_Delete_columns [of ds]
    by (auto simp: Delta_Get_def Delta_inv_def cell_finds split: option.splits)
next
  case False
  then show ?thesis
    using assms Delta_Delete_columns(2) [of ds r ts] by (simp add: Delta_Get_def Delta_inv_def)
qed

lemma live_iff: "live cd (k, ts, d) \<longleftrightarrow> (\<forall>t. om_find (deletes cd) k = Some t \<longrightarrow> t < ts)"
  by (simp add: live_def split: option.split)

text \<open>A range read returns, in key order, the rows of the range whose insert is newer than any
  delete of the row.\<close>

lemma GetRange_mem:
  assumes "Delta_inv ds" and "col < ds_num_columns ds"
  shows "(row, d) \<in> set (Delta_GetRange col lo hi [] ds) \<longleftrightarrow>
    lo \<le> row \<and> row < hi \<and> (\<exists>ts. om_find (inserts (ds_columns ds ! col)) row = Some (ts, d) \<and>
      (\<forall>t. om_find (deletes (ds_columns ds ! col)) row = Some t \<longrightarrow> t < ts))"
proof -
  let ?cd = "ds_columns ds ! col"
  have "om_inv (inserts ?cd)" using Delta_inv_nth [OF assms] by (simp add: ColumnDelta_inv_def)
  then show ?thesis
    using assms(2) live_iff
    by (auto simp: Delta_GetRange_def Let_def om_range_filter om_find_entries image_iff
        intro!: bexI [of _ "(row, _, d)"])
qed

lemma GetRange_sorted:
  assumes "Delta_inv ds" and "col < ds_num_columns ds"
  shows "sorted_wrt (<) (map fst (Delta_GetRange col lo hi [] ds))"
proof -
  let ?cd = "ds_columns ds ! col"
  have i: "om_inv (inserts ?cd)" using Delta_inv_nth [OF assms] by (simp add: ColumnDelta_inv_def)
  then have s: "sorted_wrt (\<lambda>a b. fst a < fst b) (inserts ?cd)" by (simp add: om_inv_def sorted_wrt_map)
  have "map fst (Delta_GetRange col lo hi [] ds) =
      map fst (filter (live ?cd) (filter (\<lambda>(k, _). lo \<le> k \<and> k < hi) (inserts ?cd)))"
    using assms(2) by (simp add: Delta_GetRange_def Let_def om_range_filter [OF i] split_beta comp_def)
  then show ?thesis using s by (simp add: sorted_wrt_map sorted_wrt_filter)
qed

section \<open>The manager as a state machine\<close>

inductive mstep :: "DeltaStoreManager \<Rightarrow> DeltaStoreManager \<Rightarrow> bool" where
  ms_insert: "on_current (Delta_Insert r d ts) m = Inr m' \<Longrightarrow> mstep m m'"
| ms_delete: "on_current (Delta_Delete r ts) m = Inr m' \<Longrightarrow> mstep m m'"
| ms_flush: "Manager_GetStoreForFlush m = Inr (i, m') \<Longrightarrow> mstep m m'"
| ms_finish: "mstep m (Manager_FinishFlush i n m)"
| ms_compact: "mstep m (Manager_CompactStores m)"

inductive manager_reachable :: "nat \<Rightarrow> u64 \<Rightarrow> DeltaStoreManager \<Rightarrow> bool" for n t where
  mr_new: "manager_reachable n t (Manager_new n t)"
| mr_step: "manager_reachable n t m \<Longrightarrow> mstep m m' \<Longrightarrow> manager_reachable n t m'"

lemma Manager_inv_nth:
  "Manager_inv m \<Longrightarrow> i < length (dm_stores m) \<Longrightarrow>
     Delta_inv (dm_stores m ! i) \<and> ds_num_columns (dm_stores m ! i) = dm_num_columns m"
  by (simp add: Manager_inv_def)

lemma inv_on_current:
  assumes "Manager_inv m" and "on_current f m = Inr m'"
    and "\<And>ds. Delta_inv ds \<Longrightarrow> Delta_inv (f ds) \<and> ds_num_columns (f ds) = ds_num_columns ds"
  shows "Manager_inv m'"
  using assms by (auto simp: on_current_def upd_res_def Manager_inv_def split: if_splits
      dest!: subsetD [OF set_update_subset_insert])

lemma GetStoreForFlush_inv:
  assumes "Manager_inv m" and "Manager_GetStoreForFlush m = Inr (i, m')"
  shows "Manager_inv m'"
proof -
  let ?s = "dm_stores m" and ?a = "active_store m"
  have a: "?a < length ?s" "length ?s \<le> 2" using assms(1) by (simp_all add: Manager_inv_def)
  show ?thesis
  proof (cases "Delta_ShouldFlush (?s ! ?a)")
    case True
    have new: "Delta_inv (DeltaStore_new n t)" "ds_num_columns (DeltaStore_new n t) = n" for n t
      by (rule inv_DeltaStore_new, simp add: DeltaStore_new_def)
    have bf: "ds_num_columns (Delta_BeginFlush ds) = ds_num_columns ds" for ds
      by (simp add: Delta_BeginFlush_def)
    have "Suc ?a mod length ?s < length ?s" using a(1) by (intro mod_less_divisor) linarith
    then show ?thesis
      using assms a True new bf unfolding Manager_inv_def Manager_GetStoreForFlush_def Let_def nth_res_def
      by (auto split: if_splits dest!: subsetD [OF set_update_subset_insert])
  next
    case False
    then show ?thesis using assms a by (simp add: Manager_GetStoreForFlush_def nth_res_def)
  qed
qed

lemma inv_mstep: "mstep m m' \<Longrightarrow> Manager_inv m \<Longrightarrow> Manager_inv m'"
proof (induction rule: mstep.induct)
  case (ms_insert r d ts m m')
  then show ?case
    using inv_Delta_Insert Delta_Insert_columns(2) by (auto simp: Delta_inv_def elim!: inv_on_current)
next
  case (ms_delete r ts m m')
  then show ?case
    using inv_Delta_Delete Delta_Delete_columns(2) by (auto simp: Delta_inv_def elim!: inv_on_current)
next
  case (ms_flush m i m')
  then show ?case by (blast intro: GetStoreForFlush_inv)
next
  case (ms_finish m i n)
  have "ds_num_columns (Delta_EndFlush n ds) = ds_num_columns ds" for ds
    by (simp add: Delta_EndFlush_def)
  with ms_finish show ?case
    using Manager_inv_nth [OF ms_finish, of i]
    by (auto simp: Manager_FinishFlush_def Manager_inv_def dest!: subsetD [OF set_update_subset_insert])
next
  case (ms_compact m)
  have "ds_num_columns (Delta_Clear ds) = ds_num_columns ds" for ds
    by (simp add: Delta_Clear_def)
  with ms_compact show ?case by (auto simp: Manager_CompactStores_def Manager_inv_def)
qed

lemma reachable_Manager_inv: "manager_reachable n t m \<Longrightarrow> Manager_inv m"
proof (induction rule: manager_reachable.induct)
  case mr_new
  then show ?case
    using inv_DeltaStore_new [of n t] by (simp add: Manager_inv_def Manager_new_def DeltaStore_new_def)
qed (rule inv_mstep)

text \<open>Handing out a store for flushing: the full store is marked and writers move to another.\<close>

lemma GetStoreForFlush_some:
  assumes "Manager_inv m" and "Delta_ShouldFlush (dm_stores m ! active_store m)"
  shows "\<exists>m'. Manager_GetStoreForFlush m = Inr (Some (active_store m), m') \<and>
    active_store m' \<noteq> active_store m \<and>
    dm_stores m' ! active_store m = Delta_BeginFlush (dm_stores m ! active_store m)"
proof -
  let ?a = "active_store m"
  have a: "?a < length (dm_stores m)" "length (dm_stores m) \<le> 2" using assms(1) by (simp_all add: Manager_inv_def)
  then consider "length (dm_stores m) = 1" "?a = 0" | "length (dm_stores m) = 2" "?a = 0"
    | "length (dm_stores m) = 2" "?a = 1" by linarith
  then show ?thesis
    using assms(2) a by cases (simp_all add: Manager_GetStoreForFlush_def nth_res_def Let_def nth_append)
qed

section \<open>Interleaved operations\<close>

text \<open>
  An insert or a delete takes its timestamp, locks and writes one column after the other, and an
  insert then counts the row. Threads interleave between these steps.
\<close>

datatype task =
    InsertCall u64 "byte list list" u64
  | Inserting u64 "byte list list" u64 nat
  | DeleteCall u64 u64
  | Deleting u64 u64 nat

inductive dstep :: "DeltaStore \<times> task list \<Rightarrow> DeltaStore \<times> task list \<Rightarrow> bool" where
  insert_start: "next_timestamp ts ds = (t, ds') \<Longrightarrow>
    dstep (ds, xs @ InsertCall r d ts # ys) (ds', xs @ Inserting r d t 0 # ys)"
| insert_column: "c < ds_num_columns ds \<Longrightarrow> c < length d \<Longrightarrow>
    dstep (ds, xs @ Inserting r d t c # ys)
      (on_column c (insert_cell r t (d ! c)) ds, xs @ Inserting r d t (Suc c) # ys)"
| insert_done: "\<not> (c < ds_num_columns ds \<and> c < length d) \<Longrightarrow>
    dstep (ds, xs @ Inserting r d t c # ys) (ds\<lparr>pending_rows := pending_rows ds + 1\<rparr>, xs @ ys)"
| delete_start: "next_timestamp ts ds = (t, ds') \<Longrightarrow>
    dstep (ds, xs @ DeleteCall r ts # ys) (ds', xs @ Deleting r t 0 # ys)"
| delete_column: "c < ds_num_columns ds \<Longrightarrow>
    dstep (ds, xs @ Deleting r t c # ys)
      (on_column c (delete_cell r t) ds, xs @ Deleting r t (Suc c) # ys)"
| delete_done: "\<not> c < ds_num_columns ds \<Longrightarrow> dstep (ds, xs @ Deleting r t c # ys) (ds, xs @ ys)"

text \<open>The invariant holds between any two steps, so readers under the column locks see it.\<close>

lemma inv_dstep: "dstep s s' \<Longrightarrow> Delta_inv (fst s) \<Longrightarrow> Delta_inv (fst s')"
proof (induction rule: dstep.induct)
  case (insert_start ts ds t ds' xs r d ys)
  then have "ds' = snd (next_timestamp ts ds)" by simp
  with insert_start show ?case by (simp add: Delta_inv_def)
next
  case (delete_start ts ds t ds' xs r ys)
  then have "ds' = snd (next_timestamp ts ds)" by simp
  with delete_start show ?case by (simp add: Delta_inv_def)
next
  case (insert_done c ds d xs r t ys)
  then show ?case by (simp add: Delta_inv_def)
qed (auto intro: inv_on_column)

lemma inv_dsteps: "dstep\<^sup>*\<^sup>* s s' \<Longrightarrow> Delta_inv (fst s) \<Longrightarrow> Delta_inv (fst s')"
  by (induction rule: rtranclp_induct) (auto intro: inv_dstep)

text \<open>Every row is counted once: the counter grows by the number of inserts that have finished.\<close>

fun is_insert :: "task \<Rightarrow> bool" where
  "is_insert (InsertCall _ _ _) = True"
| "is_insert (Inserting _ _ _ _) = True"
| "is_insert _ = False"

definition pending_total :: "DeltaStore \<times> task list \<Rightarrow> u64" where
  "pending_total s = pending_rows (fst s) + of_nat (length (filter is_insert (snd s)))"

lemma pending_dstep: "dstep s s' \<Longrightarrow> pending_total s' = pending_total s"
proof (induction rule: dstep.induct)
  case (insert_start ts ds t ds' xs r d ys)
  then have "ds' = snd (next_timestamp ts ds)" by simp
  then show ?case by (simp add: pending_total_def)
next
  case (delete_start ts ds t ds' xs r ys)
  then have "ds' = snd (next_timestamp ts ds)" by simp
  then show ?case by (simp add: pending_total_def)
qed (simp_all add: pending_total_def)

lemma pending_dsteps: "dstep\<^sup>*\<^sup>* s s' \<Longrightarrow> pending_total s' = pending_total s"
  by (induction rule: rtranclp_induct) (auto simp: pending_dstep)

text \<open>An insert that runs alone, step by step, ends as the whole method does.\<close>

lemma insert_columns_alone:
  assumes "c + n = min (ds_num_columns ds) (length d)"
  shows "dstep\<^sup>*\<^sup>* (ds, [Inserting r d t c])
    (fold (\<lambda>col. on_column col (insert_cell r t (d ! col))) [c..<c + n] ds, [Inserting r d t (c + n)])"
  using assms
proof (induction n arbitrary: c ds)
  case 0
  then show ?case by simp
next
  case (Suc n)
  let ?ds = "on_column c (insert_cell r t (d ! c)) ds"
  have "dstep (ds, [] @ Inserting r d t c # []) (?ds, [] @ Inserting r d t (Suc c) # [])"
    using Suc.prems by (intro insert_column) linarith+
  moreover have "dstep\<^sup>*\<^sup>* (?ds, [Inserting r d t (Suc c)])
      (fold (\<lambda>col. on_column col (insert_cell r t (d ! col))) [Suc c..<Suc c + n] ?ds,
       [Inserting r d t (Suc c + n)])"
    using Suc.prems by (intro Suc.IH) simp
  moreover have "[c..<c + Suc n] = c # [Suc c..<Suc c + n]" by (simp add: upt_conv_Cons del: upt_Suc)
  ultimately show ?case
    by (simp add: converse_rtranclp_into_rtranclp del: upt_Suc)
qed

lemma insert_alone: "dstep\<^sup>*\<^sup>* (ds, [InsertCall r d ts]) (Delta_Insert r d ts ds, [])"
proof -
  let ?n = "min (ds_num_columns ds) (length d)" and ?t = "stamp ts ds" and ?ds1 = "snd (next_timestamp ts ds)"
  let ?ds2 = "fold (\<lambda>col. on_column col (insert_cell r ?t (d ! col))) [0..<?n] ?ds1"
  have num: "ds_num_columns ?ds2 = ds_num_columns ds"
  proof -
    have "ds_num_columns (fold (\<lambda>col. on_column col (f col)) cs s) = ds_num_columns s" for f cs s
      by (induction cs arbitrary: s) simp_all
    then show ?thesis by simp
  qed
  have "next_timestamp ts ds = (?t, ?ds1)" by (simp add: prod_eq_iff)
  then have "dstep (ds, [] @ InsertCall r d ts # []) (?ds1, [] @ Inserting r d ?t 0 # [])"
    by (rule insert_start)
  moreover have "dstep\<^sup>*\<^sup>* (?ds1, [Inserting r d ?t 0]) (?ds2, [Inserting r d ?t ?n])"
    using insert_columns_alone [of 0 ?n ?ds1 d r ?t] by simp
  moreover have "dstep (?ds2, [] @ Inserting r d ?t ?n # []) (?ds2\<lparr>pending_rows := pending_rows ?ds2 + 1\<rparr>, [] @ [])"
    using num by (intro insert_done) simp
  moreover have "Delta_Insert r d ts ds = ?ds2\<lparr>pending_rows := pending_rows ?ds2 + 1\<rparr>"
    by (simp add: Delta_Insert_def split_beta Let_def)
  ultimately show ?thesis
    by (simp add: converse_rtranclp_into_rtranclp rtranclp.rtrancl_into_rtrancl)
qed

text \<open>Two concurrent inserts of one row can leave a row whose columns come from different calls.\<close>

lemma torn_row_reachable:
  "\<exists>ds'. dstep\<^sup>*\<^sup>* (DeltaStore_new 2 t, [InsertCall r [a, b] 1, InsertCall r [c, d] 2]) (ds', []) \<and>
     Delta_Get 0 r ds' = Some (c, 2) \<and> Delta_Get 1 r ds' = Some (b, 1)"
proof -
  let ?s0 = "DeltaStore_new 2 t"
  let ?I = "\<lambda>k n. Inserting r (if k = (1 :: nat) then [a, b] else [c, d]) (if k = 1 then 1 else 2) n"
  let ?s1 = "on_column 0 (insert_cell r 1 a) ?s0"
  let ?s2 = "on_column 0 (insert_cell r 2 c) ?s1"
  let ?s3 = "on_column 1 (insert_cell r 2 d) ?s2"
  let ?s4 = "on_column 1 (insert_cell r 1 b) ?s3"
  let ?s5 = "?s4\<lparr>pending_rows := pending_rows ?s4 + 1\<rparr>"
  have n: "ds_num_columns ?s0 = 2" by (simp add: DeltaStore_new_def)
  have nt: "next_timestamp 1 s = (1, s)" "next_timestamp 2 s = (2, s)" for s
    by (simp_all add: next_timestamp_def)
  have "dstep (?s0, [InsertCall r [a, b] 1, InsertCall r [c, d] 2]) (?s0, [?I 1 0, InsertCall r [c, d] 2])"
    using insert_start [OF nt(1), of ?s0 "[]"] by simp
  moreover have "dstep (?s0, [?I 1 0, InsertCall r [c, d] 2]) (?s0, [?I 1 0, ?I 2 0])"
    using insert_start [OF nt(2), of ?s0 "[?I 1 0]"] by simp
  moreover have "dstep (?s0, [?I 1 0, ?I 2 0]) (?s1, [?I 1 1, ?I 2 0])"
    using insert_column [of 0 ?s0 "[a, b]" "[]" r 1] n by simp
  moreover have "dstep (?s1, [?I 1 1, ?I 2 0]) (?s2, [?I 1 1, ?I 2 1])"
    using insert_column [of 0 ?s1 "[c, d]" "[?I 1 1]" r 2] n by simp
  moreover have "dstep (?s2, [?I 1 1, ?I 2 1]) (?s3, [?I 1 1, ?I 2 2])"
    using insert_column [of 1 ?s2 "[c, d]" "[?I 1 1]" r 2] n by (simp add: numeral_2_eq_2)
  moreover have "dstep (?s3, [?I 1 1, ?I 2 2]) (?s4, [?I 1 2, ?I 2 2])"
    using insert_column [of 1 ?s3 "[a, b]" "[]" r 1] n by (simp add: numeral_2_eq_2)
  moreover have "dstep (?s4, [?I 1 2, ?I 2 2]) (?s5, [?I 2 2])"
    using insert_done [of 2 ?s4 "[a, b]" "[]" r 1] n by simp
  moreover have "dstep (?s5, [?I 2 2]) (?s5\<lparr>pending_rows := pending_rows ?s5 + 1\<rparr>, [])"
    using insert_done [of 2 ?s5 "[c, d]" "[]" r 2] n by simp
  ultimately have "dstep\<^sup>*\<^sup>* (?s0, [InsertCall r [a, b] 1, InsertCall r [c, d] 2])
      (?s5\<lparr>pending_rows := pending_rows ?s5 + 1\<rparr>, [])"
    by (meson converse_rtranclp_into_rtranclp rtranclp.rtrancl_refl)
  moreover have "Delta_Get 0 r (?s5\<lparr>pending_rows := pending_rows ?s5 + 1\<rparr>) = Some (c, 2)"
    and "Delta_Get 1 r (?s5\<lparr>pending_rows := pending_rows ?s5 + 1\<rparr>) = Some (b, 1)"
    by (simp_all add: Delta_Get_def on_column_def DeltaStore_new_def ColumnDelta_empty_def
        insert_cell_def numeral_2_eq_2)
  ultimately show ?thesis by blast
qed

section \<open>Properties\<close>

text \<open>C25: reading after writing: an inserted row is read back with its data and timestamp unless a
  delete of the row is on record, a deleted row is not read back, and other rows are unaffected.\<close>

theorem delta_read_after_write:
  assumes "Delta_inv ds" and "col < ds_num_columns ds" and "col < length d"
  shows "Delta_Get col row (Delta_Insert r d ts ds) =
      (if row = r then (case om_find (deletes (ds_columns ds ! col)) r of
          None \<Rightarrow> Some (d ! col, stamp ts ds) | Some _ \<Rightarrow> None)
       else Delta_Get col row ds) \<and>
    Delta_Get col row (Delta_Delete r ts ds) = (if row = r then None else Delta_Get col row ds)"
  using Get_Insert [OF assms] Get_Delete [OF assms(1)] by simp

theorem delta_read_after_write_witness:
  "Delta_Get 1 7 (Delta_Insert 7 [[1], [2]] 0 (DeltaStore_new 2 10)) = Some ([2], 1)"
  using delta_read_after_write [of "DeltaStore_new 2 10" 1 "[[1], [2]]" 7 7 0]
  by (simp add: inv_DeltaStore_new, simp add: DeltaStore_new_def ColumnDelta_empty_def stamp_def)

text \<open>C26: a range read returns exactly the rows of the range whose insert is newer than any delete of
  the row, in ascending order of row id.\<close>

theorem delta_range_read:
  assumes "Delta_inv ds" and "col < ds_num_columns ds"
  shows "sorted_wrt (<) (map fst (Delta_GetRange col lo hi [] ds)) \<and>
    ((row, d) \<in> set (Delta_GetRange col lo hi [] ds) \<longleftrightarrow>
      lo \<le> row \<and> row < hi \<and> (\<exists>ts. om_find (inserts (ds_columns ds ! col)) row = Some (ts, d) \<and>
        (\<forall>t. om_find (deletes (ds_columns ds ! col)) row = Some t \<longrightarrow> t < ts)))"
  using GetRange_sorted [OF assms] GetRange_mem [OF assms] by simp

theorem delta_range_read_witness:
  "sorted_wrt (<) (map fst (Delta_GetRange 0 0 9 [] (Delta_Insert 3 [[1]] 0 (DeltaStore_new 1 10))))"
proof -
  let ?ds = "Delta_Insert 3 [[1]] 0 (DeltaStore_new 1 10)"
  have "Delta_inv ?ds" by (rule inv_Delta_Insert [OF inv_DeltaStore_new])
  moreover have "0 < ds_num_columns ?ds" by (simp add: Delta_Insert_columns(2) DeltaStore_new_def)
  ultimately show ?thesis using delta_range_read [of ?ds 0 0 9] by blast
qed

text \<open>After a delete, an insert of the same row with a newer timestamp is returned by a range read
  and not by a point read.\<close>

lemma delta_reinsert_divergence:
  fixes r :: u64
  assumes "t1 < t2" and "t1 \<noteq> 0" and "r < hi"
  shows "Delta_Get 0 r (Delta_Insert r [d] t2 (Delta_Delete r t1 (DeltaStore_new 1 n))) = None \<and>
    Delta_GetRange 0 r hi [] (Delta_Insert r [d] t2 (Delta_Delete r t1 (DeltaStore_new 1 n))) = [(r, d)]"
proof -
  have "t2 \<noteq> 0" using assms(1) by auto
  then show ?thesis
    using assms by (simp add: Delta_Get_def Delta_GetRange_def Delta_Insert_def Delta_Delete_def
        next_timestamp_def on_column_def DeltaStore_new_def ColumnDelta_empty_def insert_cell_def
        delete_cell_def om_range_def live_def)
qed

text \<open>in every state the manager can reach, the active store exists, there are at most two stores,
  and every store is well formed with the manager's number of columns.\<close>

lemma manager_invariant:
  assumes "manager_reachable n t m"
  shows "active_store m < length (dm_stores m) \<and> length (dm_stores m) \<le> 2 \<and>
    (\<forall>ds \<in> set (dm_stores m). Delta_inv ds \<and> ds_num_columns ds = dm_num_columns m)"
  using reachable_Manager_inv [OF assms] by (simp add: Manager_inv_def)

text \<open>C24: asking for a store to flush, once the active store has reached its threshold, always hands
  out that store marked as flushing and moves the writers to a different one.\<close>

theorem manager_flush_rotates:
  assumes "manager_reachable n t m" and "Delta_ShouldFlush (dm_stores m ! active_store m)"
  shows "\<exists>m'. Manager_GetStoreForFlush m = Inr (Some (active_store m), m') \<and>
    active_store m' \<noteq> active_store m \<and> active_store m' < length (dm_stores m') \<and>
    dm_stores m' ! active_store m = Delta_BeginFlush (dm_stores m ! active_store m)"
proof -
  note inv = reachable_Manager_inv [OF assms(1)]
  obtain m' where "Manager_GetStoreForFlush m = Inr (Some (active_store m), m')"
    "active_store m' \<noteq> active_store m"
    "dm_stores m' ! active_store m = Delta_BeginFlush (dm_stores m ! active_store m)"
    using GetStoreForFlush_some [OF inv assms(2)] by blast
  moreover from this have "Manager_inv m'" using GetStoreForFlush_inv [OF inv] by blast
  ultimately show ?thesis by (auto simp: Manager_inv_def)
qed

theorem manager_flush_rotates_witness:
  "\<exists>m'. Manager_GetStoreForFlush (Manager_new 2 0) = Inr (Some 0, m') \<and> active_store m' \<noteq> 0"
proof -
  have "Delta_ShouldFlush (dm_stores (Manager_new 2 0) ! active_store (Manager_new 2 0))"
    by (simp add: Delta_ShouldFlush_def Manager_new_def DeltaStore_new_def)
  from manager_flush_rotates [OF mr_new this] show ?thesis by (auto simp: Manager_new_def)
qed

text \<open>Compaction clears a store that is not flushing and has no pending rows; a store that holds
  only deletes has none, so its deletes are lost.\<close>

lemma compaction_loses_deletes:
  "\<exists>m m'. on_current (Delta_Delete r 1) (Manager_new 1 t) = Inr m \<and>
    om_find (deletes (ds_columns (dm_stores m ! 0) ! 0)) r = Some 1 \<and>
    m' = Manager_CompactStores m \<and> om_find (deletes (ds_columns (dm_stores m' ! 0) ! 0)) r = None"
  by (simp add: on_current_def upd_res_def Manager_new_def Manager_CompactStores_def Delta_Delete_def
      next_timestamp_def on_column_def DeltaStore_new_def delete_cell_def ColumnDelta_empty_def
      Delta_PendingRows_def Delta_Clear_def)

text \<open>C23: under any interleaving of inserts and deletes by several threads the store stays well formed,
  and when all of them have finished the pending-row counter has grown by the number of inserts.\<close>

theorem delta_interleaving_safe:
  assumes "dstep\<^sup>*\<^sup>* (ds, tasks) (ds', [])" and "Delta_inv ds"
  shows "Delta_inv ds' \<and> pending_rows ds' = pending_rows ds + of_nat (length (filter is_insert tasks))"
  using inv_dsteps [OF assms(1)] assms(2) pending_dsteps [OF assms(1)] by (simp add: pending_total_def)

theorem delta_interleaving_safe_witness:
  "Delta_inv (Delta_Insert 1 [[4]] 0 (DeltaStore_new 1 10)) \<and>
    pending_rows (Delta_Insert 1 [[4]] 0 (DeltaStore_new 1 10)) = 1"
  using delta_interleaving_safe [OF insert_alone inv_DeltaStore_new, of 1 "[[4]]" 0 1 10]
  by (simp add: DeltaStore_new_def)

text \<open>the per-column locks do not make an insert atomic: two concurrent inserts of the same row can
  both finish and leave the row with one column from each.\<close>

lemma delta_torn_row:
  "\<exists>ds'. dstep\<^sup>*\<^sup>* (DeltaStore_new 2 t, [InsertCall r [a, b] 1, InsertCall r [c, d] 2]) (ds', []) \<and>
     Delta_Get 0 r ds' = Some (c, 2) \<and> Delta_Get 1 r ds' = Some (b, 1)"
  by (rule torn_row_reachable)

end
