(* ===== verification/Mergers.thy ===== *)
theory Mergers
  imports Segments DeltaStores "HOL-Library.Multiset"
begin

text \<open>
  \<^verbatim>\<open>include/columnar/merger.h\<close>: merging the values of one column from segments and the delta store in
  timestamp order, merging whole segments into a new one, and the pool of worker threads that runs
  merges from a queue. A merge task names its output by a flag that says whether the file can be
  created. The statistics \<^verbatim>\<open>ExecuteMerge\<close> computes and never uses, and the timing of the last merge,
  are left out.
\<close>

section \<open>Merging a column\<close>

record MergeTask =
  mt_input_segments :: "Segment list"
  mt_delta_store :: "DeltaStore option"
  mt_opened :: bool
  mt_min_timestamp :: u64
  mt_max_timestamp :: u64

record ColumnMerger =
  cmg_type :: DataType
  cmg_encoding :: EncodingType
  cmg_index :: nat

definition ColumnMerger_new :: "DataType \<Rightarrow> EncodingType \<Rightarrow> ColumnMerger" where
  "ColumnMerger_new type encoding = \<lparr>cmg_type = type, cmg_encoding = encoding, cmg_index = 0\<rparr>"

definition ColumnMerger_SetColumnIndex :: "nat \<Rightarrow> ColumnMerger \<Rightarrow> ColumnMerger" where
  "ColumnMerger_SetColumnIndex idx cm = cm\<lparr>cmg_index := idx\<rparr>"

text \<open>The values of the segments, each with the creation time of its segment.\<close>

definition merge_segment ::
  "nat \<Rightarrow> Segment \<Rightarrow> 'a::len word list \<times> u64 list \<times> Segment list \<Rightarrow> ('a word list \<times> u64 list \<times> Segment list) res" where
  "merge_segment idx seg acc = (case acc of (vals, tss, segs) \<Rightarrow>
     (let n = unat (Segment_NumRows seg)
      in bind_res (Segment_GetColumnData idx 0 n seg) (\<lambda>(bs, seg').
         if length bs = n * sizeof TYPE('a)
         then bind_res (read_array bs n) (\<lambda>col_data.
                Inr (vals @ col_data, tss @ replicate n (sh_created_ts (sg_header seg)), segs @ [seg']))
         else Inl Unmodelled)))"

text \<open>A cell of the delta store, copied over a zero value.\<close>

definition delta_value :: "byte list \<Rightarrow> 'a::len word" where
  "delta_value data = word_of_bytes (take (sizeof TYPE('a)) data)"

definition merge_delta ::
  "nat \<Rightarrow> DeltaStore option \<Rightarrow> 'a::len word list \<times> u64 list \<Rightarrow> 'a word list \<times> u64 list" where
  "merge_delta idx delta acc =
     (case delta of
        None \<Rightarrow> acc
      | Some ds \<Rightarrow> Delta_VisitInserts idx (\<lambda>row_id ts data (vals, tss). (vals @ [delta_value data], tss @ [ts])) ds acc)"

text \<open>\<^verbatim>\<open>std::stable_sort\<close> of the indices by timestamp.\<close>

definition merge_order :: "u64 list \<Rightarrow> nat list" where
  "merge_order tss = sort_key (\<lambda>i. tss ! i) [0..<length tss]"

definition merge_stats :: "'v Numeric \<Rightarrow> DataType \<Rightarrow> 'v list \<Rightarrow> ColumnStats \<Rightarrow> ColumnStats res" where
  "merge_stats N type vals st0 =
     (let st = st0\<lparr>cs_type := type, total_count := of_nat (length vals), null_count := 0\<rparr>
      in case vals of
           [] \<Rightarrow> Inr st
         | v0 # rest \<Rightarrow> bind_res (num_int N v0) (\<lambda>first.
             fold_res (\<lambda>x st. bind_res (num_int N x) (\<lambda>v.
                 let st1 = (if v <s min_int st then st\<lparr>min_int := v\<rparr> else st)
                 in Inr (if max_int st1 <s v then st1\<lparr>max_int := v\<rparr> else st1))) rest
               (st\<lparr>has_min_max := True, min_int := first, max_int := first\<rparr>)))"

text \<open>The column is encoded plainly, whatever the encoding of the merger; \<open>T\<close> is the template argument
  and \<open>N\<close> the arithmetic of its value type.\<close>

definition MergeColumn ::
  "'a::len word Numeric \<Rightarrow> DataType \<Rightarrow> Segment list \<Rightarrow> DeltaStore option \<Rightarrow> ColumnStats \<Rightarrow> ColumnMerger \<Rightarrow>
   (byte list \<times> ColumnStats \<times> Segment list) res" where
  "MergeColumn N T segments delta out_stats cm =
     bind_res (fold_res (merge_segment (cmg_index cm)) segments ([], [], [])) (\<lambda>(vals0, tss0, segs).
       (let (vals, tss) = merge_delta (cmg_index cm) delta (vals0 :: 'a word list, tss0);
            sorted_values = map (\<lambda>i. vals ! i) (merge_order tss)
        in bind_res (of_modelled (Encoder_Encode (PlainEncoder T) (bytes_of_array sorted_values)
               (length sorted_values) Buffer_empty)) (\<lambda>buffer.
           bind_res (merge_stats N (cmg_type cm) sorted_values out_stats) (\<lambda>stats.
             Inr (contents buffer, stats, segs)))))"

section \<open>Merging segments\<close>

definition gather_column :: "nat \<Rightarrow> DataType \<Rightarrow> Segment list \<Rightarrow> (byte list \<times> Segment list) res" where
  "gather_column col type segments =
     fold_res (\<lambda>seg (all_data, segs).
         (let n = unat (Segment_NumRows seg)
          in bind_res (Segment_GetColumnData col 0 n seg) (\<lambda>(bs, seg').
             if length bs = n * TypeSize type then Inr (all_data @ bs, segs @ [seg']) else Inl Unmodelled)))
       segments ([], [])"

fun write_column :: "DataType \<Rightarrow> EncodingType \<Rightarrow> byte list \<Rightarrow> SegmentWriter \<Rightarrow> SegmentWriter res" where
  "write_column Int32 encoding all_data w =
     (let count = length all_data div 4
      in bind_res (read_array all_data count) (\<lambda>values. AddColumn_Int32 values (replicate count False) encoding w))"
| "write_column Int64 encoding all_data w =
     (let count = length all_data div 8
      in bind_res (read_array all_data count) (\<lambda>values. AddColumn_Int64 values (replicate count False) encoding w))"
| "write_column Float encoding all_data w =
     (let count = length all_data div 4
      in bind_res (read_array all_data count) (\<lambda>values. AddColumn_Float values (replicate count False) encoding w))"
| "write_column Double encoding all_data w =
     (let count = length all_data div 8
      in bind_res (read_array all_data count) (\<lambda>values. AddColumn_Double values (replicate count False) encoding w))"
| "write_column _ encoding all_data w = Inr w"

text \<open>One column of the merge, over the input segments and the writer. The type and the encoding are
  those of the first segment.\<close>

definition merge_column_step :: "nat \<Rightarrow> Segment list \<times> SegmentWriter \<Rightarrow> (Segment list \<times> SegmentWriter) res" where
  "merge_column_step col acc = (case acc of (segs, w) \<Rightarrow>
     bind_res (nth_res segs 0) (\<lambda>first.
     bind_res (Segment_ColumnType first col) (\<lambda>type.
     bind_res (Segment_ColumnEncoding first col) (\<lambda>encoding.
     bind_res (gather_column col type segs) (\<lambda>(all_data, segs').
     bind_res (write_column type encoding all_data w) (\<lambda>w'. Inr (segs', w')))))))"

definition ExecuteMerge :: "MergeTask \<Rightarrow> Segment res" where
  "ExecuteMerge task =
     (case mt_input_segments task of
        [] \<Rightarrow> bind_res (SegmentWriter_new (mt_opened task)) (\<lambda>w.
                Finish_segment (Writer_SetTimestamp (mt_max_timestamp task) w))
      | [s] \<Rightarrow> Inr s
      | first # rest \<Rightarrow>
          bind_res (SegmentWriter_new (mt_opened task)) (\<lambda>w.
          bind_res (fold_res merge_column_step [0..<unat (Segment_NumColumns first)]
              (first # rest, Writer_SetTimestamp (mt_max_timestamp task) w)) (\<lambda>(segs, w').
          Finish_segment w')))"

section \<open>The worker pool\<close>

text \<open>Where a worker thread is: before the test of the stop flag; before taking the queue's mutex; holding
  the mutex, with the wait condition found false, about to sleep; asleep on the condition variable,
  which released the mutex; executing a task; gone.\<close>

datatype worker = WLoop | WLock | WHolding | WBlocked | WExecuting MergeTask | WExited

text \<open>\<open>mg_notify\<close> counts the clients between the push and \<^verbatim>\<open>notify_one\<close>, \<open>mg_notify_all\<close> says that the
  destructor is before \<^verbatim>\<open>notify_all\<close>. \<open>mg_submitted\<close> and \<open>mg_done\<close> are the history of submitted
  tasks and of fulfilled promises; \<open>mg_failed\<close> says that a merge threw, which ends the program.\<close>

record SegmentMerger =
  mg_workers :: "worker list"
  mg_queue :: "MergeTask list"
  mg_stop :: bool
  mg_notify :: nat
  mg_notify_all :: bool
  mg_submitted :: "MergeTask list"
  mg_done :: "(MergeTask \<times> Segment) list"
  mg_failed :: bool

definition SegmentMerger_new :: "nat \<Rightarrow> SegmentMerger" where
  "SegmentMerger_new num_threads =
     \<lparr>mg_workers = replicate num_threads WLoop, mg_queue = [], mg_stop = False, mg_notify = 0,
      mg_notify_all = False, mg_submitted = [], mg_done = [], mg_failed = False\<rparr>"

text \<open>The constructor also makes a merger for each column, which no merge uses.\<close>

definition SegmentMerger_columns :: "nat \<Rightarrow> DataType list \<Rightarrow> EncodingType list \<Rightarrow> ColumnMerger list res" where
  "SegmentMerger_columns num_columns types encodings =
     map_res (\<lambda>i. bind_res (nth_res types i) (\<lambda>t. bind_res (nth_res encodings i) (\<lambda>e.
       Inr (ColumnMerger_SetColumnIndex i (ColumnMerger_new t e))))) [0..<num_columns]"

definition locked :: "SegmentMerger \<Rightarrow> bool" where
  "locked mg \<longleftrightarrow> WHolding \<in> set (mg_workers mg)"

definition set_worker :: "nat \<Rightarrow> worker \<Rightarrow> SegmentMerger \<Rightarrow> SegmentMerger" where
  "set_worker i pc mg = mg\<lparr>mg_workers := (mg_workers mg)[i := pc]\<rparr>"

text \<open>Pushing under the mutex, and the notification after it is released.\<close>

definition SubmitMerge :: "MergeTask \<Rightarrow> SegmentMerger \<Rightarrow> SegmentMerger" where
  "SubmitMerge task mg =
     mg\<lparr>mg_queue := mg_queue mg @ [task], mg_submitted := mg_submitted mg @ [task], mg_notify := mg_notify mg + 1\<rparr>"

definition notify_one :: "nat option \<Rightarrow> SegmentMerger \<Rightarrow> SegmentMerger" where
  "notify_one woken mg =
     (let mg' = mg\<lparr>mg_notify := mg_notify mg - 1\<rparr>
      in case woken of None \<Rightarrow> mg' | Some i \<Rightarrow> set_worker i WLock mg')"

text \<open>The destructor sets the flag without the mutex, then notifies.\<close>

definition SegmentMerger_stop :: "SegmentMerger \<Rightarrow> SegmentMerger" where
  "SegmentMerger_stop mg = mg\<lparr>mg_stop := True, mg_notify_all := True\<rparr>"

definition wake :: "worker \<Rightarrow> worker" where
  "wake pc = (if pc = WBlocked then WLock else pc)"

definition notify_all :: "SegmentMerger \<Rightarrow> SegmentMerger" where
  "notify_all mg = mg\<lparr>mg_workers := map wake (mg_workers mg), mg_notify_all := False\<rparr>"

text \<open>One step of worker \<open>i\<close> in \<^verbatim>\<open>WorkerLoop\<close>, or \<open>None\<close> when it waits for the mutex, sleeps or is gone.\<close>

definition worker_step :: "nat \<Rightarrow> SegmentMerger \<Rightarrow> SegmentMerger option" where
  "worker_step i mg =
     (if mg_failed mg \<or> i \<ge> length (mg_workers mg) then None
      else case mg_workers mg ! i of
        WLoop \<Rightarrow> Some (set_worker i (if mg_stop mg then WExited else WLock) mg)
      | WLock \<Rightarrow> if locked mg then None
          else (case mg_queue mg of
            [] \<Rightarrow> Some (set_worker i (if mg_stop mg then WExited else WHolding) mg)
          | t # q \<Rightarrow> Some (set_worker i (WExecuting t) (mg\<lparr>mg_queue := q\<rparr>)))
      | WHolding \<Rightarrow> Some (set_worker i WBlocked mg)
      | WExecuting t \<Rightarrow> (case ExecuteMerge t of
            Inl e \<Rightarrow> Some (mg\<lparr>mg_failed := True\<rparr>)
          | Inr s \<Rightarrow> Some (set_worker i WLoop (mg\<lparr>mg_done := mg_done mg @ [(t, s)]\<rparr>)))
      | _ \<Rightarrow> None)"

text \<open>The steps that the pool takes on its own: workers, and notifications under way. \<^verbatim>\<open>notify_one\<close> wakes
  some sleeping worker when there is one.\<close>

inductive pool_step :: "SegmentMerger \<Rightarrow> SegmentMerger \<Rightarrow> bool" where
  Work: "worker_step i mg = Some mg' \<Longrightarrow> pool_step mg mg'"
| Notify_one: "\<not> mg_failed mg \<Longrightarrow> 0 < mg_notify mg \<Longrightarrow> i < length (mg_workers mg) \<Longrightarrow>
    mg_workers mg ! i = WBlocked \<Longrightarrow> pool_step mg (notify_one (Some i) mg)"
| Notify_none: "\<not> mg_failed mg \<Longrightarrow> 0 < mg_notify mg \<Longrightarrow> WBlocked \<notin> set (mg_workers mg) \<Longrightarrow>
    pool_step mg (notify_one None mg)"
| Notify_all: "\<not> mg_failed mg \<Longrightarrow> mg_notify_all mg \<Longrightarrow> pool_step mg (notify_all mg)"

text \<open>With the clients: a push waits for the mutex; the destructor does not overlap a submission; a
  sleeping worker may wake for no reason.\<close>

inductive merger_step :: "SegmentMerger \<Rightarrow> SegmentMerger \<Rightarrow> bool" where
  Submit: "\<not> mg_failed mg \<Longrightarrow> \<not> mg_stop mg \<Longrightarrow> \<not> locked mg \<Longrightarrow> merger_step mg (SubmitMerge task mg)"
| Stop: "\<not> mg_failed mg \<Longrightarrow> \<not> mg_stop mg \<Longrightarrow> mg_notify mg = 0 \<Longrightarrow> merger_step mg (SegmentMerger_stop mg)"
| Spurious: "\<not> mg_failed mg \<Longrightarrow> i < length (mg_workers mg) \<Longrightarrow> mg_workers mg ! i = WBlocked \<Longrightarrow>
    merger_step mg (set_worker i WLock mg)"
| Pool: "pool_step mg mg' \<Longrightarrow> merger_step mg mg'"

definition merger_reachable :: "nat \<Rightarrow> SegmentMerger \<Rightarrow> bool" where
  "merger_reachable n mg \<longleftrightarrow> merger_step\<^sup>*\<^sup>* (SegmentMerger_new n) mg"

inductive_cases pool_stepE: "pool_step mg mg'"
inductive_cases merger_stepE: "merger_step mg mg'"

text \<open>The background merger keeps a pool and a flag; its own thread only sleeps. Assigning a new thread over one that
  is still joinable ends the program, here \<open>None\<close>.\<close>

record BackgroundMerger =
  bg_merger :: SegmentMerger
  bg_running :: bool
  bg_joinable :: bool

definition BackgroundMerger_new :: "nat \<Rightarrow> BackgroundMerger" where
  "BackgroundMerger_new threads = \<lparr>bg_merger = SegmentMerger_new threads, bg_running = False, bg_joinable = False\<rparr>"

definition BackgroundMerger_Start :: "BackgroundMerger \<Rightarrow> BackgroundMerger option" where
  "BackgroundMerger_Start bg =
     (if bg_joinable bg then None else Some (bg\<lparr>bg_running := True, bg_joinable := True\<rparr>))"

definition BackgroundMerger_Stop :: "BackgroundMerger \<Rightarrow> BackgroundMerger" where
  "BackgroundMerger_Stop bg = bg\<lparr>bg_running := False, bg_joinable := False\<rparr>"

definition ScheduleMerge :: "MergeTask \<Rightarrow> BackgroundMerger \<Rightarrow> BackgroundMerger" where
  "ScheduleMerge task bg = bg\<lparr>bg_merger := SubmitMerge task (bg_merger bg)\<rparr>"

section \<open>Merged columns\<close>

text \<open>Sorting indices by a key is sorting the elements.\<close>

lemma sort_key_map: "sort_key f (map g xs) = map g (sort_key (f \<circ> g) xs)"
proof (induction xs)
  case (Cons x xs)
  have "insort_key f (g x) (map g ys) = map g (insort_key (f \<circ> g) x ys)" for ys
    by (induction ys) simp_all
  with Cons show ?case by (simp add: comp_def)
qed simp

lemma merge_order_sorts:
  assumes "length vals = length tss"
  shows "map (\<lambda>i. vals ! i) (merge_order tss) = map fst (sort_key snd (zip vals tss))"
proof -
  have "zip vals tss = map (\<lambda>i. (vals ! i, tss ! i)) [0..<length tss]"
    using assms by (intro nth_equalityI) simp_all
  then have "sort_key snd (zip vals tss) = map (\<lambda>i. (vals ! i, tss ! i)) (merge_order tss)"
    by (simp add: sort_key_map merge_order_def comp_def)
  then show ?thesis by (simp add: comp_def)
qed

text \<open>The values a segment delivers for a column, and the dated values of the inputs.\<close>

definition column_data :: "nat \<Rightarrow> Segment \<Rightarrow> 'a::len word list \<Rightarrow> bool" where
  "column_data idx seg xs \<longleftrightarrow> unat (Segment_NumRows seg) = length xs \<and>
     (\<exists>seg'. Segment_GetColumnData idx 0 (length xs) seg = Inr (bytes_of_array xs, seg'))"

definition dated_values :: "Segment list \<Rightarrow> 'a::len word list list \<Rightarrow> ('a word \<times> u64) list" where
  "dated_values segments xss =
     concat (map2 (\<lambda>seg xs. map (\<lambda>x. (x, sh_created_ts (sg_header seg))) xs) segments xss)"

definition dated_inserts :: "nat \<Rightarrow> DeltaStore option \<Rightarrow> ('a::len word \<times> u64) list" where
  "dated_inserts idx delta =
     (case delta of
        None \<Rightarrow> []
      | Some ds \<Rightarrow> if idx < ds_num_columns ds
                  then map (\<lambda>(k, (ts, d)). (delta_value d, ts)) (inserts (ds_columns ds ! idx)) else [])"

lemma merge_segments_values:
  fixes xss :: "'a::len word list list"
  assumes "8 dvd LENGTH('a)" and "list_all2 (column_data idx) segments xss" and "length vals = length tss"
  shows "\<exists>vals' tss' segs'. fold_res (merge_segment idx) segments (vals, tss, segs) = Inr (vals', tss', segs') \<and>
    zip vals' tss' = zip vals tss @ dated_values segments xss \<and> length vals' = length tss'"
  using assms(2,3)
proof (induction segments xss arbitrary: vals tss segs rule: list_all2_induct)
  case Nil
  then show ?case by (simp add: dated_values_def)
next
  case (Cons seg segments xs xss)
  obtain seg' where seg': "unat (Segment_NumRows seg) = length xs"
    "Segment_GetColumnData idx 0 (length xs) seg = Inr (bytes_of_array xs, seg')"
    using Cons.hyps(1) unfolding column_data_def by blast
  let ?tss = "replicate (length xs) (sh_created_ts (sg_header seg))"
  have "merge_segment idx seg (vals, tss, segs) = Inr (vals @ xs, tss @ ?tss, segs @ [seg'])"
    using read_array_bytes [OF assms(1), of xs "[]"] by (simp add: merge_segment_def seg' Let_def)
  moreover have "zip (vals @ xs) (tss @ ?tss) =
      zip vals tss @ map (\<lambda>x. (x, sh_created_ts (sg_header seg))) xs"
    using Cons.prems by (simp add: zip_replicate2)
  ultimately show ?case
    using Cons.IH [of "vals @ xs" "tss @ ?tss" "segs @ [seg']"] Cons.prems by (simp add: dated_values_def)
qed

lemma merge_delta_values:
  assumes "merge_delta idx delta (vals, tss) = (vals', tss')" and "length vals = length tss"
  shows "zip vals' tss' = zip vals tss @ dated_inserts idx delta \<and> length vals' = length tss'"
proof -
  let ?visit = "\<lambda>(k :: u64, ts, d). \<lambda>(vals, tss). (vals @ [delta_value d], tss @ [ts])"
  have "fold ?visit es (vals, tss) = (vals', tss') \<Longrightarrow> length vals = length tss \<Longrightarrow>
      zip vals' tss' = zip vals tss @ map (\<lambda>(k, (ts, d)). (delta_value d, ts)) es \<and> length vals' = length tss'"
    for es vals tss by (induction es arbitrary: vals tss) auto
  with assms show ?thesis
    by (auto simp: merge_delta_def Delta_VisitInserts_def dated_inserts_def split_def split: option.splits if_splits)
qed

text \<open>The bounds of the statistics.\<close>

lemma merge_stats_int:
  fixes vals :: "'a::len word list"
  assumes "LENGTH('a) \<le> 64"
  shows "\<exists>st'. merge_stats int_numeric type vals st = Inr st' \<and> cs_type st' = type \<and>
    total_count st' = of_nat (length vals) \<and> null_count st' = 0 \<and>
    (vals \<noteq> [] \<longrightarrow> has_min_max st' \<and> sint (min_int st') = Min (sint ` set vals) \<and>
       sint (max_int st') = Max (sint ` set vals))"
proof (cases vals)
  case Nil
  then show ?thesis by (simp add: merge_stats_def)
next
  case (Cons v0 rest)
  let ?upd = "\<lambda>x st. bind_res (num_int int_numeric x) (\<lambda>v.
     let st1 = (if v <s min_int st then st\<lparr>min_int := v\<rparr> else st)
     in Inr (if max_int st1 <s v then st1\<lparr>max_int := v\<rparr> else st1))"
  have s: "sint (scast x :: u64) = sint x" for x :: "'a word" using assms by (intro sint_scast) simp
  have "\<exists>st'. fold_res ?upd xs st = Inr st' \<and> cs_type st' = cs_type st \<and> total_count st' = total_count st \<and>
      null_count st' = null_count st \<and> has_min_max st' = has_min_max st \<and>
      sint (min_int st') = Min (insert (sint (min_int st)) (sint ` set xs)) \<and>
      sint (max_int st') = Max (insert (sint (max_int st)) (sint ` set xs))" for xs :: "'a word list" and st
  proof (induction xs arbitrary: st)
    case (Cons x xs)
    have "\<exists>st1. ?upd x st = Inr st1 \<and> cs_type st1 = cs_type st \<and> total_count st1 = total_count st \<and>
      null_count st1 = null_count st \<and> has_min_max st1 = has_min_max st \<and>
      sint (min_int st1) = min (sint (min_int st)) (sint x) \<and> sint (max_int st1) = max (sint (max_int st)) (sint x)"
      by (simp add: int_numeric_def word_sless_alt s Let_def)
    then obtain st1 where st1: "?upd x st = Inr st1" "cs_type st1 = cs_type st" "total_count st1 = total_count st"
      "null_count st1 = null_count st" "has_min_max st1 = has_min_max st"
      "sint (min_int st1) = min (sint (min_int st)) (sint x)" "sint (max_int st1) = max (sint (max_int st)) (sint x)"
      by blast
    have "Min (insert (sint (min_int st)) (sint ` set (x # xs))) = Min (insert (sint (min_int st1)) (sint ` set xs))"
      "Max (insert (sint (max_int st)) (sint ` set (x # xs))) = Max (insert (sint (max_int st1)) (sint ` set xs))"
      by (cases "xs = []"; simp add: st1(6,7) min.assoc max.assoc)+
    then show ?case using Cons.IH [of st1] st1 by (auto simp del: set_simps)
  qed simp
  from this [of rest "st\<lparr>cs_type := type, total_count := of_nat (length vals), null_count := 0,
      has_min_max := True, min_int := scast v0, max_int := scast v0\<rparr>"]
  show ?thesis by (auto simp: Cons merge_stats_def s int_numeric_def)
qed

text \<open>What the merger needs of a value type: the plain encoder stores its arrays as they are, and every
  value has an integer.\<close>

locale mergeable =
  fixes N :: "'a::len word Numeric" and T :: DataType
  assumes width: "8 dvd LENGTH('a)" "LENGTH('a) \<le> 64"
    and plain: "\<exists>b. Encoder_Encode (PlainEncoder T) (bytes_of_array (xs :: 'a word list)) (length xs) Buffer_empty =
      Some (Inr b) \<and> contents b = bytes_of_array xs"
    and integer: "N = int_numeric"
begin

lemma MergeColumn_sorts:
  fixes xss :: "'a word list list" and delta :: "DeltaStore option"
  assumes "list_all2 (column_data (cmg_index cm)) segments xss"
  defines "vals \<equiv> map fst (sort_key snd (dated_values segments xss @ dated_inserts (cmg_index cm) delta))"
  shows "\<exists>st' segs. MergeColumn N T segments delta st cm = Inr (bytes_of_array vals, st', segs) \<and>
    cs_type st' = cmg_type cm \<and> total_count st' = of_nat (length vals) \<and> null_count st' = 0 \<and>
    (vals \<noteq> [] \<longrightarrow> has_min_max st' \<and> sint (min_int st') = Min (sint ` set vals) \<and>
       sint (max_int st') = Max (sint ` set vals))"
proof -
  obtain vals1 tss1 segs where s: "fold_res (merge_segment (cmg_index cm)) segments ([], [], []) = Inr (vals1, tss1, segs)"
    "zip vals1 tss1 = dated_values segments xss" "length vals1 = length tss1"
    using merge_segments_values [OF width(1) assms(1), of "[]" "[]" "[]"] by auto
  obtain vals2 tss2 where d: "merge_delta (cmg_index cm) delta (vals1, tss1) = (vals2, tss2)" by fastforce
  have z: "zip vals2 tss2 = dated_values segments xss @ dated_inserts (cmg_index cm) delta" "length vals2 = length tss2"
    using merge_delta_values [OF d s(3)] s(2) by simp_all
  have v: "map (\<lambda>i. vals2 ! i) (merge_order tss2) = vals"
    unfolding vals_def z(1) [symmetric] by (rule merge_order_sorts [OF z(2)])
  obtain b where b: "Encoder_Encode (PlainEncoder T) (bytes_of_array vals) (length vals) Buffer_empty = Some (Inr b)"
    "contents b = bytes_of_array vals" using plain [of vals] by blast
  have len: "length (merge_order tss2) = length vals" using arg_cong [OF v, of length] by simp
  have m: "MergeColumn N T segments delta st cm =
      bind_res (merge_stats N (cmg_type cm) vals st) (\<lambda>stats. Inr (bytes_of_array vals, stats, segs))"
    by (simp add: MergeColumn_def s(1) d v len b of_modelled_def)
  obtain st' where "merge_stats N (cmg_type cm) vals st = Inr st'" "cs_type st' = cmg_type cm"
    "total_count st' = of_nat (length vals)" "null_count st' = 0"
    "vals \<noteq> [] \<longrightarrow> has_min_max st' \<and> sint (min_int st') = Min (sint ` set vals) \<and>
       sint (max_int st') = Max (sint ` set vals)"
    using merge_stats_int [OF width(2), of "cmg_type cm" vals st] unfolding integer by blast
  then show ?thesis unfolding m by simp
qed

end

interpretation merge32: mergeable "int_numeric :: 32 word Numeric" Int32
proof unfold_locales
  show "\<exists>b. Encoder_Encode (PlainEncoder Int32) (bytes_of_array xs) (length xs) Buffer_empty = Some (Inr b) \<and>
      contents b = bytes_of_array xs" for xs :: "32 word list"
    using factory_encode32 [of Plain xs Buffer_empty] by (auto simp: IsNumeric_def IsInteger_def)
qed simp_all

interpretation merge64: mergeable "int_numeric :: 64 word Numeric" Int64
proof unfold_locales
  show "\<exists>b. Encoder_Encode (PlainEncoder Int64) (bytes_of_array xs) (length xs) Buffer_empty = Some (Inr b) \<and>
      contents b = bytes_of_array xs" for xs :: "64 word list"
    using factory_encode64 [of Plain xs Buffer_empty] by (auto simp: IsNumeric_def IsInteger_def)
qed simp_all

section \<open>Merged segments\<close>

text \<open>A segment that holds a table: every column is served and has as many values as there are rows.\<close>

definition holds_table :: "Segment \<Rightarrow> ColumnSpec list \<Rightarrow> bool" where
  "holds_table s cs \<longleftrightarrow> segment_serves s cs \<and> unat (Segment_NumColumns s) = length cs \<and>
     (\<forall>c \<in> set cs. spec_ok c \<and> spec_rows c = unat (Segment_NumRows s))"

fun spec_append :: "ColumnSpec \<Rightarrow> ColumnSpec \<Rightarrow> ColumnSpec" where
  "spec_append (Spec32 e xs) (Spec32 _ ys) = Spec32 e (xs @ ys)"
| "spec_append (Spec64 e xs) (Spec64 _ ys) = Spec64 e (xs @ ys)"
| "spec_append c _ = c"

text \<open>The reference: the tables one after the other, column by column, with the encodings of the first.\<close>

definition append_tables :: "ColumnSpec list \<Rightarrow> ColumnSpec list list \<Rightarrow> ColumnSpec list" where
  "append_tables first rest =
     map (\<lambda>i. foldl spec_append (first ! i) (map (\<lambda>cs. cs ! i) rest)) [0..<length first]"

definition spec_data :: "ColumnSpec \<Rightarrow> byte list" where
  "spec_data c = spec_bytes c 0 (spec_rows c)"

lemma spec_append_facts:
  assumes "spec_type d = spec_type c"
  shows "spec_type (spec_append c d) = spec_type c" "spec_encoding (spec_append c d) = spec_encoding c"
    "spec_rows (spec_append c d) = spec_rows c + spec_rows d" "spec_data (spec_append c d) = spec_data c @ spec_data d"
  using assms by (cases c; cases d; simp add: spec_data_def)+

lemma foldl_spec_append:
  assumes "\<forall>d \<in> set ds. spec_type d = spec_type c"
  shows "spec_type (foldl spec_append c ds) = spec_type c \<and>
    spec_encoding (foldl spec_append c ds) = spec_encoding c \<and>
    spec_rows (foldl spec_append c ds) = spec_rows c + sum_list (map spec_rows ds) \<and>
    spec_data (foldl spec_append c ds) = spec_data c @ concat (map spec_data ds)"
  using assms by (induction ds arbitrary: c) (simp_all add: spec_append_facts)

lemma holds_table_read:
  assumes "holds_table s cs" and "i < length cs"
  shows "\<exists>s'. Segment_GetColumnData i 0 (unat (Segment_NumRows s)) s = Inr (spec_data (cs ! i), s') \<and>
    holds_table s' cs \<and> Segment_NumRows s' = Segment_NumRows s"
proof -
  have c: "spec_ok (cs ! i)" "spec_rows (cs ! i) = unat (Segment_NumRows s)"
    using assms nth_mem [OF assms(2)] unfolding holds_table_def by blast+
  have "segment_serves s cs" using assms(1) unfolding holds_table_def by blast
  from GetColumnData_serves [OF this assms(2) c(1), of 0 "spec_rows (cs ! i)"] obtain s' where
    s': "Segment_GetColumnData i 0 (spec_rows (cs ! i)) s = Inr (spec_data (cs ! i), s')"
    "segment_serves s' cs" "sg_header s' = sg_header s" by (auto simp: spec_data_def)
  moreover have "holds_table s' cs"
    using assms(1) s'(2,3) by (simp add: holds_table_def Segment_NumRows_def Segment_NumColumns_def)
  ultimately show ?thesis using c(2) by (simp add: Segment_NumRows_def)
qed

lemma length_spec_data: "length (spec_data c) = spec_rows c * TypeSize (spec_type c)"
  by (cases c) (simp_all add: spec_data_def)

lemma gather_column_tables:
  assumes "list_all2 holds_table segments css" and "\<forall>cs \<in> set css. i < length cs \<and> spec_type (cs ! i) = type"
  shows "\<exists>segs. gather_column i type segments = Inr (concat (map (\<lambda>cs. spec_data (cs ! i)) css), segs) \<and>
    list_all2 holds_table segs css"
proof -
  let ?step = "\<lambda>seg (all_data, segs). let n = unat (Segment_NumRows seg)
     in bind_res (Segment_GetColumnData i 0 n seg) (\<lambda>(bs, seg').
          if length bs = n * TypeSize type then Inr (all_data @ bs, segs @ [seg']) else Inl Unmodelled)"
  have "\<exists>segs. fold_res ?step segments (data, done) =
      Inr (data @ concat (map (\<lambda>cs. spec_data (cs ! i)) css), done @ segs) \<and> list_all2 holds_table segs css"
    for data "done"
    using assms
  proof (induction segments css arbitrary: data "done" rule: list_all2_induct)
    case (Cons s segments cs css)
    obtain s' where s': "Segment_GetColumnData i 0 (unat (Segment_NumRows s)) s = Inr (spec_data (cs ! i), s')"
      "holds_table s' cs" using holds_table_read [OF Cons.hyps(1), of i] Cons.prems by auto
    have "spec_rows (cs ! i) = unat (Segment_NumRows s)"
      using Cons.hyps(1) Cons.prems by (simp add: holds_table_def)
    then have "?step s (data, done) = Inr (data @ spec_data (cs ! i), done @ [s'])"
      using Cons.prems by (simp add: s' length_spec_data)
    then show ?case
      using Cons.IH [of "data @ spec_data (cs ! i)" "done @ [s']"] Cons.prems s'(2) by auto
  qed simp
  from this [of "[]" "[]"] show ?thesis by (simp add: gather_column_def)
qed

text \<open>Writing the bytes of a column is adding the column.\<close>

lemma write_column_spec:
  "write_column (spec_type c) (spec_encoding c) (spec_data c) w = add_spec c (replicate (spec_rows c) False) w"
  using read_array_bytes [where 'a = 32, of _ "[]"] read_array_bytes [where 'a = 64, of _ "[]"]
  by (cases c) (simp_all add: spec_data_def)

lemma append_tables_nth:
  assumes "\<forall>cs \<in> set rest. map spec_type cs = map spec_type first" and "i < length first"
  defines "c \<equiv> append_tables first rest ! i"
  shows "spec_type c = spec_type (first ! i)" "spec_encoding c = spec_encoding (first ! i)"
    "spec_rows c = spec_rows (first ! i) + sum_list (map (\<lambda>cs. spec_rows (cs ! i)) rest)"
    "spec_data c = concat (map (\<lambda>cs. spec_data (cs ! i)) (first # rest))"
    "\<forall>cs \<in> set (first # rest). i < length cs \<and> spec_type (cs ! i) = spec_type (first ! i)"
proof -
  have ty: "i < length cs \<and> spec_type (cs ! i) = spec_type (first ! i)" if "cs \<in> set rest" for cs
  proof -
    have eq: "map spec_type cs = map spec_type first" using assms(1) that by blast
    then have "length cs = length first" by (rule map_eq_imp_length_eq)
    then show ?thesis using arg_cong [OF eq, of "\<lambda>ts. ts ! i"] assms(2) by simp
  qed
  have c: "c = foldl spec_append (first ! i) (map (\<lambda>cs. cs ! i) rest)"
    using assms(2) by (simp add: c_def append_tables_def)
  from foldl_spec_append [of "map (\<lambda>cs. cs ! i) rest" "first ! i"] ty
  show "spec_type c = spec_type (first ! i)" "spec_encoding c = spec_encoding (first ! i)"
    "spec_rows c = spec_rows (first ! i) + sum_list (map (\<lambda>cs. spec_rows (cs ! i)) rest)"
    "spec_data c = concat (map (\<lambda>cs. spec_data (cs ! i)) (first # rest))"
    by (simp_all add: c comp_def)
  show "\<forall>cs \<in> set (first # rest). i < length cs \<and> spec_type (cs ! i) = spec_type (first ! i)"
    using ty assms(2) by simp
qed

lemma merge_column_step_adds:
  assumes "list_all2 holds_table segs (first # rest)" and "\<forall>cs \<in> set rest. map spec_type cs = map spec_type first"
    and i: "i < length first"
  defines "c \<equiv> append_tables first rest ! i"
  shows "\<exists>segs'. list_all2 holds_table segs' (first # rest) \<and>
    merge_column_step i (segs, w) = bind_res (add_spec c (replicate (spec_rows c) False) w) (\<lambda>w'. Inr (segs', w'))"
proof -
  note facts = append_tables_nth [OF assms(2) i, folded c_def]
  obtain s ss where segs: "segs = s # ss" "holds_table s first"
    using assms(1) by (auto simp: list_all2_Cons2)
  have "segment_serves s first" using segs(2) by (simp add: holds_table_def)
  then have h: "Segment_ColumnType s i = Inr (spec_type c)" "Segment_ColumnEncoding s i = Inr (spec_encoding c)"
    using i facts(1,2) by (simp_all add: Segment_ColumnType_def Segment_ColumnEncoding_def segment_serves_def nth_res_def)
  obtain segs' where g: "gather_column i (spec_type c) segs = Inr (spec_data c, segs')"
    "list_all2 holds_table segs' (first # rest)"
    using gather_column_tables [OF assms(1) facts(5)] facts(1,4) by auto
  moreover have "nth_res segs 0 = Inr s" by (simp add: segs(1) nth_res_def)
  ultimately show ?thesis by (auto simp: merge_column_step_def h write_column_spec)
qed

lemma merge_columns:
  assumes "list_all2 holds_table segs (first # rest)" and "\<forall>cs \<in> set rest. map spec_type cs = map spec_type first"
    and "writer_holds w []" and "\<forall>c \<in> set (append_tables first rest). spec_ok c" and "length first < 2 ^ 32"
    and "k \<le> length first"
  shows "\<exists>segs' w'. fold_res merge_column_step [0..<k] (segs, w) = Inr (segs', w') \<and>
    list_all2 holds_table segs' (first # rest) \<and> writer_holds w' (take k (append_tables first rest)) \<and>
    sw_zone_maps w' = sw_zone_maps w \<and> sw_bloom_filters w' = sw_bloom_filters w"
  using assms(6)
proof (induction k)
  case 0
  then show ?case using assms(1,3) by simp
next
  case (Suc k)
  let ?t = "append_tables first rest"
  let ?c = "?t ! k"
  obtain segs1 w1 where 1: "fold_res merge_column_step [0..<k] (segs, w) = Inr (segs1, w1)"
    "list_all2 holds_table segs1 (first # rest)" "writer_holds w1 (take k ?t)"
    "sw_zone_maps w1 = sw_zone_maps w" "sw_bloom_filters w1 = sw_bloom_filters w"
    using Suc by auto
  have k: "k < length ?t" using Suc.prems by (simp add: append_tables_def)
  obtain w2 where 2: "add_spec ?c (replicate (spec_rows ?c) False) w1 = Inr w2" "writer_holds w2 (take k ?t @ [?c])"
    using add_spec_holds [OF 1(3), of ?c "replicate (spec_rows ?c) False"] assms(4,5) k nth_mem [OF k]
      Suc.prems by auto
  have "sw_zone_maps w2 = sw_zone_maps w1 \<and> sw_bloom_filters w2 = sw_bloom_filters w1"
    using add_specs_indexes [of "[(?c, replicate (spec_rows ?c) False)]" w1 w2] 2(1) by simp
  moreover obtain segs2 where "merge_column_step k (segs1, w1) = Inr (segs2, w2)"
    "list_all2 holds_table segs2 (first # rest)"
    using merge_column_step_adds [OF 1(2) assms(2), of k w1] Suc.prems 2(1) by auto
  moreover have "writer_holds w2 (take (Suc k) ?t)" using 2(2) k by (simp add: take_Suc_conv_app_nth)
  ultimately show ?case using 1 by (simp add: fold_res_append)
qed

text \<open>The timestamp is no part of what a writer holds.\<close>

lemma SetTimestamp_holds:
  "writer_holds (Writer_SetTimestamp ts w) cs = writer_holds w cs"
  "sw_zone_maps (Writer_SetTimestamp ts w) = sw_zone_maps w"
  "sw_bloom_filters (Writer_SetTimestamp ts w) = sw_bloom_filters w"
  by (simp_all add: Writer_SetTimestamp_def writer_holds_def writer_ok_def data_block_def)

lemma Max_constant_rows:
  assumes "\<forall>c \<in> set cs. spec_rows c = n" and "cs \<noteq> []"
  shows "Max (insert 0 (spec_rows ` set cs)) = n"
proof -
  have "spec_rows ` set cs = {n}" using assms by (cases cs) auto
  then show ?thesis by simp
qed

text \<open>A finished writer without indexes holds the table it was given.\<close>

lemma Finish_segment_table:
  assumes "writer_holds w cs" and "sw_zone_maps w = []" and "sw_bloom_filters w = []"
    and "36 + length cs * 136 + sum_list (map (length \<circ> spec_block) cs) < 2 ^ 32"
  shows "\<exists>s. Finish_segment w = Inr s \<and> segment_serves s cs \<and> unat (Segment_NumColumns s) = length cs \<and>
    Segment_NumRows s = of_nat (Max (insert 0 (spec_rows ` set cs))) \<and> sh_created_ts (sg_header s) = sh_created_ts (sw_header w)"
proof -
  have ok: "writer_ok w" using assms(1) by (simp add: writer_holds_def)
  have lim: "length (file_of w) < 2 ^ 32" using file_size_specs [OF assms(1-3)] assms(4) by simp
  obtain s where s: "Segment_Open (Some (file_of w)) = Inr s" "sg_header s = header_copy (final_header w)"
    using open_segment [OF ok] by blast
  moreover have "segment_serves s cs" by (rule open_serves [OF assms(1) lim s(1)])
  ultimately show ?thesis
    using Finish_segment_open(1) [OF ok lim] assms(1)
    by (simp add: Segment_NumColumns_def Segment_NumRows_def header_copy_def final_header_def writer_holds_def writer_ok_def)
qed

section \<open>The pool's invariant\<close>

lemma set_worker_sel [simp]:
  "mg_workers (set_worker i pc mg) = (mg_workers mg)[i := pc]" "mg_queue (set_worker i pc mg) = mg_queue mg"
  "mg_stop (set_worker i pc mg) = mg_stop mg" "mg_notify (set_worker i pc mg) = mg_notify mg"
  "mg_notify_all (set_worker i pc mg) = mg_notify_all mg" "mg_submitted (set_worker i pc mg) = mg_submitted mg"
  "mg_done (set_worker i pc mg) = mg_done mg" "mg_failed (set_worker i pc mg) = mg_failed mg"
  by (simp_all add: set_worker_def)

lemma worker_step_cases:
  assumes "worker_step i mg = Some mg'"
  obtains (leave) "\<not> mg_failed mg" "i < length (mg_workers mg)" "mg_stop mg"
      "mg_workers mg ! i = WLoop \<or> mg_workers mg ! i = WLock \<and> \<not> locked mg \<and> mg_queue mg = []"
      "mg' = set_worker i WExited mg"
  | (loop) "\<not> mg_failed mg" "i < length (mg_workers mg)" "\<not> mg_stop mg" "mg_workers mg ! i = WLoop"
      "mg' = set_worker i WLock mg"
  | (hold) "\<not> mg_failed mg" "i < length (mg_workers mg)" "\<not> mg_stop mg" "mg_workers mg ! i = WLock" "\<not> locked mg"
      "mg_queue mg = []" "mg' = set_worker i WHolding mg"
  | (pop) t q where "\<not> mg_failed mg" "i < length (mg_workers mg)" "mg_workers mg ! i = WLock" "\<not> locked mg"
      "mg_queue mg = t # q" "mg' = set_worker i (WExecuting t) (mg\<lparr>mg_queue := q\<rparr>)"
  | (sleep) "\<not> mg_failed mg" "i < length (mg_workers mg)" "mg_workers mg ! i = WHolding"
      "mg' = set_worker i WBlocked mg"
  | (throw) t e where "\<not> mg_failed mg" "i < length (mg_workers mg)" "mg_workers mg ! i = WExecuting t"
      "ExecuteMerge t = Inl e" "mg' = mg\<lparr>mg_failed := True\<rparr>"
  | (finish) t s where "\<not> mg_failed mg" "i < length (mg_workers mg)" "mg_workers mg ! i = WExecuting t"
      "ExecuteMerge t = Inr s" "mg' = set_worker i WLoop (mg\<lparr>mg_done := mg_done mg @ [(t, s)]\<rparr>)"
  using assms unfolding worker_step_def
  by (cases "mg_stop mg"; auto split: if_splits worker.splits list.splits sum.splits)

text \<open>The tasks being executed.\<close>

fun running_task :: "worker \<Rightarrow> MergeTask list" where
  "running_task (WExecuting t) = [t]" | "running_task _ = []"

definition executing :: "SegmentMerger \<Rightarrow> MergeTask list" where
  "executing mg = concat (map running_task (mg_workers mg))"

lemma mset_running_update:
  "i < length ws \<Longrightarrow> mset (concat (map running_task (ws[i := w]))) + mset (running_task (ws ! i)) =
     mset (concat (map running_task ws)) + mset (running_task w)"
proof (induction ws arbitrary: i)
  case (Cons v ws)
  then show ?case by (cases i) (simp_all add: ac_simps)
qed simp

lemma running_wake [simp]: "running_task (wake w) = running_task w"
  by (simp add: wake_def)

text \<open>Tasks are taken in the order of submission; a task taken is being executed or done, once.\<close>

definition history_ok :: "SegmentMerger \<Rightarrow> bool" where
  "history_ok mg \<longleftrightarrow> (\<exists>taken. mg_submitted mg = taken @ mg_queue mg \<and>
       mset taken = mset (executing mg) + mset (map fst (mg_done mg))) \<and>
     (\<forall>(t, s) \<in> set (mg_done mg). ExecuteMerge t = Inr s)"

lemma executing_unchanged:
  assumes "i < length (mg_workers mg)" and "running_task (mg_workers mg ! i) = running_task pc"
  shows "mset (executing (set_worker i pc mg)) = mset (executing mg)"
  using mset_running_update [OF assms(1), of pc] assms(2) by (simp add: executing_def)

lemma worker_step_history:
  assumes "worker_step i mg = Some mg'" and "history_ok mg"
  shows "history_ok mg'"
proof -
  obtain taken where taken: "mg_submitted mg = taken @ mg_queue mg"
    "mset taken = mset (executing mg) + mset (map fst (mg_done mg))" using assms(2) by (auto simp: history_ok_def)
  have same: "history_ok (set_worker i pc mg)"
    if "i < length (mg_workers mg)" "running_task (mg_workers mg ! i) = []" "running_task pc = []" for pc
    using assms(2) executing_unchanged [of i mg pc] that by (simp add: history_ok_def)
  from assms(1) show ?thesis
  proof (cases rule: worker_step_cases)
    case leave
    then show ?thesis using same by auto
  next
    case (pop t q)
    let ?ws = "(mg_workers mg)[i := WExecuting t]"
    have "mset (concat (map running_task ?ws)) = add_mset t (mset (executing mg))"
      using mset_running_update [OF pop(2), of "WExecuting t"] pop(3) by (simp add: executing_def)
    then have "mset (taken @ [t]) = mset (executing mg') + mset (map fst (mg_done mg'))"
      using taken(2) by (simp add: pop(6) executing_def)
    moreover have "mg_submitted mg' = (taken @ [t]) @ mg_queue mg'" using taken(1) pop(5) by (simp add: pop(6))
    moreover have "\<forall>(t, s) \<in> set (mg_done mg'). ExecuteMerge t = Inr s"
      using assms(2) by (simp add: history_ok_def pop(6))
    ultimately show ?thesis unfolding history_ok_def by blast
  next
    case (throw t e)
    then show ?thesis using assms(2) by (simp add: history_ok_def executing_def)
  next
    case (finish t s)
    have "add_mset t (mset (concat (map running_task ((mg_workers mg)[i := WLoop])))) = mset (executing mg)"
      using mset_running_update [OF finish(2), of WLoop] finish(3) by (simp add: executing_def)
    then have "mset taken = mset (executing mg') + mset (map fst (mg_done mg'))"
      using taken(2) by (simp add: finish(5) executing_def flip: \<open>_ = mset (executing mg)\<close>)
    then show ?thesis using taken(1) assms(2) finish(4) by (auto simp: history_ok_def finish(5))
  qed (use same in auto)
qed

text \<open>While the mutex is held the queue is empty; workers leave only after the stop; a queued task has a
  worker awake or a notification under way.\<close>

definition wakeup_ok :: "SegmentMerger \<Rightarrow> bool" where
  "wakeup_ok mg \<longleftrightarrow> (locked mg \<longrightarrow> mg_queue mg = []) \<and>
     (\<not> mg_stop mg \<longrightarrow> WExited \<notin> set (mg_workers mg) \<and> \<not> mg_notify_all mg \<and>
        (mg_queue mg \<noteq> [] \<longrightarrow> 0 < mg_notify mg \<or> mg_workers mg = [] \<or> (\<exists>w \<in> set (mg_workers mg). w \<noteq> WBlocked)))"

lemma set_update_awake:
  assumes "i < length ws" and "pc \<noteq> WBlocked"
  shows "\<exists>w \<in> set (ws[i := pc]). w \<noteq> WBlocked"
  using assms set_update_memI [OF assms(1), of pc] by blast

lemma update_member: "w \<in> set (ws[i := pc]) \<Longrightarrow> w \<noteq> pc \<Longrightarrow> w \<in> set ws"
  using set_update_subset_insert [of ws i pc] by blast

lemma worker_step_wakeup:
  assumes "worker_step i mg = Some mg'" and "wakeup_ok mg"
  shows "wakeup_ok mg'"
  using assms(1)
proof (cases rule: worker_step_cases)
  case leave
  then show ?thesis using assms(2) by (auto simp: wakeup_ok_def locked_def dest: update_member)
next
  case loop
  then show ?thesis
    using assms(2) set_update_awake [OF loop(2), of WLock] by (auto simp: wakeup_ok_def locked_def dest: update_member)
next
  case hold
  then show ?thesis using assms(2) by (auto simp: wakeup_ok_def dest: update_member)
next
  case (pop t q)
  then show ?thesis
    using assms(2) set_update_awake [OF pop(2), of "WExecuting t"]
    by (auto simp: wakeup_ok_def locked_def dest: update_member)
next
  case sleep
  then have "mg_queue mg = []" using assms(2) nth_mem [OF sleep(2)] by (auto simp: wakeup_ok_def locked_def)
  with sleep show ?thesis using assms(2) by (auto simp: wakeup_ok_def dest: update_member)
next
  case (throw t e)
  then show ?thesis using assms(2) by (simp add: wakeup_ok_def locked_def)
next
  case (finish t s)
  then show ?thesis
    using assms(2) set_update_awake [OF finish(2), of WLoop] by (auto simp: wakeup_ok_def locked_def dest: update_member)
qed

lemma wake_member: "WHolding = wake w \<longleftrightarrow> w = WHolding" "WExited = wake w \<longleftrightarrow> w = WExited" "WBlocked \<noteq> wake w"
  by (auto simp: wake_def)

lemma pool_step_inv:
  assumes "pool_step mg mg'" and "history_ok mg" and "wakeup_ok mg"
  shows "history_ok mg' \<and> wakeup_ok mg'"
  using assms(1)
proof cases
  case (Work i)
  then show ?thesis using worker_step_history worker_step_wakeup assms(2,3) by blast
next
  case (Notify_one i)
  then show ?thesis
    using assms(2,3) executing_unchanged [of i mg WLock] set_update_awake [of i "mg_workers mg" WLock]
    by (auto simp: notify_one_def history_ok_def wakeup_ok_def locked_def executing_def dest: update_member)
next
  case Notify_none
  have "mg_workers mg = [] \<or> (\<exists>w \<in> set (mg_workers mg). w \<noteq> WBlocked)"
    using Notify_none(4) by (cases "mg_workers mg") auto
  with Notify_none show ?thesis
    using assms(2,3) by (auto simp: notify_one_def history_ok_def wakeup_ok_def locked_def executing_def)
next
  case Notify_all
  have "map running_task (map wake (mg_workers mg)) = map running_task (mg_workers mg)" by simp
  with Notify_all show ?thesis
    using assms(2,3) by (auto simp: notify_all_def history_ok_def wakeup_ok_def locked_def executing_def wake_member comp_def)
qed

lemma merger_step_inv:
  assumes "merger_step mg mg'" and "history_ok mg" and "wakeup_ok mg"
  shows "history_ok mg' \<and> wakeup_ok mg'"
  using assms(1)
proof cases
  case (Submit task)
  then show ?thesis
    using assms(2,3) by (auto simp: SubmitMerge_def history_ok_def wakeup_ok_def locked_def executing_def)
next
  case Stop
  then show ?thesis
    using assms(2,3) by (auto simp: SegmentMerger_stop_def history_ok_def wakeup_ok_def locked_def executing_def)
next
  case (Spurious i)
  then show ?thesis
    using assms(2,3) executing_unchanged [of i mg WLock] set_update_awake [of i "mg_workers mg" WLock]
    by (auto simp: history_ok_def wakeup_ok_def locked_def dest: update_member)
next
  case Pool
  then show ?thesis using pool_step_inv assms(2,3) by blast
qed

lemma reachable_inv:
  assumes "merger_reachable n mg"
  shows "history_ok mg \<and> wakeup_ok mg"
  using assms unfolding merger_reachable_def
proof (induction rule: rtranclp_induct)
  case base
  then show ?case
    by (auto simp: SegmentMerger_new_def history_ok_def wakeup_ok_def locked_def executing_def)
next
  case (step mg mg')
  then show ?case using merger_step_inv by blast
qed

section \<open>Termination of the pool\<close>

fun worker_weight :: "worker \<Rightarrow> nat" where
  "worker_weight (WExecuting t) = 4" | "worker_weight WLoop = 3" | "worker_weight WLock = 2"
| "worker_weight WHolding = 1" | "worker_weight WBlocked = 0" | "worker_weight WExited = 0"

definition pool_measure :: "SegmentMerger \<Rightarrow> nat" where
  "pool_measure mg = 3 * length (mg_queue mg) + sum_list (map worker_weight (mg_workers mg)) + 3 * mg_notify mg +
     (if mg_notify_all mg then 2 * length (mg_workers mg) + 1 else 0) + (if mg_failed mg then 0 else 1)"

lemma weight_update:
  "i < length ws \<Longrightarrow> sum_list (map worker_weight (ws[i := w])) + worker_weight (ws ! i) =
     sum_list (map worker_weight ws) + worker_weight w"
proof (induction ws arbitrary: i)
  case (Cons v ws)
  then show ?case by (cases i) (auto simp: ac_simps)
qed simp

lemma weight_wake: "sum_list (map (worker_weight \<circ> wake) ws) \<le> sum_list (map worker_weight ws) + 2 * length ws"
proof (induction ws)
  case (Cons w ws)
  have "worker_weight (wake w) \<le> worker_weight w + 2" by (simp add: wake_def)
  with Cons show ?case by simp
qed simp

lemma pool_step_decreases: "pool_step mg mg' \<Longrightarrow> pool_measure mg' < pool_measure mg"
proof (induction rule: pool_step.induct)
  case (Work i mg mg')
  then show ?case
  proof (cases rule: worker_step_cases)
    case leave
    then show ?thesis using weight_update [OF leave(2), of WExited] by (auto simp: pool_measure_def)
  next
    case loop
    then show ?thesis using weight_update [OF loop(2), of WLock] by (simp add: pool_measure_def)
  next
    case hold
    then show ?thesis using weight_update [OF hold(2), of WHolding] by (simp add: pool_measure_def)
  next
    case (pop t q)
    then show ?thesis using weight_update [OF pop(2), of "WExecuting t"] by (simp add: pool_measure_def)
  next
    case sleep
    then show ?thesis using weight_update [OF sleep(2), of WBlocked] by (simp add: pool_measure_def)
  next
    case (throw t e)
    then show ?thesis by (simp add: pool_measure_def)
  next
    case (finish t s)
    then show ?thesis using weight_update [OF finish(2), of WLoop] by (simp add: pool_measure_def)
  qed
next
  case (Notify_one mg i)
  then show ?case using weight_update [OF Notify_one(3), of WLock] by (simp add: pool_measure_def notify_one_def)
next
  case (Notify_none mg)
  then show ?case by (simp add: pool_measure_def notify_one_def)
next
  case (Notify_all mg)
  then show ?case using weight_wake [of "mg_workers mg"] by (simp add: pool_measure_def notify_all_def)
qed

lemma pool_run_bounded: "(pool_step ^^ k) mg mg' \<Longrightarrow> k + pool_measure mg' \<le> pool_measure mg"
proof (induction k arbitrary: mg')
  case (Suc k)
  then obtain mg1 where "(pool_step ^^ k) mg mg1" "pool_step mg1 mg'" by auto
  then show ?case using Suc.IH [of mg1] pool_step_decreases [of mg1 mg'] by simp
qed simp

text \<open>A pool that can take no step by itself.\<close>

definition quiescent :: "SegmentMerger \<Rightarrow> bool" where
  "quiescent mg \<longleftrightarrow> (\<forall>mg'. \<not> pool_step mg mg')"

lemma quiescent_workers:
  assumes "quiescent mg" and "\<not> mg_failed mg"
  shows "set (mg_workers mg) \<subseteq> {WBlocked, WExited} \<and> mg_notify mg = 0 \<and> \<not> mg_notify_all mg"
proof -
  have none: "worker_step i mg = None" for i
    using assms(1) pool_step.Work unfolding quiescent_def by (metis not_None_eq)
  have at: "mg_workers mg ! i \<noteq> WLoop \<and> mg_workers mg ! i \<noteq> WHolding \<and> (\<forall>t. mg_workers mg ! i \<noteq> WExecuting t) \<and>
      (mg_workers mg ! i = WLock \<longrightarrow> locked mg)" if "i < length (mg_workers mg)" for i
    using none [of i] assms(2) that by (auto simp: worker_step_def split: worker.splits list.splits sum.splits if_splits)
  then have "\<not> locked mg" unfolding locked_def by (metis in_set_conv_nth)
  then have "mg_workers mg ! i \<in> {WBlocked, WExited}" if "i < length (mg_workers mg)" for i
    using at [OF that] by (cases "mg_workers mg ! i") auto
  then have "set (mg_workers mg) \<subseteq> {WBlocked, WExited}" by (metis in_set_conv_nth subsetI)
  moreover have "\<not> mg_notify_all mg" using assms pool_step.Notify_all unfolding quiescent_def by blast
  moreover have "mg_notify mg = 0"
    using assms pool_step.Notify_one pool_step.Notify_none unfolding quiescent_def by (metis gr0I in_set_conv_nth)
  ultimately show ?thesis by blast
qed

lemma quiescentI:
  assumes "set (mg_workers mg) \<subseteq> {WBlocked, WExited}" and "mg_notify mg = 0" and "\<not> mg_notify_all mg"
  shows "quiescent mg"
proof -
  have "worker_step i mg = None" for i
  proof (cases "i < length (mg_workers mg)")
    case True
    then have "mg_workers mg ! i = WBlocked \<or> mg_workers mg ! i = WExited" using assms(1) nth_mem by blast
    then show ?thesis by (auto simp: worker_step_def)
  qed (simp add: worker_step_def)
  then show ?thesis using assms(2,3) by (auto simp: quiescent_def elim!: pool_stepE)
qed

lemma executing_idle: "set (mg_workers mg) \<subseteq> {WBlocked, WExited} \<Longrightarrow> executing mg = []"
  by (auto simp: executing_def)

text \<open>What the pool's own steps keep.\<close>

lemma pool_step_keeps:
  "pool_step mg mg' \<Longrightarrow> mg_submitted mg' = mg_submitted mg \<and> mg_stop mg' = mg_stop mg \<and>
     length (mg_workers mg') = length (mg_workers mg)"
proof (induction rule: pool_step.induct)
  case (Work i mg mg')
  then show ?case by (cases rule: worker_step_cases) simp_all
qed (simp_all add: notify_one_def notify_all_def)

lemma pool_run_keeps:
  assumes "(pool_step ^^ k) mg mg'" and "history_ok mg" and "wakeup_ok mg"
  shows "history_ok mg' \<and> wakeup_ok mg' \<and> mg_submitted mg' = mg_submitted mg \<and> mg_stop mg' = mg_stop mg \<and>
    length (mg_workers mg') = length (mg_workers mg)"
  using assms(1)
proof (induction k arbitrary: mg')
  case 0
  then show ?case using assms(2,3) by simp
next
  case (Suc k)
  then obtain mg1 where "(pool_step ^^ k) mg mg1" "pool_step mg1 mg'" by auto
  then show ?case using Suc.IH [of mg1] pool_step_inv [of mg1 mg'] pool_step_keeps [of mg1 mg'] by simp
qed

lemma pool_run_failed:
  assumes "(pool_step ^^ k) mg mg'" and "\<forall>t \<in> set (mg_submitted mg). \<exists>s. ExecuteMerge t = Inr s"
    and "history_ok mg" and "wakeup_ok mg" and "\<not> mg_failed mg"
  shows "\<not> mg_failed mg'"
  using assms(1)
proof (induction k arbitrary: mg')
  case 0
  then show ?case using assms(5) by simp
next
  case (Suc k)
  then obtain mg1 where run: "(pool_step ^^ k) mg mg1" and st: "pool_step mg1 mg'" by auto
  have sub: "history_ok mg1" "mg_submitted mg1 = mg_submitted mg" "\<not> mg_failed mg1"
    using pool_run_keeps [OF run assms(3,4)] Suc.IH [OF run] by simp_all
  have ok: "\<exists>s. ExecuteMerge t = Inr s" if "WExecuting t \<in> set (mg_workers mg1)" for t
  proof -
    have "t \<in> set (executing mg1)" using that by (force simp: executing_def)
    then have "t \<in> set (mg_submitted mg1)"
      using sub(1) unfolding history_ok_def by (metis Un_iff set_append set_mset_mset set_mset_union)
    then show ?thesis using assms(2) sub(2) by simp
  qed
  from st show ?case
  proof cases
    case (Work i)
    then show ?thesis
    proof (cases rule: worker_step_cases)
      case (throw t e)
      then show ?thesis using ok [of t] nth_mem [OF throw(2)] by auto
    qed (use sub(3) in simp_all)
  qed (use sub(3) in \<open>simp_all add: notify_one_def notify_all_def\<close>)
qed

text \<open>Once the flag is set with no worker between its test and its sleep, nobody falls asleep any more.\<close>

definition stopping :: "SegmentMerger \<Rightarrow> bool" where
  "stopping mg \<longleftrightarrow> mg_stop mg \<and> \<not> locked mg \<and> (mg_notify_all mg \<or> WBlocked \<notin> set (mg_workers mg))"

lemma pool_step_stopping:
  assumes "pool_step mg mg'" and "stopping mg"
  shows "stopping mg'"
  using assms(1)
proof cases
  case (Work i)
  then show ?thesis
  proof (cases rule: worker_step_cases)
    case sleep
    then show ?thesis using assms(2) nth_mem [OF sleep(2)] by (simp add: stopping_def locked_def)
  qed (use assms(2) in \<open>auto simp: stopping_def locked_def dest: update_member\<close>)
qed (use assms(2) in \<open>auto simp: stopping_def locked_def notify_one_def notify_all_def wake_member dest: update_member\<close>)

lemma pool_run_stopping: "(pool_step ^^ k) mg mg' \<Longrightarrow> stopping mg \<Longrightarrow> stopping mg'"
proof (induction k arbitrary: mg')
  case (Suc k)
  then obtain mg1 where "(pool_step ^^ k) mg mg1" "pool_step mg1 mg'" by auto
  then show ?case using Suc.IH [of mg1] Suc.prems(2) pool_step_stopping by blast
qed simp

text \<open>The run in which the notification comes between the test and the sleep.\<close>

lemma pool_worker_run:
  "merger_step\<^sup>*\<^sup>* mg0 mg \<Longrightarrow> worker_step i mg = Some mg' \<Longrightarrow> merger_step\<^sup>*\<^sup>* mg0 mg'"
  by (meson pool_step.Work merger_step.Pool rtranclp.rtrancl_into_rtrancl)

definition hanging_pool :: SegmentMerger where
  "hanging_pool = (SegmentMerger_new 1)\<lparr>mg_workers := [WBlocked], mg_stop := True\<rparr>"

lemma hanging_pool_reachable: "merger_reachable 1 hanging_pool"
proof -
  let ?m = "\<lambda>pc. (SegmentMerger_new 1)\<lparr>mg_workers := [pc]\<rparr>"
  have "SegmentMerger_new 1 = ?m WLoop" by (simp add: SegmentMerger_new_def)
  then have "merger_step\<^sup>*\<^sup>* (SegmentMerger_new 1) (?m WLoop)" by simp
  then have "merger_step\<^sup>*\<^sup>* (SegmentMerger_new 1) (?m WLock)"
    by (rule pool_worker_run [of _ _ 0]) (simp add: worker_step_def SegmentMerger_new_def set_worker_def)
  then have "merger_step\<^sup>*\<^sup>* (SegmentMerger_new 1) (?m WHolding)"
    by (rule pool_worker_run [of _ _ 0]) (simp add: worker_step_def SegmentMerger_new_def set_worker_def locked_def)
  moreover have "merger_step (?m WHolding) (SegmentMerger_stop (?m WHolding))"
    by (rule merger_step.Stop) (simp_all add: SegmentMerger_new_def)
  moreover have "merger_step (SegmentMerger_stop (?m WHolding)) ((?m WHolding)\<lparr>mg_stop := True\<rparr>)"
    using pool_step.Notify_all [of "SegmentMerger_stop (?m WHolding)"]
    by (intro merger_step.Pool) (simp add: SegmentMerger_new_def SegmentMerger_stop_def notify_all_def wake_def)
  ultimately have "merger_step\<^sup>*\<^sup>* (SegmentMerger_new 1) ((?m WHolding)\<lparr>mg_stop := True\<rparr>)"
    by (meson rtranclp.rtrancl_into_rtrancl)
  then show ?thesis unfolding merger_reachable_def
    by (rule pool_worker_run [of _ _ 0])
      (simp add: worker_step_def SegmentMerger_new_def set_worker_def hanging_pool_def)
qed

lemma hanging_pool_quiescent: "quiescent hanging_pool"
  by (rule quiescentI) (simp_all add: hanging_pool_def SegmentMerger_new_def)

text \<open>The destructor also abandons what is queued: a worker that finds the flag set does not look at the queue.\<close>

lemma stop_abandons_tasks:
  "\<exists>mg. merger_reachable 1 mg \<and> mg_workers mg = [WExited] \<and> mg_queue mg = [task] \<and> mg_done mg = [] \<and> quiescent mg"
proof -
  let ?m0 = "SegmentMerger_new 1"
  let ?m1 = "SubmitMerge task ?m0"
  let ?m2 = "notify_one None ?m1"
  let ?m3 = "SegmentMerger_stop ?m2"
  let ?m4 = "set_worker 0 WExited ?m3"
  let ?m5 = "notify_all ?m4"
  note d = SubmitMerge_def SegmentMerger_new_def notify_one_def SegmentMerger_stop_def notify_all_def wake_def
  have "merger_step ?m0 ?m1" by (rule merger_step.Submit) (simp_all add: d locked_def)
  moreover have "merger_step ?m1 ?m2" by (intro merger_step.Pool pool_step.Notify_none) (simp_all add: d)
  moreover have "merger_step ?m2 ?m3" by (rule merger_step.Stop) (simp_all add: d)
  moreover have "merger_step ?m3 ?m4"
    by (intro merger_step.Pool pool_step.Work [of 0]) (simp add: d worker_step_def set_worker_def)
  moreover have "merger_step ?m4 ?m5" by (intro merger_step.Pool pool_step.Notify_all) (simp_all add: d)
  ultimately have "merger_reachable 1 ?m5"
    unfolding merger_reachable_def by (meson rtranclp.rtrancl_into_rtrancl rtranclp.rtrancl_refl)
  moreover have "quiescent ?m5" by (rule quiescentI) (simp_all add: d)
  ultimately show ?thesis by (intro exI [of _ ?m5]) (simp add: d)
qed

text \<open>The number of rows of the appended tables.\<close>

lemma rows_of_tables:
  assumes "list_all2 holds_table segs css" and "\<forall>cs \<in> set css. i < length cs"
  shows "sum_list (map Segment_NumRows segs) = of_nat (sum_list (map (\<lambda>cs. spec_rows (cs ! i)) css))"
  using assms
proof (induction segs css rule: list_all2_induct)
  case (Cons s segs cs css)
  have "spec_rows (cs ! i) = unat (Segment_NumRows s)" using Cons by (simp add: holds_table_def)
  then show ?case using Cons by simp
qed simp

lemma list_all2_right: "list_all2 P xs ys \<Longrightarrow> y \<in> set ys \<Longrightarrow> \<exists>x. P x y"
  by (induction rule: list_all2_induct) auto

definition merged_count :: "ColumnSpec list \<Rightarrow> ColumnSpec list list \<Rightarrow> nat" where
  "merged_count first rest = sum_list (map (\<lambda>cs. spec_rows (cs ! 0)) (first # rest))"

lemma merged_rows_each:
  assumes "list_all2 holds_table segs (first # rest)" and "\<forall>cs \<in> set rest. map spec_type cs = map spec_type first"
  shows "\<forall>c \<in> set (append_tables first rest). spec_rows c = merged_count first rest"
proof
  fix c assume "c \<in> set (append_tables first rest)"
  then obtain i where i: "i < length first" "c = append_tables first rest ! i" by (auto simp: append_tables_def)
  have same: "spec_rows (cs ! i) = spec_rows (cs ! 0)" if mem: "cs \<in> set (first # rest)" and lt: "i < length cs" for cs i
  proof -
    obtain s where "holds_table s cs" using list_all2_right [OF assms(1) mem] by blast
    moreover have "cs ! i \<in> set cs" "cs ! 0 \<in> set cs" using lt by (auto intro!: nth_mem)
    ultimately show ?thesis by (simp add: holds_table_def)
  qed
  note facts = append_tables_nth [OF assms(2) i(1)]
  have "sum_list (map (\<lambda>cs. spec_rows (cs ! i)) rest) = sum_list (map (\<lambda>cs. spec_rows (cs ! 0)) rest)"
    using same facts(5) by (intro arg_cong [where f = sum_list] map_cong) auto
  then show "spec_rows c = merged_count first rest"
    using facts(3) same [of first i] i by (simp add: merged_count_def)
qed

lemma merged_rows:
  assumes "list_all2 holds_table segs (first # rest)" and "\<forall>cs \<in> set rest. map spec_type cs = map spec_type first"
    and "first \<noteq> []"
  shows "of_nat (Max (insert 0 (spec_rows ` set (append_tables first rest)))) = sum_list (map Segment_NumRows segs)"
proof -
  have "append_tables first rest \<noteq> []" using assms(3) by (simp add: append_tables_def)
  then have "Max (insert 0 (spec_rows ` set (append_tables first rest))) = merged_count first rest"
    using merged_rows_each [OF assms(1,2)] by (intro Max_constant_rows)
  moreover have "\<forall>cs \<in> set (first # rest). 0 < length cs" using append_tables_nth(5) [OF assms(2), of 0] assms(3) by auto
  ultimately show ?thesis using rows_of_tables [OF assms(1), of 0] by (simp add: merged_count_def)
qed

text \<open>A merge of several segments finishes a writer that holds the appended tables.\<close>

lemma merge_writes:
  assumes "mt_input_segments task = segs" and "list_all2 holds_table segs (first # rest)"
    and "\<forall>cs \<in> set rest. map spec_type cs = map spec_type first"
    and "\<forall>c \<in> set (append_tables first rest). spec_ok c" and "mt_opened task"
    and "36 + length first * 136 + sum_list (map (length \<circ> spec_block) (append_tables first rest)) < 2 ^ 32"
    and "rest \<noteq> []"
  shows "\<exists>w s. ExecuteMerge task = Inr s \<and> Finish_segment w = Inr s \<and> writer_holds w (append_tables first rest) \<and>
    sw_zone_maps w = [] \<and> sw_bloom_filters w = []"
proof -
  let ?t = "append_tables first rest"
  have len: "length ?t = length first" by (simp add: append_tables_def)
  obtain s0 s1 ss where segs: "segs = s0 # s1 # ss" "holds_table s0 first"
    using assms(2,7) by (cases rest) (auto simp: list_all2_Cons2)
  obtain w0 where w0: "SegmentWriter_new True = Inr w0" "writer_holds w0 []" using new_writer_holds by blast
  have idx: "sw_zone_maps w0 = [] \<and> sw_bloom_filters w0 = []" using w0(1) by (auto simp: SegmentWriter_new_def)
  let ?w0 = "Writer_SetTimestamp (mt_max_timestamp task) w0"
  obtain segs' w where run: "fold_res merge_column_step [0..<length first] (segs, ?w0) = Inr (segs', w)"
    "writer_holds w (take (length first) ?t)" "sw_zone_maps w = [] \<and> sw_bloom_filters w = []"
    using merge_columns [OF assms(2,3), of ?w0 "length first"] assms(4,6) w0(2) idx
    by (auto simp: SetTimestamp_holds)
  then have holds: "writer_holds w ?t" by (simp add: len)
  then obtain s where s: "Finish_segment w = Inr s"
    using Finish_segment_table [OF holds] run(3) assms(6) len by auto
  have "ExecuteMerge task = Inr s"
    using run(1) segs(2) by (simp add: ExecuteMerge_def assms(1,5) segs(1) w0(1) holds_table_def s)
  then show ?thesis using s holds run(3) by blast
qed

text \<open>A new segment with one column, and the values of a table's column.\<close>

lemma AddColumn_created: "AddColumn N T xs nulls e w = Inr w' \<Longrightarrow> sh_created_ts (sw_header w') = sh_created_ts (sw_header w)"
  by (auto simp: AddColumn_def bind_res_Inr_iff)

lemma table_segment:
  assumes "spec_ok c" and "172 + length (spec_block c) < 2 ^ 32" and "spec_rows c < 2 ^ 64"
  shows "\<exists>s. holds_table s [c] \<and> Segment_NumRows s = of_nat (spec_rows c) \<and> sh_created_ts (sg_header s) = 0"
proof -
  obtain w0 where w0: "SegmentWriter_new True = Inr w0" "writer_holds w0 []" using new_writer_holds by blast
  have z0: "sw_zone_maps w0 = [] \<and> sw_bloom_filters w0 = [] \<and> sh_created_ts (sw_header w0) = 0"
    using w0(1) by (auto simp: SegmentWriter_new_def)
  obtain w where w: "add_spec c (replicate (spec_rows c) False) w0 = Inr w" "writer_holds w [c]"
    using add_spec_holds [OF w0(2), of c "replicate (spec_rows c) False"] assms(1) by auto
  then have z: "sw_zone_maps w = [] \<and> sw_bloom_filters w = [] \<and> sh_created_ts (sw_header w) = 0"
    using z0 by (cases c) (auto simp: AddColumn_Int32_def AddColumn_Int64_def dest: AddColumn_indexes AddColumn_created)
  have "\<exists>s. Finish_segment w = Inr s \<and> segment_serves s [c] \<and> unat (Segment_NumColumns s) = length [c] \<and>
      Segment_NumRows s = of_nat (Max (insert 0 (spec_rows ` set [c]))) \<and> sh_created_ts (sg_header s) = sh_created_ts (sw_header w)"
    using z assms(2) by (intro Finish_segment_table [OF w(2)]) simp_all
  then show ?thesis using assms(1,3) z by (auto simp: holds_table_def unat_of_nat)
qed

lemma column_data_table:
  assumes "holds_table s cs" and "i < length cs" and "cs ! i = Spec32 e xs"
  shows "column_data i s xs"
proof -
  have "spec_rows (cs ! i) = unat (Segment_NumRows s)" using assms(1,2) by (simp add: holds_table_def)
  then show ?thesis using holds_table_read [OF assms(1,2)] assms(3) by (auto simp: column_data_def spec_data_def)
qed

text \<open>Deleted rows of the delta store are merged like the others.\<close>

lemma merge_revives_deleted:
  assumes "Delta_inv ds"
  shows "dated_inserts idx (Some (Delta_Delete row ts ds)) = dated_inserts idx (Some ds)"
  using Delta_Delete_columns(2,4) [of ds] assms by (simp add: dated_inserts_def Delta_inv_def delete_cell_def)

section \<open>Properties\<close>



text \<open>C11: the column merger of an \<^verbatim>\<open>Int32\<close> column delivers the values of all segments, dated by the creation time of
  their segment, and the inserted values of the delta store, stably sorted by time and stored plainly; its
  statistics count them and bound them exactly. The bounds are kept as 64-bit integers, so they would not be
  exact for floating-point columns.\<close>

theorem merge_column_sorted:
  fixes xss :: "32 word list list" and delta :: "DeltaStore option"
  assumes "list_all2 (column_data (cmg_index cm)) segments xss"
  defines "vals \<equiv> map fst (sort_key snd (dated_values segments xss @ dated_inserts (cmg_index cm) delta))"
  shows "\<exists>st' segs. MergeColumn (int_numeric :: 32 word Numeric) Int32 segments delta st cm = Inr (bytes_of_array vals, st', segs) \<and>
    cs_type st' = cmg_type cm \<and> total_count st' = of_nat (length vals) \<and> null_count st' = 0 \<and>
    (vals \<noteq> [] \<longrightarrow> has_min_max st' \<and> sint (min_int st') = Min (sint ` set vals) \<and>
       sint (max_int st') = Max (sint ` set vals))"
  unfolding vals_def by (rule merge32.MergeColumn_sorts [OF assms(1)])

theorem merge_column_sorted_witness:
  "\<exists>s delta st' segs. MergeColumn (int_numeric :: 32 word Numeric) Int32 [s] delta ColumnStats_default
     (ColumnMerger_SetColumnIndex 0 (ColumnMerger_new Int32 Plain)) =
       Inr (bytes_of_array [4, 5, 6, 7 :: 32 word], st', segs) \<and> sint (min_int st') = 4 \<and> sint (max_int st') = 7"
proof -
  let ?cm = "ColumnMerger_SetColumnIndex 0 (ColumnMerger_new Int32 Plain)"
  let ?delta = "Some (Delta_Insert 4 [bytes_of (6 :: 32 word)] 2 (Delta_Insert 3 [bytes_of (7 :: 32 word)] 8 (DeltaStore_new 1 100)))"
  obtain s where s: "holds_table s [Spec32 Plain [4, 5]]" "sh_created_ts (sg_header s) = 0"
    using table_segment [of "Spec32 Plain [4, 5]"] by (auto simp: fixed_width_def)
  have idx: "cmg_index ?cm = 0" by (simp add: ColumnMerger_SetColumnIndex_def)
  have cols: "list_all2 (column_data (cmg_index ?cm)) [s] [[4, 5 :: 32 word]]"
    using column_data_table [OF s(1), of 0] by (simp add: idx)
  have "dated_inserts 0 ?delta = [(7 :: 32 word, 8), (6, 2)]"
    by (simp add: dated_inserts_def Delta_Insert_def next_timestamp_def DeltaStore_new_def on_column_def insert_cell_def
        ColumnDelta_empty_def delta_value_def)
  then have "map fst (sort_key snd (dated_values [s] [[4, 5]] @ dated_inserts 0 ?delta)) = [4, 5, 6, 7 :: 32 word]"
    by (simp add: dated_values_def s(2))
  then show ?thesis
    using merge_column_sorted [OF cols, of ?delta ColumnStats_default] unfolding idx by auto
qed

text \<open>C12: in every reachable state of the worker pool, with any number of workers and any interleaving of
  submissions, notifications, spurious wake-ups and the stop: the tasks taken from the queue are a prefix
  of the tasks submitted, each of them is being executed by one worker or has its result, exactly once,
  and every result delivered is that of the merge.\<close>

theorem merger_loses_no_task:
  assumes "merger_reachable n mg"
  shows "\<exists>taken. mg_submitted mg = taken @ mg_queue mg \<and>
    mset taken = mset (executing mg) + mset (map fst (mg_done mg)) \<and>
    (\<forall>(t, s) \<in> set (mg_done mg). ExecuteMerge t = Inr s)"
  using reachable_inv [OF assms] unfolding history_ok_def by blast

theorem merger_loses_no_task_witness:
  "\<exists>taken. mg_submitted hanging_pool = taken @ mg_queue hanging_pool \<and>
    mset taken = mset (executing hanging_pool) + mset (map fst (mg_done hanging_pool))"
  using merger_loses_no_task [OF hanging_pool_reachable] by blast

text \<open>C13: left to itself, the pool comes to rest after at most \<open>pool_measure\<close> steps, and if it has a worker,
  has not been stopped and every submitted merge succeeds, then at rest the queue is empty and every
  submitted task has its result: no wake-up of a submission is ever lost.\<close>

theorem merger_completes:
  assumes "merger_reachable n mg" and "0 < length (mg_workers mg)" and "\<not> mg_stop mg" and "\<not> mg_failed mg"
    and "\<forall>t \<in> set (mg_submitted mg). \<exists>s. ExecuteMerge t = Inr s" and "(pool_step ^^ k) mg mg'"
  shows "k \<le> pool_measure mg \<and>
    (quiescent mg' \<longrightarrow> mg_queue mg' = [] \<and> mset (map fst (mg_done mg')) = mset (mg_submitted mg))"
proof -
  note inv = reachable_inv [OF assms(1)]
  have keep: "history_ok mg'" "wakeup_ok mg'" "mg_submitted mg' = mg_submitted mg" "\<not> mg_stop mg'" "mg_workers mg' \<noteq> []"
    using pool_run_keeps [OF assms(6)] inv assms(2,3) by auto
  have nf: "\<not> mg_failed mg'" using pool_run_failed [OF assms(6,5)] inv assms(4) by blast
  have "mg_queue mg' = [] \<and> mset (map fst (mg_done mg')) = mset (mg_submitted mg)" if "quiescent mg'"
  proof -
    have q: "set (mg_workers mg') \<subseteq> {WBlocked, WExited}" "mg_notify mg' = 0"
      using quiescent_workers [OF that nf] by simp_all
    then have "mg_queue mg' = []" using keep(2,4,5) by (auto simp: wakeup_ok_def)
    moreover have "executing mg' = []" by (rule executing_idle [OF q(1)])
    ultimately show ?thesis using keep(1,3) by (auto simp: history_ok_def)
  qed
  then show ?thesis using pool_run_bounded [OF assms(6)] by simp
qed

theorem merger_completes_witness:
  "\<exists>task mg mg'. merger_reachable 1 mg \<and> mg_submitted mg = [task] \<and> (pool_step ^^ 7) mg mg' \<and> 7 \<le> pool_measure mg \<and>
    mg_queue mg' = [] \<and> mset (map fst (mg_done mg')) = {#task#}"
proof -
  obtain s :: Segment where "True" by blast
  let ?t = "\<lparr>mt_input_segments = [s], mt_delta_store = None, mt_opened = True, mt_min_timestamp = 0, mt_max_timestamp = 0\<rparr>"
  let ?m = "\<lambda>pc q nt dn. \<lparr>mg_workers = [pc], mg_queue = q, mg_stop = False, mg_notify = nt, mg_notify_all = False,
    mg_submitted = [?t], mg_done = dn, mg_failed = False\<rparr>"
  note d = worker_step_def set_worker_def locked_def ExecuteMerge_def
  have "merger_step (SegmentMerger_new 1) (SubmitMerge ?t (SegmentMerger_new 1))"
    by (rule merger_step.Submit) (simp_all add: SegmentMerger_new_def locked_def)
  then have reach: "merger_reachable 1 (?m WLoop [?t] 1 [])"
    by (simp add: merger_reachable_def SubmitMerge_def SegmentMerger_new_def)
  have "pool_step (?m WLoop [?t] 1 []) (?m WLoop [?t] 0 [])"
    using pool_step.Notify_none [of "?m WLoop [?t] 1 []"] by (simp add: notify_one_def)
  moreover have "pool_step (?m WLoop [?t] 0 []) (?m WLock [?t] 0 [])" by (rule pool_step.Work [of 0]) (simp add: d)
  moreover have "pool_step (?m WLock [?t] 0 []) (?m (WExecuting ?t) [] 0 [])" by (rule pool_step.Work [of 0]) (simp add: d)
  moreover have "pool_step (?m (WExecuting ?t) [] 0 []) (?m WLoop [] 0 [(?t, s)])" by (rule pool_step.Work [of 0]) (simp add: d)
  moreover have "pool_step (?m WLoop [] 0 [(?t, s)]) (?m WLock [] 0 [(?t, s)])" by (rule pool_step.Work [of 0]) (simp add: d)
  moreover have "pool_step (?m WLock [] 0 [(?t, s)]) (?m WHolding [] 0 [(?t, s)])" by (rule pool_step.Work [of 0]) (simp add: d)
  moreover have "pool_step (?m WHolding [] 0 [(?t, s)]) (?m WBlocked [] 0 [(?t, s)])" by (rule pool_step.Work [of 0]) (simp add: d)
  ultimately have "(pool_step ^^ Suc (Suc (Suc (Suc (Suc (Suc (Suc 0))))))) (?m WLoop [?t] 1 []) (?m WBlocked [] 0 [(?t, s)])"
    by (meson relpowp_0_I relpowp_Suc_I)
  moreover have "Suc (Suc (Suc (Suc (Suc (Suc (Suc 0)))))) = 7" by simp
  ultimately have run: "(pool_step ^^ 7) (?m WLoop [?t] 1 []) (?m WBlocked [] 0 [(?t, s)])" by (simp only:)
  have "quiescent (?m WBlocked [] 0 [(?t, s)])" by (rule quiescentI) simp_all
  with merger_completes [OF reach _ _ _ _ run] have "7 \<le> pool_measure (?m WLoop [?t] 1 []) \<and>
      mset (map fst (mg_done (?m WBlocked [] 0 [(?t, s)]))) = {#?t#}" by (simp add: ExecuteMerge_def)
  with reach run show ?thesis
    by (intro exI [of _ ?t] exI [of _ "?m WLoop [?t] 1 []"] exI [of _ "?m WBlocked [] 0 [(?t, s)]"]) simp
qed

text \<open>C14: when the destructor sets the stop flag while no worker is between the test of the wait condition and
  its sleep, the pool comes to rest after at most \<open>pool_measure\<close> steps, and at rest every worker is gone, so that the
  joins return, or a merge threw an exception, which ends the program.\<close>

theorem merger_stops:
  assumes "\<not> locked mg" and "(pool_step ^^ k) (SegmentMerger_stop mg) mg'"
  shows "k \<le> pool_measure (SegmentMerger_stop mg) \<and>
    (quiescent mg' \<longrightarrow> mg_failed mg' \<or> set (mg_workers mg') \<subseteq> {WExited})"
proof -
  have "stopping (SegmentMerger_stop mg)" using assms(1) by (simp add: stopping_def SegmentMerger_stop_def locked_def)
  then have "stopping mg'" by (rule pool_run_stopping [OF assms(2)])
  then have "mg_failed mg' \<or> set (mg_workers mg') \<subseteq> {WExited}" if "quiescent mg'"
    using quiescent_workers [OF that] unfolding stopping_def by blast
  then show ?thesis using pool_run_bounded [OF assms(2)] by simp
qed

theorem merger_stops_witness:
  "\<exists>mg mg'. merger_reachable 2 mg \<and> mg_workers mg = [WBlocked, WLoop] \<and>
    (pool_step ^^ 3) (SegmentMerger_stop mg) mg' \<and> quiescent mg' \<and> 3 \<le> pool_measure (SegmentMerger_stop mg) \<and>
    length (mg_workers mg') = 2 \<and> set (mg_workers mg') \<subseteq> {WExited}"
proof -
  let ?m = "\<lambda>ws stop al. (SegmentMerger_new 2)\<lparr>mg_workers := ws, mg_stop := stop, mg_notify_all := al\<rparr>"
  note d = worker_step_def set_worker_def locked_def SegmentMerger_new_def
  have "merger_step\<^sup>*\<^sup>* (SegmentMerger_new 2) (?m [WLoop, WLoop] False False)"
    by (simp add: SegmentMerger_new_def numeral_2_eq_2)
  then have "merger_step\<^sup>*\<^sup>* (SegmentMerger_new 2) (?m [WLock, WLoop] False False)"
    by (rule pool_worker_run [of _ _ 0]) (simp add: d)
  then have "merger_step\<^sup>*\<^sup>* (SegmentMerger_new 2) (?m [WHolding, WLoop] False False)"
    by (rule pool_worker_run [of _ _ 0]) (simp add: d)
  then have "merger_step\<^sup>*\<^sup>* (SegmentMerger_new 2) (?m [WBlocked, WLoop] False False)"
    by (rule pool_worker_run [of _ _ 0]) (simp add: d)
  then have reach: "merger_reachable 2 (?m [WBlocked, WLoop] False False)" by (simp add: merger_reachable_def)
  have stop: "SegmentMerger_stop (?m [WBlocked, WLoop] False False) = ?m [WBlocked, WLoop] True True"
    by (simp add: SegmentMerger_stop_def)
  have "pool_step (?m [WBlocked, WLoop] True True) (?m [WBlocked, WExited] True True)"
    by (rule pool_step.Work [of 1]) (simp add: d)
  moreover have "pool_step (?m [WBlocked, WExited] True True) (?m [WLock, WExited] True False)"
    using pool_step.Notify_all [of "?m [WBlocked, WExited] True True"]
    by (simp add: SegmentMerger_new_def notify_all_def wake_def)
  moreover have "pool_step (?m [WLock, WExited] True False) (?m [WExited, WExited] True False)"
    by (rule pool_step.Work [of 0]) (simp add: d)
  ultimately have "(pool_step ^^ Suc (Suc (Suc 0))) (?m [WBlocked, WLoop] True True) (?m [WExited, WExited] True False)"
    by (meson relpowp_0_I relpowp_Suc_I)
  then have run: "(pool_step ^^ 3) (SegmentMerger_stop (?m [WBlocked, WLoop] False False)) (?m [WExited, WExited] True False)"
    unfolding stop by (simp only: numeral_3_eq_3)
  have "quiescent (?m [WExited, WExited] True False)" by (rule quiescentI) (simp_all add: SegmentMerger_new_def)
  moreover have "\<not> locked (?m [WBlocked, WLoop] False False)" by (simp add: locked_def)
  from merger_stops [OF this run] calculation
  have "3 \<le> pool_measure (SegmentMerger_stop (?m [WBlocked, WLoop] False False)) \<and>
      set (mg_workers (?m [WExited, WExited] True False)) \<subseteq> {WExited}" by (simp add: SegmentMerger_new_def)
  ultimately show ?thesis using reach run
    by (intro exI [of _ "?m [WBlocked, WLoop] False False"] exI [of _ "?m [WExited, WExited] True False"]) simp
qed

text \<open>C15: since the flag is set and notified without the mutex, the notification can come between the test of a
  worker and its sleep: a state is reachable in which the flag is set, the notification is spent and a
  worker sleeps, and the pool can take no step: the destructor's join does not return.\<close>

theorem merger_stop_can_hang:
  "\<exists>mg. merger_reachable 1 mg \<and> mg_stop mg \<and> \<not> mg_notify_all mg \<and> \<not> mg_failed mg \<and> mg_workers mg = [WBlocked] \<and>
    (\<forall>mg'. \<not> pool_step mg mg')"
  using hanging_pool_reachable hanging_pool_quiescent unfolding quiescent_def
  by (intro exI [of _ hanging_pool]) (simp add: hanging_pool_def SegmentMerger_new_def)

end
