(* ===== verification/ArithKernels.thy ===== *)
theory ArithKernels
  imports FloatArith Columns
begin

text \<open>
  The arithmetic of \<^verbatim>\<open>VectorTraits\<close> in \<^verbatim>\<open>include/columnar/column/column.h\<close> in both builds, and the kernels of
  \<^verbatim>\<open>VectorOps\<close> for \<^verbatim>\<open>float\<close> and \<^verbatim>\<open>double\<close> columns. In the AVX-512 build a block is reduced by the documented
  operation of \<^verbatim>\<open>_mm512_reduce_*\<close>, which folds the upper half of the register onto the lower one until one
  lane is left, and whose minimum and maximum return the second operand unless the first is strictly better;
  the scalar code uses \<^verbatim>\<open>std::min\<close> and \<^verbatim>\<open>std::max\<close>, which return the first operand unless the second is.
\<close>

section \<open>Arithmetic of the traits\<close>

record 'v IntArith =
  i_Add :: "'v list \<Rightarrow> 'v list \<Rightarrow> 'v list res"
  i_Sub :: "'v list \<Rightarrow> 'v list \<Rightarrow> 'v list res"
  i_Mul :: "'v list \<Rightarrow> 'v list \<Rightarrow> 'v list res"
  i_And :: "'v list \<Rightarrow> 'v list \<Rightarrow> 'v list"
  i_Or :: "'v list \<Rightarrow> 'v list \<Rightarrow> 'v list"
  i_Xor :: "'v list \<Rightarrow> 'v list \<Rightarrow> 'v list"
  i_Not :: "'v list \<Rightarrow> 'v list"

definition vector_arith :: "nat \<Rightarrow> 'a::len word IntArith" where
  "vector_arith w = \<lparr>i_Add = \<lambda>a b. Inr (map2 (+) a b), i_Sub = \<lambda>a b. Inr (map2 (-) a b),
     i_Mul = \<lambda>a b. Inr (map2 (*) a b), i_And = map2 (AND), i_Or = map2 (OR), i_Xor = map2 (XOR),
     i_Not = \<lambda>a. map2 (XOR) a (replicate w (- 1))\<rparr>"

definition one_lane :: "('v \<Rightarrow> 'v \<Rightarrow> 'v res) \<Rightarrow> 'v list \<Rightarrow> 'v list \<Rightarrow> 'v list res" where
  "one_lane f a b = bind_res (f (hd a) (hd b)) (\<lambda>x. Inr [x])"

definition scalar_arith :: "'a::len word IntArith" where
  "scalar_arith = \<lparr>i_Add = one_lane sadd_res, i_Sub = one_lane ssub_res, i_Mul = one_lane smul_res,
     i_And = \<lambda>a b. [hd a AND hd b], i_Or = \<lambda>a b. [hd a OR hd b], i_Xor = \<lambda>a b. [hd a XOR hd b],
     i_Not = \<lambda>a. [NOT (hd a)]\<rparr>"

definition Arith_Int32_avx512 :: "u32 IntArith" where "Arith_Int32_avx512 = vector_arith 16"
definition Arith_Int32_portable :: "u32 IntArith" where "Arith_Int32_portable = scalar_arith"
definition Arith_Int64_avx512 :: "u64 IntArith" where "Arith_Int64_avx512 = vector_arith 8"
definition Arith_Int64_portable :: "u64 IntArith" where "Arith_Int64_portable = scalar_arith"

record 'v FpArith =
  f_Add :: "'v list \<Rightarrow> 'v list \<Rightarrow> 'v list"
  f_Sub :: "'v list \<Rightarrow> 'v list \<Rightarrow> 'v list"
  f_Mul :: "'v list \<Rightarrow> 'v list \<Rightarrow> 'v list"
  f_Div :: "'v list \<Rightarrow> 'v list \<Rightarrow> 'v list"

definition fp_arith :: "'a::len word FpArith" where
  "fp_arith = \<lparr>f_Add = map2 fp_add, f_Sub = map2 fp_sub, f_Mul = map2 fp_mul, f_Div = map2 fp_div\<rparr>"

definition Arith_Float_avx512 :: "u32 FpArith" where "Arith_Float_avx512 = fp_arith"
definition Arith_Float_portable :: "u32 FpArith" where "Arith_Float_portable = fp_arith"
definition Arith_Double_avx512 :: "u64 FpArith" where "Arith_Double_avx512 = fp_arith"
definition Arith_Double_portable :: "u64 FpArith" where "Arith_Double_portable = fp_arith"

lemmas fp_arith_defs = Arith_Float_avx512_def Arith_Float_portable_def Arith_Double_avx512_def
  Arith_Double_portable_def fp_arith_def

section \<open>Floating-point kernels\<close>

definition fp_kernel ::
  "('v list \<Rightarrow> 'v list \<Rightarrow> 'v list) \<Rightarrow> ('v \<Rightarrow> 'v \<Rightarrow> 'v) \<Rightarrow> nat \<Rightarrow> 'v list \<Rightarrow> 'v list \<Rightarrow> 'v list res" where
  "fp_kernel vop op w a b = VectorOps_binary w (\<lambda>_ va vb. Inr (vop va vb)) (\<lambda>x y. Inr (op x y)) a b"

definition VectorOps_Add_fp :: "'a::len word FpArith \<Rightarrow> nat \<Rightarrow> 'a word list \<Rightarrow> 'a word list \<Rightarrow> 'a word list res" where
  "VectorOps_Add_fp ar = fp_kernel (f_Add ar) fp_add"

definition VectorOps_Sub_fp :: "'a::len word FpArith \<Rightarrow> nat \<Rightarrow> 'a word list \<Rightarrow> 'a word list \<Rightarrow> 'a word list res" where
  "VectorOps_Sub_fp ar = fp_kernel (f_Sub ar) fp_sub"

definition VectorOps_Mul_fp :: "'a::len word FpArith \<Rightarrow> nat \<Rightarrow> 'a word list \<Rightarrow> 'a word list \<Rightarrow> 'a word list res" where
  "VectorOps_Mul_fp ar = fp_kernel (f_Mul ar) fp_mul"

function reduce_tree :: "('v \<Rightarrow> 'v \<Rightarrow> 'v) \<Rightarrow> 'v list \<Rightarrow> 'v" where
  "reduce_tree f v =
     (if length v \<le> 1 then hd v
      else let h = length v div 2 in reduce_tree f (map2 f (take h v) (drop h v)))"
  by pat_completeness auto
termination
  by (relation "measure (length \<circ> snd)") auto

declare reduce_tree.simps [simp del]

definition std_min :: "'a::len word \<Rightarrow> 'a word \<Rightarrow> 'a word" where
  "std_min a b = (if fp_less b a then b else a)"

definition std_max :: "'a::len word \<Rightarrow> 'a word \<Rightarrow> 'a word" where
  "std_max a b = (if fp_less a b then b else a)"

definition min_ps :: "'a::len word \<Rightarrow> 'a word \<Rightarrow> 'a word" where
  "min_ps a b = (if fp_less a b then a else b)"

definition max_ps :: "'a::len word \<Rightarrow> 'a word \<Rightarrow> 'a word" where
  "max_ps a b = (if fp_less b a then a else b)"

definition reduce_kernel :: "('v \<Rightarrow> 'v \<Rightarrow> 'v) \<Rightarrow> ('v \<Rightarrow> 'v \<Rightarrow> 'v) \<Rightarrow> nat \<Rightarrow> 'v list \<Rightarrow> nat \<Rightarrow> 'v \<Rightarrow> 'v res" where
  "reduce_kernel sel red w =
     block_fold w (\<lambda>v m. Inr (sel m (reduce_tree red v))) (\<lambda>x m. Inr (sel m x))"

definition VectorOps_Sum_fp :: "nat \<Rightarrow> 'a::len word list \<Rightarrow> 'a word res" where
  "VectorOps_Sum_fp w data = reduce_kernel fp_add fp_add w data 0 0"

definition VectorOps_Min_fp :: "nat \<Rightarrow> 'a::len word list \<Rightarrow> 'a word res" where
  "VectorOps_Min_fp w data = bind_res (nth_res data 0) (reduce_kernel std_min min_ps w data 0)"

definition VectorOps_Max_fp :: "nat \<Rightarrow> 'a::len word list \<Rightarrow> 'a word res" where
  "VectorOps_Max_fp w data = bind_res (nth_res data 0) (reduce_kernel std_max max_ps w data 0)"

definition TypedColumn_Sum_fp :: "nat \<Rightarrow> 'a::len word ColumnVector \<Rightarrow> 'a word res" where
  "TypedColumn_Sum_fp w cv = VectorOps_Sum_fp w (take (cv_size cv) (cv_data cv))"

definition TypedColumn_Min_fp :: "nat \<Rightarrow> 'a::len word ColumnVector \<Rightarrow> 'a word res" where
  "TypedColumn_Min_fp w cv = VectorOps_Min_fp w (take (cv_size cv) (cv_data cv))"

definition TypedColumn_Max_fp :: "nat \<Rightarrow> 'a::len word ColumnVector \<Rightarrow> 'a word res" where
  "TypedColumn_Max_fp w cv = VectorOps_Max_fp w (take (cv_size cv) (cv_data cv))"

lemma not_power_le_1: "\<not> (2 :: nat) ^ Suc k \<le> 1"
proof -
  have "0 < (2 :: nat) ^ k" by simp
  then show ?thesis unfolding power_Suc by linarith
qed

section \<open>The contract of an extremum\<close>

text \<open>The reductions keep a value of the best key as long as all values are comparable (\<open>ok\<close>).\<close>

locale extremum =
  fixes sel red :: "'v \<Rightarrow> 'v \<Rightarrow> 'v" and key :: "'v \<Rightarrow> int" and ok :: "'v \<Rightarrow> bool"
  assumes sel_key: "ok x \<Longrightarrow> ok y \<Longrightarrow> key (sel x y) = min (key x) (key y)"
    and red_key: "ok x \<Longrightarrow> ok y \<Longrightarrow> key (red x y) = min (key x) (key y)"
    and sel_arg: "sel x y \<in> {x, y}"
    and red_arg: "red x y \<in> {x, y}"
begin

lemma fold_min_acc: "fold min ys (min x a) = min x (fold min ys a)" for x a :: int
proof (induction ys arbitrary: a)
  case (Cons y ys)
  have "min y (min x a) = min x (min y a)" by (rule min.left_commute)
  then show ?case by (simp only: fold_simps Cons.IH)
qed simp

lemma fold_min_map2:
  "length xs = length ys \<Longrightarrow> fold min (map2 min xs ys) a = fold min ys (fold min xs a)" for a :: int
  by (induction xs ys arbitrary: a rule: list_induct2) (simp_all add: fold_min_acc min.assoc)

lemma reduce:
  assumes "length v = 2 ^ k" and "\<forall>x \<in> set v. ok x"
  shows "reduce_tree red v \<in> set v \<and> fold min (map key v) a = min a (key (reduce_tree red v))"
  using assms
proof (induction k arbitrary: v)
  case 0
  then obtain x where "v = [x]" by (auto simp: length_Suc_conv)
  then show ?case by (simp add: reduce_tree.simps min.commute)
next
  case (Suc k)
  define l r where "l = take (2 ^ k) v" and "r = drop (2 ^ k) v"
  have len: "length l = 2 ^ k" "length r = 2 ^ k" and v: "v = l @ r" using Suc.prems(1) by (simp_all add: l_def r_def)
  have ok: "\<forall>x \<in> set l. ok x" "\<forall>x \<in> set r. ok x" using Suc.prems(2) by (simp_all add: v)
  have step: "reduce_tree red v = reduce_tree red (map2 red l r)"
  proof -
    have "\<not> length v \<le> 1" unfolding Suc.prems(1) by (rule not_power_le_1)
    then show ?thesis using Suc.prems(1) by (subst reduce_tree.simps) (simp add: l_def r_def Let_def)
  qed
  have sub: "set (map2 red l r) \<subseteq> set v"
  proof
    fix z assume "z \<in> set (map2 red l r)"
    then obtain x y where xy: "(x, y) \<in> set (zip l r)" "z = red x y" by auto
    then show "z \<in> set v" using red_arg [of x y] set_zip_leftD [OF xy(1)] set_zip_rightD [OF xy(1)] by (auto simp: v)
  qed
  have "map key (map2 red l r) = map2 min (map key l) (map key r)"
    using ok len by (intro nth_equalityI) (simp_all add: red_key)
  then have "fold min (map key (map2 red l r)) a = fold min (map key v) a"
    using len by (simp add: fold_min_map2 v)
  moreover have "length (map2 red l r) = 2 ^ k" "\<forall>x \<in> set (map2 red l r). ok x"
    using len sub Suc.prems(2) by auto
  ultimately show ?case using Suc.IH [of "map2 red l r"] sub unfolding step by auto
qed

lemma kernel:
  assumes "w = 2 ^ k" and "\<forall>x \<in> set data. ok x" and "ok s"
  shows "\<exists>r. reduce_kernel sel red w data i s = Inr r \<and> r \<in> insert s (set (drop i data)) \<and>
    key r = fold min (map key (drop i data)) (key s)"
  using assms(3)
proof (induction "length data - i" arbitrary: i s rule: less_induct)
  case less
  have pos: "0 < w" using assms(1) by simp
  have tail: "\<exists>r. fold_res (\<lambda>x m. Inr (sel m x)) xs s = Inr r \<and> r \<in> insert s (set xs) \<and> key r = fold min (map key xs) (key s)"
    if "\<forall>x \<in> set xs. ok x" "ok s" for xs s
    using that
  proof (induction xs arbitrary: s)
    case (Cons x xs)
    have "ok (sel s x)" using Cons.prems sel_arg [of s x] by auto
    with Cons obtain r where "fold_res (\<lambda>x m. Inr (sel m x)) xs (sel s x) = Inr r" "r \<in> insert (sel s x) (set xs)"
      "key r = fold min (map key xs) (key (sel s x))" by auto
    then show ?case using Cons.prems sel_arg [of s x] by (auto simp: sel_key min.commute)
  qed simp
  show ?case
  proof (cases "i + w \<le> length data")
    case True
    define v where "v = Load w data i"
    have d: "drop i data = v @ drop (i + w) data"
      by (simp add: v_def Load_def) (metis add.commute append_take_drop_id drop_drop)
    have v: "length v = 2 ^ k" "\<forall>x \<in> set v. ok x"
      using True assms(1,2) by (auto simp: v_def Load_def dest!: in_set_takeD in_set_dropD)
    note red = reduce [OF v, of "key s"]
    define s' where "s' = sel s (reduce_tree red v)"
    have "ok (reduce_tree red v)" using red v(2) by blast
    then have s': "ok s'" "s' \<in> insert s (set v)" "key s' = fold min (map key v) (key s)"
      using red less.prems sel_arg [of s "reduce_tree red v"] by (auto simp: s'_def sel_key)
    have "length data - (i + w) < length data - i" using True pos by simp
    from less.hyps [OF this s'(1)] obtain r where "reduce_kernel sel red w data (i + w) s' = Inr r"
      "r \<in> insert s' (set (drop (i + w) data))" "key r = fold min (map key (drop (i + w) data)) (key s')" by blast
    moreover have "reduce_kernel sel red w data i s = reduce_kernel sel red w data (i + w) s'"
      using True pos by (simp add: reduce_kernel_def block_fold.simps [of w _ _ data i] v_def s'_def)
    ultimately show ?thesis using s'(2,3) by (auto simp: d)
  next
    case False
    have "\<forall>x \<in> set (drop i data). ok x" using assms(2) by (auto dest: in_set_dropD)
    from tail [OF this less.prems] show ?thesis
      using False by (simp add: reduce_kernel_def block_fold.simps [of w _ _ data i])
  qed
qed

lemma kernel_best:
  assumes "w = 2 ^ k" and "\<forall>x \<in> set data. ok x" and "data \<noteq> []"
  shows "\<exists>r. bind_res (nth_res data 0) (reduce_kernel sel red w data 0) = Inr r \<and> r \<in> set data \<and>
    (\<forall>x \<in> set data. key r \<le> key x)"
proof -
  obtain x xs where d: "data = x # xs" using assms(3) by (cases data) auto
  from kernel [OF assms(1,2), of x 0] assms(2) obtain r where
    r: "reduce_kernel sel red w data 0 x = Inr r" "r \<in> set data" "key r = fold min (map key data) (key x)"
    by (auto simp: d)
  have "fold min (map key data) (key x) = Min (set (map key data))"
    unfolding d by (subst list.map, subst Min.set_eq_fold) simp
  then have "\<forall>y \<in> set data. key r \<le> key y" by (simp add: r(3))
  with r show ?thesis by (simp add: d nth_res_def)
qed

end

interpretation fp_min: extremum std_min min_ps fp_key "\<lambda>x. \<not> fp_nan x"
  by unfold_locales (auto simp: std_min_def min_ps_def fp_less_def)

interpretation fp_max: extremum std_max max_ps "\<lambda>x. - fp_key x" "\<lambda>x. \<not> fp_nan x"
  by unfold_locales (auto simp: std_max_def max_ps_def fp_less_def)


section \<open>Facts\<close>

lemma fp_kernel_lanes:
  assumes "length b = length a"
  shows "fp_kernel (map2 op) op w a b = Inr (map2 op a b)"
proof -
  have all: "map_res (\<lambda>(x, y). Inr (op x y)) xs = Inr (map (\<lambda>(x, y). op x y) xs)" for xs
    by (rule map_res_Inr) auto
  have "(\<lambda>w va vb. Inr (map2 op va vb)) = lanes op (\<lambda>x y. Inr (op x y))"
    by (intro ext) (simp add: lanes_def all)
  then show ?thesis
    unfolding fp_kernel_def using binary_scalar [OF assms, of "\<lambda>x y. Inr (op x y)" op "map2 op a b" w] all
    by simp
qed

text \<open>The arithmetic of the integer traits is the one the integer kernels use.\<close>

lemma int_arith_lanes:
  assumes "length a = w" and "length b = w" and "1 < w"
  shows "i_Add (vector_arith w) a b = lanes (+) sadd_res w a b" "i_Sub (vector_arith w) a b = lanes (-) ssub_res w a b"
    "i_Mul (vector_arith w) a b = lanes (*) smul_res w a b"
    "i_Add scalar_arith [x] [y] = lanes (+) sadd_res 1 [x] [y]" "i_Sub scalar_arith [x] [y] = lanes (-) ssub_res 1 [x] [y]"
    "i_Mul scalar_arith [x] [y] = lanes (*) smul_res 1 [x] [y]"
  using assms by (simp_all add: vector_arith_def scalar_arith_def lanes_def one_lane_def)

lemma int_arith_bits:
  assumes "length a = w" and "length b = w"
  shows "i_Not (vector_arith w) a = map NOT a" "i_And (vector_arith w) (i_Not (vector_arith w) a) b = map2 (\<lambda>x y. NOT x AND y) a b"
    "i_Not scalar_arith [x] = map NOT [x]"
proof -
  have n: "map2 (XOR) a (replicate w (- 1)) = map NOT a" using assms(1) by (intro nth_equalityI) simp_all
  then show "i_Not (vector_arith w) a = map NOT a" by (simp add: vector_arith_def)
  show "i_And (vector_arith w) (i_Not (vector_arith w) a) b = map2 (\<lambda>x y. NOT x AND y) a b"
    using assms n by (intro nth_equalityI) (simp_all add: vector_arith_def)
  show "i_Not scalar_arith [x] = map NOT [x]" by (simp add: scalar_arith_def)
qed

text \<open>Sums of integers below \<open>2 ^ 53\<close> are exact in every order of summation.\<close>

lemma sum_abs_append: "\<bar>sum_list is\<bar> \<le> (\<Sum>i\<leftarrow>is. \<bar>i\<bar>)" for "is" :: "int list"
  by (induction "is") auto

lemma reduce_ints:
  assumes "length is = 2 ^ k" and "(\<Sum>i\<leftarrow>is. \<bar>i\<bar>) < 2 ^ 53"
  shows "reduce_tree fp_add (map double_of_int is) = double_of_int (sum_list is)"
  using assms
proof (induction k arbitrary: "is")
  case 0
  then obtain x where "is = [x]" by (auto simp: length_Suc_conv)
  then show ?case by (simp add: reduce_tree.simps)
next
  case (Suc k)
  define l r where "l = take (2 ^ k) is" and "r = drop (2 ^ k) is"
  have len: "length l = 2 ^ k" "length r = 2 ^ k" and v: "is = l @ r" using Suc.prems(1) by (simp_all add: l_def r_def)
  have bound: "(\<Sum>i\<leftarrow>l. \<bar>i\<bar>) + (\<Sum>i\<leftarrow>r. \<bar>i\<bar>) < 2 ^ 53" using Suc.prems(2) by (simp add: v)
  have pos: "0 \<le> (\<Sum>i\<leftarrow>xs. \<bar>i\<bar>)" for xs :: "int list" by (rule sum_list_nonneg) auto
  have small: "\<bar>x\<bar> < 2 ^ 53" if "x \<in> set l \<union> set r" for x
    using that bound member_le_sum_list [of "\<bar>x\<bar>" "map abs l"] member_le_sum_list [of "\<bar>x\<bar>" "map abs r"] pos [of l] pos [of r]
    by fastforce
  have "\<not> length (map double_of_int is) \<le> 1" unfolding length_map Suc.prems(1) by (rule not_power_le_1)
  then have "reduce_tree fp_add (map double_of_int is) = reduce_tree fp_add (map2 fp_add (map double_of_int l) (map double_of_int r))"
    using Suc.prems(1) by (subst reduce_tree.simps) (simp add: l_def r_def Let_def take_map drop_map)
  also have "map2 fp_add (map double_of_int l) (map double_of_int r) = map double_of_int (map2 (+) l r)"
    using len small by (intro nth_equalityI) (simp_all add: fp_add_ints)
  also have "reduce_tree fp_add \<dots> = double_of_int (sum_list (map2 (+) l r))"
  proof (rule Suc.IH)
    have "length l = length r" using len by simp
    then have "(\<Sum>i\<leftarrow>map2 (+) l r. \<bar>i\<bar>) \<le> (\<Sum>i\<leftarrow>l. \<bar>i\<bar>) + (\<Sum>i\<leftarrow>r. \<bar>i\<bar>)"
      by (induction l r rule: list_induct2) (auto intro: order_trans abs_triangle_ineq)
    then show "(\<Sum>i\<leftarrow>map2 (+) l r. \<bar>i\<bar>) < 2 ^ 53" using bound by linarith
  qed (simp add: len)
  also have "sum_list (map2 (+) l r) = sum_list is"
  proof -
    have "length l = length r" using len by simp
    then show ?thesis unfolding v by (induction l r rule: list_induct2) auto
  qed
  finally show ?case .
qed


lemma double_of_int_0: "double_of_int 0 = 0"
  by (simp add: double_of_int_def double_of_units_def mag_of_units_def)

lemma sum_kernel_ints:
  assumes "w = 2 ^ k" and "\<bar>s\<bar> + (\<Sum>i\<leftarrow>drop n is. \<bar>i\<bar>) < 2 ^ 53"
  shows "reduce_kernel fp_add fp_add w (map double_of_int is) n (double_of_int s) =
    Inr (double_of_int (s + sum_list (drop n is)))"
  using assms(2)
proof (induction "length is - n" arbitrary: n s rule: less_induct)
  case less
  have pos: "0 < w" using assms(1) by simp
  have nonneg: "0 \<le> (\<Sum>i\<leftarrow>xs. \<bar>i\<bar>)" for xs :: "int list" by (rule sum_list_nonneg) auto
  have tail: "fold_res (\<lambda>x m. Inr (fp_add m x)) (map double_of_int xs) (double_of_int s) = Inr (double_of_int (s + sum_list xs))"
    if "\<bar>s\<bar> + (\<Sum>i\<leftarrow>xs. \<bar>i\<bar>) < 2 ^ 53" for xs s
    using that
  proof (induction xs arbitrary: s)
    case (Cons x xs)
    have "fp_add (double_of_int s) (double_of_int x) = double_of_int (s + x)"
      using Cons.prems nonneg [of xs] by (intro fp_add_ints) simp_all
    moreover have "\<bar>s + x\<bar> + (\<Sum>i\<leftarrow>xs. \<bar>i\<bar>) < 2 ^ 53" using Cons.prems by simp
    ultimately show ?case using Cons.IH [of "s + x"] by (simp add: add.assoc)
  qed simp
  show ?case
  proof (cases "n + w \<le> length is")
    case True
    define v where "v = take w (drop n is)"
    have d: "drop n is = v @ drop (n + w) is"
      by (simp add: v_def) (metis add.commute append_take_drop_id drop_drop)
    have bound: "\<bar>s\<bar> + (\<Sum>i\<leftarrow>v. \<bar>i\<bar>) + (\<Sum>i\<leftarrow>drop (n + w) is. \<bar>i\<bar>) < 2 ^ 53" using less.prems by (simp add: d)
    have "length v = 2 ^ k" using True assms(1) by (simp add: v_def)
    then have red: "reduce_tree fp_add (map double_of_int v) = double_of_int (sum_list v)"
      using bound nonneg [of "drop (n + w) is"] by (intro reduce_ints) simp_all
    have s': "fp_add (double_of_int s) (double_of_int (sum_list v)) = double_of_int (s + sum_list v)"
      using bound nonneg [of "drop (n + w) is"] nonneg [of v] sum_abs_append [of v] by (intro fp_add_ints) simp_all
    have "length is - (n + w) < length is - n" using True pos by simp
    moreover have "\<bar>s + sum_list v\<bar> + (\<Sum>i\<leftarrow>drop (n + w) is. \<bar>i\<bar>) < 2 ^ 53"
      using bound sum_abs_append [of v] by linarith
    ultimately have "reduce_kernel fp_add fp_add w (map double_of_int is) (n + w) (double_of_int (s + sum_list v)) =
        Inr (double_of_int (s + sum_list v + sum_list (drop (n + w) is)))"
      using less.hyps by blast
    moreover have "Load w (map double_of_int is) n = map double_of_int v" by (simp add: Load_def v_def take_map drop_map)
    moreover have "s + sum_list (drop n is) = s + sum_list v + sum_list (drop (n + w) is)" by (subst d) simp
    ultimately show ?thesis
      using True pos red s' by (simp only: reduce_kernel_def block_fold.simps [of w _ _ _ n]) simp
  next
    case False
    then show ?thesis
      using tail [OF less.prems] by (simp add: reduce_kernel_def block_fold.simps [of w _ _ _ n] drop_map)
  qed
qed

text \<open>A NaN takes the lane it is paired with along: in the AVX-512 build the smallest value of a column
  is lost, in the portable build it is found.\<close>

lemma reduce8:
  "reduce_tree f [a, b, c, d, e, g, h, i] = f (f (f a e) (f c h)) (f (f b g) (f d i))"
  by (simp add: reduce_tree.simps)

lemma min_depends_on_build:
  assumes "fp_nan q" and "fp_less a b"
  shows "VectorOps_Min_fp 8 [b, a, b, b, b, q, b, b] = Inr b" and "VectorOps_Min_fp 1 [b, a, b, b, b, q, b, b] = Inr a"
proof -
  have q: "\<not> fp_less q x" "\<not> fp_less x q" for x using assms(1) by (simp_all add: fp_less_def)
  have ba: "\<not> fp_less b a" using assms(2) fp_less_trans fp_less_irrefl by blast
  show "VectorOps_Min_fp 8 [b, a, b, b, b, q, b, b] = Inr b"
    by (simp add: VectorOps_Min_fp_def nth_res_def reduce_kernel_def block_fold.simps Load_def reduce8 min_ps_def
        std_min_def q ba assms(2))
  show "VectorOps_Min_fp 1 [b, a, b, b, b, q, b, b] = Inr a"
    by (simp add: VectorOps_Min_fp_def nth_res_def reduce_kernel_def block_fold.simps Load_def reduce_tree.simps
        std_min_def q ba assms(2) take_Suc)
qed

section \<open>Properties\<close>

text \<open>C38: the elementwise kernels of floating-point columns do not depend on the vector width: every build computes
  for each row the IEEE sum, difference and product, which for finite operands is a representable number
  nearest to the exact result whenever it does not overflow.\<close>

theorem vector_float_arithmetic:
  fixes a b :: "'a::len word list"
  assumes "length b = length a"
  shows "VectorOps_Add_fp fp_arith w a b = Inr (map2 fp_add a b) \<and>
    VectorOps_Sub_fp fp_arith w a b = Inr (map2 fp_sub a b) \<and>
    VectorOps_Mul_fp fp_arith w a b = Inr (map2 fp_mul a b) \<and>
    (\<forall>(x, y) \<in> set (zip a b). fp_finite x \<and> fp_finite y \<longrightarrow>
      (fp_finite (fp_add x y) \<longrightarrow> nearest_to (fp_add x y) (fp_units x + fp_units y) 1) \<and>
      (fp_finite (fp_sub x y) \<longrightarrow> nearest_to (fp_sub x y) (fp_units x - fp_units y) 1) \<and>
      (fp_finite (fp_mul x y) \<longrightarrow> nearest_to (fp_mul x y) (fp_units x * fp_units y) (2 ^ fp_unit_exp TYPE('a))))"
  using fp_kernel_lanes [OF assms] fp_add_nearest fp_sub_nearest fp_mul_nearest
  by (auto simp: VectorOps_Add_fp_def VectorOps_Sub_fp_def VectorOps_Mul_fp_def fp_arith_def nearest_to_def)

theorem vector_float_arithmetic_witness:
  "VectorOps_Add_fp Arith_Double_avx512 8 [double_of_int 2] [double_of_int 3] = Inr [double_of_int 5]"
  using vector_float_arithmetic [of "[double_of_int 3]" "[double_of_int 2]" 8] fp_add_ints [of 2 3]
  by (simp add: Arith_Double_avx512_def)

text \<open>C39: the reductions of a floating-point column without NaN return, in every build, a smallest and a largest
  element of the column, and the sum of a \<^verbatim>\<open>Double\<close> column of integers is exact while their absolute values add up
  to less than \<open>2 ^ 53\<close>, although the builds add in different orders.\<close>

theorem vector_float_reductions:
  fixes data :: "'a::len word list"
  assumes "w = 2 ^ k" and "data \<noteq> []" and "\<forall>x \<in> set data. \<not> fp_nan x" and "(\<Sum>i\<leftarrow>is. \<bar>i\<bar>) < 2 ^ 53"
  shows "\<exists>mn \<in> set data. \<exists>mx \<in> set data. VectorOps_Min_fp w data = Inr mn \<and> VectorOps_Max_fp w data = Inr mx \<and>
    (\<forall>x \<in> set data. fp_le mn x \<and> fp_le x mx) \<and>
    VectorOps_Sum_fp w (map double_of_int is) = Inr (double_of_int (sum_list is))"
proof -
  obtain mn where "VectorOps_Min_fp w data = Inr mn" "mn \<in> set data" "\<forall>x \<in> set data. fp_key mn \<le> fp_key x"
    using fp_min.kernel_best [OF assms(1,3,2)] by (auto simp: VectorOps_Min_fp_def)
  moreover obtain mx where "VectorOps_Max_fp w data = Inr mx" "mx \<in> set data" "\<forall>x \<in> set data. fp_key x \<le> fp_key mx"
    using fp_max.kernel_best [OF assms(1,3,2)] by (auto simp: VectorOps_Max_fp_def)
  moreover have "VectorOps_Sum_fp w (map double_of_int is) = Inr (double_of_int (sum_list is))"
    using sum_kernel_ints [OF assms(1), of 0 0 "is"] assms(4) by (simp add: VectorOps_Sum_fp_def double_of_int_0)
  ultimately show ?thesis using assms(3) by (metis fp_le_def)
qed

theorem vector_float_reductions_witness:
  "\<exists>mn mx. VectorOps_Min_fp 8 [double_of_int 3, double_of_int 1] = Inr mn \<and> fp_le mn (double_of_int 3) \<and>
    VectorOps_Max_fp 8 [double_of_int 3, double_of_int 1] = Inr mx \<and> fp_le (double_of_int 1) mx \<and>
    VectorOps_Sum_fp 8 (map double_of_int [4, - 6, 5]) = Inr (double_of_int 3)"
proof -
  let ?d = "[double_of_int 3, double_of_int 1]"
  have nan: "\<not> fp_nan (double_of_int 3)" "\<not> fp_nan (double_of_int 1)"
    using double_of_int_exact(1) [of 3] double_of_int_exact(1) [of 1] by (auto simp: fp_finite_classes fp_finite_double [symmetric])
  then have "\<forall>x \<in> set ?d. \<not> fp_nan x" by simp
  from vector_float_reductions [of 8 3 ?d "[4, - 6, 5]", OF _ _ this] show ?thesis by auto
qed

end
