(* ===== verification/SimdWrappers.thy ===== *)
theory SimdWrappers
  imports ArithKernels BloomFilters
begin

text \<open>
  \<^verbatim>\<open>include/simd\<close>: the detection of the processor's features and of the best vector level, and the
  wrappers of the AVX2 and AVX-512 intrinsics. A register is the list of its 32-bit lanes, 8 or 16 of
  them, seen as 64-bit lanes where an intrinsic does so; \<^verbatim>\<open>cpuid\<close> is a parameter. Floating-point lanes
  are bit patterns. Prefetches and memory fences have no effect on values and are left out.
\<close>

section \<open>Feature detection\<close>

datatype SimdLevel = Scalar | SSE2 | SSE42 | AVX | AVX2 | AVX512F | AVX512BW | AVX512VL

fun simd_rank :: "SimdLevel \<Rightarrow> nat" where
  "simd_rank Scalar = 0" | "simd_rank SSE2 = 1" | "simd_rank SSE42 = 2" | "simd_rank AVX = 3"
| "simd_rank AVX2 = 4" | "simd_rank AVX512F = 5" | "simd_rank AVX512BW = 6" | "simd_rank AVX512VL = 7"

lemma simd_rank_inj: "simd_rank a = simd_rank b \<Longrightarrow> a = b"
  by (cases a; cases b) simp_all

instantiation SimdLevel :: linorder
begin

definition less_eq_SimdLevel :: "SimdLevel \<Rightarrow> SimdLevel \<Rightarrow> bool" where
  "less_eq_SimdLevel a b \<longleftrightarrow> simd_rank a \<le> simd_rank b"

definition less_SimdLevel :: "SimdLevel \<Rightarrow> SimdLevel \<Rightarrow> bool" where
  "less_SimdLevel a b \<longleftrightarrow> simd_rank a < simd_rank b"

instance
  by standard (auto simp: less_eq_SimdLevel_def less_SimdLevel_def intro: simd_rank_inj)

end

record CpuFeatures =
  f_sse2 :: bool
  f_sse3 :: bool
  f_ssse3 :: bool
  f_sse41 :: bool
  f_sse42 :: bool
  f_avx :: bool
  f_avx2 :: bool
  f_fma :: bool
  f_avx512f :: bool
  f_avx512bw :: bool
  f_avx512vl :: bool
  f_avx512dq :: bool
  f_avx512cd :: bool
  f_bmi1 :: bool
  f_bmi2 :: bool
  f_lzcnt :: bool
  f_popcnt :: bool

definition CpuFeatures_default :: CpuFeatures where
  "CpuFeatures_default =
     \<lparr>f_sse2 = False, f_sse3 = False, f_ssse3 = False, f_sse41 = False, f_sse42 = False, f_avx = False,
      f_avx2 = False, f_fma = False, f_avx512f = False, f_avx512bw = False, f_avx512vl = False,
      f_avx512dq = False, f_avx512cd = False, f_bmi1 = False, f_bmi2 = False, f_lzcnt = False, f_popcnt = False\<rparr>"

text \<open>\<open>cpuid leaf subleaf\<close> gives the registers EAX, EBX, ECX and EDX, or \<open>None\<close> for a leaf the processor
  does not have. The result of the first call is not tested: without leaf 1 the code reads registers that
  were never written.\<close>

type_synonym cpuid = "u32 \<Rightarrow> u32 \<Rightarrow> (u32 \<times> u32 \<times> u32 \<times> u32) option"

definition DetectCpuFeatures :: "cpuid \<Rightarrow> CpuFeatures res" where
  "DetectCpuFeatures cpuid =
     (case cpuid 1 0 of
        None \<Rightarrow> Inl Unmodelled
      | Some (eax, ebx, ecx, edx) \<Rightarrow>
          (let f = CpuFeatures_default\<lparr>f_sse2 := bit edx 26, f_sse3 := bit ecx 0, f_ssse3 := bit ecx 9,
                     f_sse41 := bit ecx 19, f_sse42 := bit ecx 20, f_avx := bit ecx 28, f_popcnt := bit ecx 23\<rparr>
           in Inr (case cpuid 7 0 of
                None \<Rightarrow> f
              | Some (eax, ebx, ecx, edx) \<Rightarrow>
                  f\<lparr>f_avx2 := bit ebx 5, f_fma := bit ebx 12, f_bmi1 := bit ebx 3, f_bmi2 := bit ebx 8,
                    f_avx512f := bit ebx 16, f_avx512bw := bit ebx 30, f_avx512vl := bit ebx 31,
                    f_avx512dq := bit ebx 17, f_avx512cd := bit ebx 28, f_lzcnt := bit ecx 5\<rparr>)))"

text \<open>The static cache is passed and returned; a cached \<^verbatim>\<open>Scalar\<close> means that nothing is cached.\<close>

definition GetBestSimdLevel :: "cpuid \<Rightarrow> SimdLevel \<Rightarrow> (SimdLevel \<times> SimdLevel) res" where
  "GetBestSimdLevel cpuid cached =
     (if cached \<noteq> Scalar then Inr (cached, cached)
      else bind_res (DetectCpuFeatures cpuid) (\<lambda>f.
        let level = (if f_avx512f f \<and> f_avx512bw f \<and> f_avx512vl f then AVX512VL
                     else if f_avx512f f \<and> f_avx512bw f then AVX512BW
                     else if f_avx512f f then AVX512F
                     else if f_avx2 f then AVX2
                     else if f_avx f then AVX
                     else if f_sse42 f then SSE42
                     else if f_sse2 f then SSE2 else cached)
        in Inr (level, level)))"

section \<open>Registers\<close>

fun lanes64 :: "u32 list \<Rightarrow> u64 list" where
  "lanes64 (lo # hi # v) = (ucast lo OR push_bit 32 (ucast hi)) # lanes64 v"
| "lanes64 _ = []"

definition lanes32 :: "u64 list \<Rightarrow> u32 list" where
  "lanes32 ws = concat (map (\<lambda>w. [ucast w, ucast (drop_bit 32 w)]) ws)"

definition lanewise64 :: "(u64 \<Rightarrow> u64 \<Rightarrow> u64) \<Rightarrow> u32 list \<Rightarrow> u32 list \<Rightarrow> u32 list" where
  "lanewise64 f a b = lanes32 (map2 f (lanes64 a) (lanes64 b))"

text \<open>The groups of 128 bits many intrinsics work in.\<close>

fun groups :: "u32 list \<Rightarrow> u32 list list" where
  "groups (a # b # c # d # v) = [a, b, c, d] # groups v"
| "groups _ = []"

definition flag :: "bool \<Rightarrow> 'a::len word" where
  "flag b = (if b then - 1 else 0)"

definition movemask_epi8 :: "u32 list \<Rightarrow> u32" where
  "movemask_epi8 v = horner_sum of_bool 2 (concat (map (\<lambda>w. [bit w 7, bit w 15, bit w 23, bit w 31]) v))"

definition movemask_ps :: "'a::len word list \<Rightarrow> u32" where
  "movemask_ps v = horner_sum of_bool 2 (map (\<lambda>w. bit w (LENGTH('a) - 1)) v)"

definition bool_mask :: "bool list \<Rightarrow> u32" where
  "bool_mask bs = horner_sum of_bool 2 bs"

text \<open>Unaligned loads and stores of a whole register.\<close>

definition load_lanes32 :: "nat \<Rightarrow> u32 list \<Rightarrow> u32 list res" where
  "load_lanes32 n src = (if n \<le> length src then Inr (take n src) else Inl OutOfBounds)"

definition store_lanes32 :: "nat \<Rightarrow> u32 list \<Rightarrow> u32 list \<Rightarrow> u32 list res" where
  "store_lanes32 n dst v = (if n \<le> length dst then Inr (v @ drop n dst) else Inl OutOfBounds)"

section \<open>AVX2\<close>

definition avx2_Load :: "u32 list \<Rightarrow> u32 list res" where
  "avx2_Load = load_lanes32 8"

definition avx2_Store :: "u32 list \<Rightarrow> u32 list \<Rightarrow> u32 list res" where
  "avx2_Store = store_lanes32 8"

definition avx2_Set1 :: "u32 \<Rightarrow> u32 list" where
  "avx2_Set1 v = replicate 8 v"

definition avx2_Set1_64 :: "u64 \<Rightarrow> u32 list" where
  "avx2_Set1_64 v = lanes32 (replicate 4 v)"

definition avx2_compare :: "(u32 \<Rightarrow> u32 \<Rightarrow> bool) \<Rightarrow> u32 list \<Rightarrow> u32 list \<Rightarrow> u32" where
  "avx2_compare f a b = movemask_epi8 (map2 (\<lambda>x y. flag (f x y)) a b)"

definition avx2_CmpEq :: "u32 list \<Rightarrow> u32 list \<Rightarrow> u32" where
  "avx2_CmpEq = avx2_compare (=)"

definition avx2_CmpEq64 :: "u32 list \<Rightarrow> u32 list \<Rightarrow> u32" where
  "avx2_CmpEq64 a b = movemask_epi8 (lanewise64 (\<lambda>x y. flag (x = y)) a b)"

definition avx2_CmpEqPs :: "u32 list \<Rightarrow> u32 list \<Rightarrow> u32" where
  "avx2_CmpEqPs a b = movemask_ps (map2 (\<lambda>x y. flag (fp_eq x y) :: u32) a b)"

definition avx2_CmpEqPd :: "u64 list \<Rightarrow> u64 list \<Rightarrow> u32" where
  "avx2_CmpEqPd a b = movemask_ps (map2 (\<lambda>x y. flag (fp_eq x y) :: u64) a b)"

definition avx2_CmpLt :: "u32 list \<Rightarrow> u32 list \<Rightarrow> u32" where
  "avx2_CmpLt = avx2_compare (<s)"

definition avx2_CmpLt64 :: "u32 list \<Rightarrow> u32 list \<Rightarrow> u32" where
  "avx2_CmpLt64 a b = movemask_epi8 (lanewise64 (\<lambda>x y. flag (x <s y)) a b)"

definition avx2_CmpLtPs :: "u32 list \<Rightarrow> u32 list \<Rightarrow> u32" where
  "avx2_CmpLtPs a b = movemask_ps (map2 (\<lambda>x y. flag (fp_less x y) :: u32) a b)"

definition avx2_CmpLtPd :: "u64 list \<Rightarrow> u64 list \<Rightarrow> u32" where
  "avx2_CmpLtPd a b = movemask_ps (map2 (\<lambda>x y. flag (fp_less x y) :: u64) a b)"

text \<open>The difference is compared with zero.\<close>

definition avx2_CmpLe :: "u32 list \<Rightarrow> u32 list \<Rightarrow> u32" where
  "avx2_CmpLe = avx2_compare (\<lambda>x y. 0 <s y - x)"

definition avx2_CmpLePs :: "u32 list \<Rightarrow> u32 list \<Rightarrow> u32" where
  "avx2_CmpLePs a b = movemask_ps (map2 (\<lambda>x y. flag (fp_le x y) :: u32) a b)"

definition avx2_CmpLePd :: "u64 list \<Rightarrow> u64 list \<Rightarrow> u32" where
  "avx2_CmpLePd a b = movemask_ps (map2 (\<lambda>x y. flag (fp_le x y) :: u64) a b)"

definition avx2_Add :: "u32 list \<Rightarrow> u32 list \<Rightarrow> u32 list" where
  "avx2_Add a b = map2 (+) a b"

definition avx2_Add64 :: "u32 list \<Rightarrow> u32 list \<Rightarrow> u32 list" where
  "avx2_Add64 = lanewise64 (+)"

definition avx2_Sub :: "u32 list \<Rightarrow> u32 list \<Rightarrow> u32 list" where
  "avx2_Sub a b = map2 (-) a b"

definition avx2_Sub64 :: "u32 list \<Rightarrow> u32 list \<Rightarrow> u32 list" where
  "avx2_Sub64 = lanewise64 (-)"

definition avx2_Mul :: "u32 list \<Rightarrow> u32 list \<Rightarrow> u32 list" where
  "avx2_Mul a b = map2 (*) a b"

definition avx2_And :: "u32 list \<Rightarrow> u32 list \<Rightarrow> u32 list" where
  "avx2_And a b = map2 (AND) a b"

definition avx2_Or :: "u32 list \<Rightarrow> u32 list \<Rightarrow> u32 list" where
  "avx2_Or a b = map2 (OR) a b"

definition avx2_Xor :: "u32 list \<Rightarrow> u32 list \<Rightarrow> u32 list" where
  "avx2_Xor a b = map2 (XOR) a b"

definition avx2_Not :: "u32 list \<Rightarrow> u32 list" where
  "avx2_Not a = map (\<lambda>x. x XOR - 1) a"

text \<open>Lane \<open>j\<close> of a group is the lane two bits of the immediate name.\<close>

definition shuffle_group :: "nat \<Rightarrow> u32 list \<Rightarrow> u32 list" where
  "shuffle_group imm g = map (\<lambda>j. g ! (imm div 4 ^ j mod 4)) [0..<4]"

definition avx2_Shuffle :: "u32 list \<Rightarrow> nat \<Rightarrow> u32 list" where
  "avx2_Shuffle a imm = concat (map (shuffle_group imm) (groups a))"

definition avx2_Permute :: "u32 list \<Rightarrow> u32 list \<Rightarrow> u32 list" where
  "avx2_Permute a idx = map (\<lambda>k. a ! unat (k AND 7)) idx"

definition avx2_Blend :: "u32 list \<Rightarrow> u32 list \<Rightarrow> nat \<Rightarrow> u32 list" where
  "avx2_Blend a b m = map (\<lambda>i. if bit m i then b ! i else a ! i) [0..<8]"

definition byte_mask :: "u32 \<Rightarrow> u32" where
  "byte_mask m = word_of_bytes (map (\<lambda>b. flag (bit b 7)) (bytes_of m))"

definition avx2_Blendv :: "u32 list \<Rightarrow> u32 list \<Rightarrow> u32 list \<Rightarrow> u32 list" where
  "avx2_Blendv a b m = map (\<lambda>i. let k = byte_mask (m ! i) in (a ! i AND NOT k) OR (b ! i AND k)) [0..<8]"

definition avx2_Slli :: "u32 list \<Rightarrow> nat \<Rightarrow> u32 list" where
  "avx2_Slli a shift = map (push_bit shift) a"

definition avx2_Srli :: "u32 list \<Rightarrow> nat \<Rightarrow> u32 list" where
  "avx2_Srli a shift = map (drop_bit shift) a"

definition avx2_Srai :: "u32 list \<Rightarrow> nat \<Rightarrow> u32 list" where
  "avx2_Srai a shift = map (signed_drop_bit shift) a"

text \<open>Packing to 16 bits with saturation interleaves the groups of the operands.\<close>

definition saturate :: "int \<Rightarrow> int \<Rightarrow> u32 \<Rightarrow> u32" where
  "saturate lo hi x = word_of_int (max lo (min hi (sint x))) AND 0xFFFF"

fun pairs16 :: "u32 list \<Rightarrow> u32 list" where
  "pairs16 (lo # hi # v) = (lo OR push_bit 16 hi) # pairs16 v"
| "pairs16 _ = []"

definition pack_groups :: "(u32 \<Rightarrow> u32) \<Rightarrow> u32 list \<Rightarrow> u32 list \<Rightarrow> u32 list" where
  "pack_groups sat a b = concat (map2 (\<lambda>g h. pairs16 (map sat (g @ h))) (groups a) (groups b))"

definition avx2_Packus :: "u32 list \<Rightarrow> u32 list \<Rightarrow> u32 list" where
  "avx2_Packus = pack_groups (saturate 0 65535)"

definition avx2_Packss :: "u32 list \<Rightarrow> u32 list \<Rightarrow> u32 list" where
  "avx2_Packss = pack_groups (saturate (- 32768) 32767)"

definition avx2_PopCount :: "u32 \<Rightarrow> nat" where
  "avx2_PopCount m = popcount m"

definition avx2_PopCount64 :: "u64 \<Rightarrow> nat" where
  "avx2_PopCount64 m = popcount m"

text \<open>Only the selected elements of the memory are accessed.\<close>

definition avx2_MaskLoad :: "u32 list \<Rightarrow> u32 \<Rightarrow> u32 list res" where
  "avx2_MaskLoad src m = map_res (\<lambda>i. if bit m i then nth_res src i else Inr 0) [0..<8]"

definition avx2_MaskStore :: "u32 list \<Rightarrow> u32 \<Rightarrow> u32 list \<Rightarrow> u32 list res" where
  "avx2_MaskStore dst m v =
     fold_res (\<lambda>i dst. if bit m i then (if i < length dst then Inr (dst[i := v ! i]) else Inl OutOfBounds) else Inr dst)
       [0..<8] dst"

text \<open>\<^verbatim>\<open>_mm256_slli_si256\<close> shifts each group by whole bytes, here multiples of four.\<close>

definition slli_si256 :: "u32 list \<Rightarrow> nat \<Rightarrow> u32 list" where
  "slli_si256 v n = concat (map (\<lambda>g. take 4 (replicate (n div 4) 0 @ g)) (groups v))"

definition avx2_PrefixSum :: "u32 list \<Rightarrow> u32 list" where
  "avx2_PrefixSum v0 =
     (let v1 = avx2_Add v0 (slli_si256 v0 4);
          v2 = avx2_Add v1 (slli_si256 v1 8)
      in avx2_Add v2 (slli_si256 v2 16))"

definition shuffle_bytes :: "byte list \<Rightarrow> byte list \<Rightarrow> byte list" where
  "shuffle_bytes bs idx = map (\<lambda>k. if bit k 7 then 0 else bs ! unat (k AND 15)) idx"

definition avx2_ShuffleEpi8 :: "u32 list \<Rightarrow> u32 list \<Rightarrow> u32 list" where
  "avx2_ShuffleEpi8 a idx =
     concat (map2 (\<lambda>g k. let bs = shuffle_bytes (bytes_of_array g) (bytes_of_array k)
                       in map (\<lambda>j. word_of_bytes (take 4 (drop (4 * j) bs))) [0..<4]) (groups a) (groups idx))"

section \<open>AVX-512\<close>

definition avx512_Load :: "u32 list \<Rightarrow> u32 list res" where
  "avx512_Load = load_lanes32 16"

definition avx512_Store :: "u32 list \<Rightarrow> u32 list \<Rightarrow> u32 list res" where
  "avx512_Store = store_lanes32 16"

definition avx512_Set1 :: "u32 \<Rightarrow> u32 list" where
  "avx512_Set1 v = replicate 16 v"

definition avx512_Set1_64 :: "u64 \<Rightarrow> u32 list" where
  "avx512_Set1_64 v = lanes32 (replicate 8 v)"

definition avx512_CmpEq :: "u32 list \<Rightarrow> u32 list \<Rightarrow> u32" where
  "avx512_CmpEq = lane_mask (=)"

definition avx512_CmpEq64 :: "u32 list \<Rightarrow> u32 list \<Rightarrow> u32" where
  "avx512_CmpEq64 a b = lane_mask (=) (lanes64 a) (lanes64 b)"

definition avx512_CmpEqPs :: "u32 list \<Rightarrow> u32 list \<Rightarrow> u32" where
  "avx512_CmpEqPs = lane_mask fp_eq"

definition avx512_CmpEqPd :: "u64 list \<Rightarrow> u64 list \<Rightarrow> u32" where
  "avx512_CmpEqPd = lane_mask fp_eq"

definition avx512_CmpLt :: "u32 list \<Rightarrow> u32 list \<Rightarrow> u32" where
  "avx512_CmpLt = lane_mask (<s)"

definition avx512_CmpLt64 :: "u32 list \<Rightarrow> u32 list \<Rightarrow> u32" where
  "avx512_CmpLt64 a b = lane_mask (<s) (lanes64 a) (lanes64 b)"

definition avx512_CmpLtPs :: "u32 list \<Rightarrow> u32 list \<Rightarrow> u32" where
  "avx512_CmpLtPs = lane_mask fp_less"

definition avx512_CmpLtPd :: "u64 list \<Rightarrow> u64 list \<Rightarrow> u32" where
  "avx512_CmpLtPd = lane_mask fp_less"

definition avx512_CmpLe :: "u32 list \<Rightarrow> u32 list \<Rightarrow> u32" where
  "avx512_CmpLe = lane_mask (\<le>s)"

definition avx512_CmpLe64 :: "u32 list \<Rightarrow> u32 list \<Rightarrow> u32" where
  "avx512_CmpLe64 a b = lane_mask (\<le>s) (lanes64 a) (lanes64 b)"

definition avx512_CmpLePs :: "u32 list \<Rightarrow> u32 list \<Rightarrow> u32" where
  "avx512_CmpLePs = lane_mask fp_le"

definition avx512_CmpLePd :: "u64 list \<Rightarrow> u64 list \<Rightarrow> u32" where
  "avx512_CmpLePd = lane_mask fp_le"

definition avx512_Add :: "u32 list \<Rightarrow> u32 list \<Rightarrow> u32 list" where
  "avx512_Add a b = map2 (+) a b"

definition avx512_Add64 :: "u32 list \<Rightarrow> u32 list \<Rightarrow> u32 list" where
  "avx512_Add64 = lanewise64 (+)"

definition avx512_Sub :: "u32 list \<Rightarrow> u32 list \<Rightarrow> u32 list" where
  "avx512_Sub a b = map2 (-) a b"

definition avx512_Sub64 :: "u32 list \<Rightarrow> u32 list \<Rightarrow> u32 list" where
  "avx512_Sub64 = lanewise64 (-)"

definition avx512_Mul :: "u32 list \<Rightarrow> u32 list \<Rightarrow> u32 list" where
  "avx512_Mul a b = map2 (*) a b"

definition avx512_Mul64 :: "u32 list \<Rightarrow> u32 list \<Rightarrow> u32 list" where
  "avx512_Mul64 = lanewise64 (*)"

definition avx512_And :: "u32 list \<Rightarrow> u32 list \<Rightarrow> u32 list" where
  "avx512_And a b = map2 (AND) a b"

definition avx512_Or :: "u32 list \<Rightarrow> u32 list \<Rightarrow> u32 list" where
  "avx512_Or a b = map2 (OR) a b"

definition avx512_Xor :: "u32 list \<Rightarrow> u32 list \<Rightarrow> u32 list" where
  "avx512_Xor a b = map2 (XOR) a b"

text \<open>Bit \<open>k\<close> of the ternary operation is the bit of the immediate that the three operand bits select.\<close>

definition ternary_bits :: "nat \<Rightarrow> u32 \<Rightarrow> u32 \<Rightarrow> u32 \<Rightarrow> u32" where
  "ternary_bits imm x y z =
     horner_sum of_bool 2 (map (\<lambda>k. bit imm (4 * of_bool (bit x k) + 2 * of_bool (bit y k) + of_bool (bit z k))) [0..<32])"

definition avx512_TernaryLogic :: "u32 list \<Rightarrow> u32 list \<Rightarrow> u32 list \<Rightarrow> nat \<Rightarrow> u32 list" where
  "avx512_TernaryLogic a b c imm = map (\<lambda>(x, y, z). ternary_bits imm x y z) (zip a (zip b c))"

definition avx512_Not :: "u32 list \<Rightarrow> u32 list" where
  "avx512_Not a = avx512_TernaryLogic a (replicate 16 (- 1)) (replicate 16 0) 0x96"

definition avx512_Shuffle :: "u32 list \<Rightarrow> nat \<Rightarrow> u32 list" where
  "avx512_Shuffle a imm = concat (map (shuffle_group imm) (groups a))"

definition avx512_Permute :: "u32 list \<Rightarrow> u32 list \<Rightarrow> u32 list" where
  "avx512_Permute a idx = map (\<lambda>k. a ! unat (k AND 15)) idx"

definition avx512_Blend :: "u32 list \<Rightarrow> u32 list \<Rightarrow> u32 \<Rightarrow> u32 list" where
  "avx512_Blend a b m = map (\<lambda>i. if bit m i then b ! i else a ! i) [0..<16]"

definition avx512_Slli :: "u32 list \<Rightarrow> nat \<Rightarrow> u32 list" where
  "avx512_Slli a shift = map (push_bit shift) a"

definition avx512_Srli :: "u32 list \<Rightarrow> nat \<Rightarrow> u32 list" where
  "avx512_Srli a shift = map (drop_bit shift) a"

definition avx512_Srai :: "u32 list \<Rightarrow> nat \<Rightarrow> u32 list" where
  "avx512_Srai a shift = map (signed_drop_bit shift) a"

definition avx512_Packus :: "u32 list \<Rightarrow> u32 list \<Rightarrow> u32 list" where
  "avx512_Packus = pack_groups (saturate 0 65535)"

definition avx512_Packss :: "u32 list \<Rightarrow> u32 list \<Rightarrow> u32 list" where
  "avx512_Packss = pack_groups (saturate (- 32768) 32767)"

definition avx512_PopCount :: "'a::len word \<Rightarrow> nat" where
  "avx512_PopCount m = popcount m"

definition avx512_MaskzLoad :: "u32 list \<Rightarrow> u32 \<Rightarrow> u32 list res" where
  "avx512_MaskzLoad src m = map_res (\<lambda>i. if bit m i then nth_res src i else Inr 0) [0..<16]"

definition avx512_MaskStore :: "u32 list \<Rightarrow> u32 \<Rightarrow> u32 list \<Rightarrow> u32 list res" where
  "avx512_MaskStore dst m v =
     fold_res (\<lambda>i dst. if bit m i then (if i < length dst then Inr (dst[i := v ! i]) else Inl OutOfBounds) else Inr dst)
       [0..<16] dst"

definition avx512_Compress :: "u32 list \<Rightarrow> u32 \<Rightarrow> u32 list" where
  "avx512_Compress a m =
     (let picked = map (\<lambda>i. a ! i) (filter (bit m) [0..<16])
      in picked @ replicate (16 - length picked) 0)"

definition avx512_Expand :: "u32 list \<Rightarrow> u32 \<Rightarrow> u32 list" where
  "avx512_Expand a m = map (\<lambda>i. if bit m i then a ! length (filter (bit m) [0..<i]) else 0) [0..<16]"

text \<open>The conflict detections store half of the register into an array that is otherwise not initialised and
  then read all of it; an element found equal to an earlier one gets the bit of the first such element.\<close>

definition read_init :: "'a list \<Rightarrow> nat \<Rightarrow> 'a res" where
  "read_init tmp i = (if i < length tmp then Inr (tmp ! i) else Inl Unmodelled)"

fun first_equal :: "'a list \<Rightarrow> nat \<Rightarrow> nat list \<Rightarrow> nat option res" where
  "first_equal tmp i [] = Inr None"
| "first_equal tmp i (j # js) =
     bind_res (read_init tmp i) (\<lambda>x. bind_res (read_init tmp j) (\<lambda>y.
       if x = y then Inr (Some j) else first_equal tmp i js))"

definition conflicts :: "nat \<Rightarrow> 'b::len word list \<Rightarrow> 'b word list res" where
  "conflicts n tmp = map_res (\<lambda>i. bind_res (first_equal tmp i [0..<i])
     (\<lambda>r. Inr (case r of None \<Rightarrow> 0 | Some j \<Rightarrow> push_bit j 1))) [0..<n]"

definition avx512_ConflictDetect :: "u32 list \<Rightarrow> u32 list res" where
  "avx512_ConflictDetect a = conflicts 16 (take 8 a)"

definition avx512_ConflictDetect64 :: "u32 list \<Rightarrow> u64 list res" where
  "avx512_ConflictDetect64 a = conflicts 8 (lanes64 (take 8 a))"

text \<open>The prefix sums shift the bits of the 64-bit lanes, by 4, 8, 16 and 32 (8, 16 and 32) bits.\<close>

definition avx512_PrefixSum :: "u32 list \<Rightarrow> u32 list" where
  "avx512_PrefixSum v0 = fold (\<lambda>i v. avx512_Add v (lanes32 (map (push_bit i) (lanes64 v)))) [4, 8, 16, 32] v0"

definition avx512_PrefixSum64 :: "u32 list \<Rightarrow> u32 list" where
  "avx512_PrefixSum64 v0 = fold (\<lambda>i v. avx512_Add64 v (lanes32 (map (push_bit i) (lanes64 v)))) [8, 16, 32] v0"

definition avx512_ShuffleEpi8 :: "u32 list \<Rightarrow> u32 list \<Rightarrow> u32 list" where
  "avx512_ShuffleEpi8 = avx2_ShuffleEpi8"

definition avx512_Broadcast :: "u32 \<Rightarrow> u32 list" where
  "avx512_Broadcast v = replicate 16 v"

definition avx512_InsertInt :: "u32 list \<Rightarrow> u32 \<Rightarrow> nat \<Rightarrow> u32 list res" where
  "avx512_InsertInt a v idx =
     (if idx \<ge> 32 then Inl ShiftTooWide else Inr (if idx < 16 then a[idx := v] else a))"

definition avx512_InsertInt64 :: "u32 list \<Rightarrow> u64 \<Rightarrow> nat \<Rightarrow> u32 list res" where
  "avx512_InsertInt64 a v idx =
     (if idx \<ge> 32 then Inl ShiftTooWide else Inr (if idx < 8 then lanes32 ((lanes64 a)[idx := v]) else a))"

definition avx512_ExtractInt :: "u32 list \<Rightarrow> nat \<Rightarrow> u32 res" where
  "avx512_ExtractInt a idx = nth_res (take 8 a) idx"

definition avx512_ExtractInt64 :: "u32 list \<Rightarrow> nat \<Rightarrow> u64 res" where
  "avx512_ExtractInt64 a idx = nth_res (lanes64 (take 8 a)) idx"

definition avx512_ReduceAdd :: "u32 list \<Rightarrow> u32 list" where
  "avx512_ReduceAdd v0 =
     (let v1 = avx512_Add v0 (avx512_Shuffle v0 0xEE) in avx512_Add v1 (avx512_Shuffle v1 0x11))"

definition avx512_ReduceMin :: "u32 list \<Rightarrow> u32" where
  "avx512_ReduceMin v = fold smin (tl v) (hd v)"

definition avx512_ReduceMax :: "u32 list \<Rightarrow> u32" where
  "avx512_ReduceMax v = fold smax (tl v) (hd v)"

definition avx512_ReduceMin64 :: "u32 list \<Rightarrow> u64" where
  "avx512_ReduceMin64 v = fold smin (tl (lanes64 v)) (hd (lanes64 v))"

definition avx512_ReduceMax64 :: "u32 list \<Rightarrow> u64" where
  "avx512_ReduceMax64 v = fold smax (tl (lanes64 v)) (hd (lanes64 v))"

definition avx512_Abs :: "u32 list \<Rightarrow> u32 list" where
  "avx512_Abs v = map (\<lambda>x. if x <s 0 then - x else x) v"

definition avx512_Abs64 :: "u32 list \<Rightarrow> u32 list" where
  "avx512_Abs64 v = lanes32 (map (\<lambda>x. if x <s 0 then - x else x) (lanes64 v))"

text \<open>The mask of the floating-point variants is the number \<^verbatim>\<open>0x7fffffff\<close> converted to \<^verbatim>\<open>float\<close>, that is \<open>2 ^ 31\<close>,
  and \<^verbatim>\<open>0x7fffffffffffffff\<close> converted to \<^verbatim>\<open>double\<close>, that is \<open>2 ^ 63\<close>.\<close>

definition avx512_AbsPs :: "u32 list \<Rightarrow> u32 list" where
  "avx512_AbsPs v = map (\<lambda>x. x AND 0x4F000000) v"

definition avx512_AbsPd :: "u64 list \<Rightarrow> u64 list" where
  "avx512_AbsPd v = map (\<lambda>x. x AND 0x43E0000000000000) v"

definition avx512_Max :: "u32 list \<Rightarrow> u32 list \<Rightarrow> u32 list" where
  "avx512_Max a b = map2 smax a b"

definition avx512_Min :: "u32 list \<Rightarrow> u32 list \<Rightarrow> u32 list" where
  "avx512_Min a b = map2 smin a b"

text \<open>The floating-point minimum and maximum return the second operand unless the first is strictly better.\<close>

definition avx512_MaxFp :: "'a::len word list \<Rightarrow> 'a word list \<Rightarrow> 'a word list" where
  "avx512_MaxFp a b = map2 (\<lambda>x y. if fp_less y x then x else y) a b"

definition avx512_MinFp :: "'a::len word list \<Rightarrow> 'a word list \<Rightarrow> 'a word list" where
  "avx512_MinFp a b = map2 (\<lambda>x y. if fp_less x y then x else y) a b"

definition avx512_SubSaturate :: "u32 list \<Rightarrow> u32 list \<Rightarrow> u32 list" where
  "avx512_SubSaturate a b = map2 (-) a b"

definition avx512_AddSaturate :: "u32 list \<Rightarrow> u32 list \<Rightarrow> u32 list" where
  "avx512_AddSaturate a b = map2 (+) a b"

definition avx512_MulHi :: "u32 list \<Rightarrow> u32 list \<Rightarrow> u32 list" where
  "avx512_MulHi a b = map2 (*) a b"

text \<open>The products of the low halves of the lower four 64-bit lanes; the upper half of the result is undefined,
  here the parameter \<open>upper\<close>.\<close>

definition avx512_MulHi64 :: "u64 list \<Rightarrow> u32 list \<Rightarrow> u32 list \<Rightarrow> u32 list" where
  "avx512_MulHi64 upper a b =
     lanes32 (map2 (\<lambda>x y. (x AND 0xFFFFFFFF) * (y AND 0xFFFFFFFF)) (lanes64 (take 8 a)) (lanes64 (take 8 b)) @ upper)"

text \<open>A variable shift by 32 or more gives zero, or the sign for the arithmetic shift.\<close>

definition avx512_ShiftLeft :: "u32 list \<Rightarrow> u32 list \<Rightarrow> u32 list" where
  "avx512_ShiftLeft a count = map2 (\<lambda>x n. push_bit (unat n) x) a count"

definition avx512_ShiftRight :: "u32 list \<Rightarrow> u32 list \<Rightarrow> u32 list" where
  "avx512_ShiftRight a count = map2 (\<lambda>x n. drop_bit (unat n) x) a count"

definition avx512_ShiftRightArith :: "u32 list \<Rightarrow> u32 list \<Rightarrow> u32 list" where
  "avx512_ShiftRightArith a count = map2 (\<lambda>x n. signed_drop_bit (unat n) x) a count"

section \<open>Floating-point wrappers\<close>

definition load_reg :: "nat \<Rightarrow> 'v list \<Rightarrow> 'v list res" where
  "load_reg n src = (if n \<le> length src then Inr (take n src) else Inl OutOfBounds)"

definition store_reg :: "nat \<Rightarrow> 'v list \<Rightarrow> 'v list \<Rightarrow> 'v list res" where
  "store_reg n dst v = (if n \<le> length dst then Inr (v @ drop n dst) else Inl OutOfBounds)"

definition avx2_LoadPs :: "u32 list \<Rightarrow> u32 list res" where "avx2_LoadPs = load_reg 8"
definition avx2_StorePs :: "u32 list \<Rightarrow> u32 list \<Rightarrow> u32 list res" where "avx2_StorePs = store_reg 8"
definition avx2_LoadPd :: "u64 list \<Rightarrow> u64 list res" where "avx2_LoadPd = load_reg 4"
definition avx2_StorePd :: "u64 list \<Rightarrow> u64 list \<Rightarrow> u64 list res" where "avx2_StorePd = store_reg 4"
definition avx2_Set1Ps :: "u32 \<Rightarrow> u32 list" where "avx2_Set1Ps = replicate 8"
definition avx2_Set1Pd :: "u64 \<Rightarrow> u64 list" where "avx2_Set1Pd = replicate 4"
definition avx2_AddPs :: "u32 list \<Rightarrow> u32 list \<Rightarrow> u32 list" where "avx2_AddPs = map2 fp_add"
definition avx2_AddPd :: "u64 list \<Rightarrow> u64 list \<Rightarrow> u64 list" where "avx2_AddPd = map2 fp_add"
definition avx2_SubPs :: "u32 list \<Rightarrow> u32 list \<Rightarrow> u32 list" where "avx2_SubPs = map2 fp_sub"
definition avx2_SubPd :: "u64 list \<Rightarrow> u64 list \<Rightarrow> u64 list" where "avx2_SubPd = map2 fp_sub"
definition avx2_MulPs :: "u32 list \<Rightarrow> u32 list \<Rightarrow> u32 list" where "avx2_MulPs = map2 fp_mul"
definition avx2_MulPd :: "u64 list \<Rightarrow> u64 list \<Rightarrow> u64 list" where "avx2_MulPd = map2 fp_mul"

definition avx512_LoadPs :: "u32 list \<Rightarrow> u32 list res" where "avx512_LoadPs = load_reg 16"
definition avx512_StorePs :: "u32 list \<Rightarrow> u32 list \<Rightarrow> u32 list res" where "avx512_StorePs = store_reg 16"
definition avx512_LoadPd :: "u64 list \<Rightarrow> u64 list res" where "avx512_LoadPd = load_reg 8"
definition avx512_StorePd :: "u64 list \<Rightarrow> u64 list \<Rightarrow> u64 list res" where "avx512_StorePd = store_reg 8"
definition avx512_Set1Ps :: "u32 \<Rightarrow> u32 list" where "avx512_Set1Ps = replicate 16"
definition avx512_Set1Pd :: "u64 \<Rightarrow> u64 list" where "avx512_Set1Pd = replicate 8"
definition avx512_AddPs :: "u32 list \<Rightarrow> u32 list \<Rightarrow> u32 list" where "avx512_AddPs = map2 fp_add"
definition avx512_AddPd :: "u64 list \<Rightarrow> u64 list \<Rightarrow> u64 list" where "avx512_AddPd = map2 fp_add"
definition avx512_SubPs :: "u32 list \<Rightarrow> u32 list \<Rightarrow> u32 list" where "avx512_SubPs = map2 fp_sub"
definition avx512_SubPd :: "u64 list \<Rightarrow> u64 list \<Rightarrow> u64 list" where "avx512_SubPd = map2 fp_sub"
definition avx512_MulPs :: "u32 list \<Rightarrow> u32 list \<Rightarrow> u32 list" where "avx512_MulPs = map2 fp_mul"
definition avx512_MulPd :: "u64 list \<Rightarrow> u64 list \<Rightarrow> u64 list" where "avx512_MulPd = map2 fp_mul"

definition avx512_ReduceAddPs :: "u32 list \<Rightarrow> u32" where "avx512_ReduceAddPs = reduce_tree fp_add"
definition avx512_ReduceAddPd :: "u64 list \<Rightarrow> u64" where "avx512_ReduceAddPd = reduce_tree fp_add"
definition avx512_ReduceMinPs :: "u32 list \<Rightarrow> u32" where "avx512_ReduceMinPs = reduce_tree min_ps"
definition avx512_ReduceMinPd :: "u64 list \<Rightarrow> u64" where "avx512_ReduceMinPd = reduce_tree min_ps"
definition avx512_ReduceMaxPs :: "u32 list \<Rightarrow> u32" where "avx512_ReduceMaxPs = reduce_tree max_ps"
definition avx512_ReduceMaxPd :: "u64 list \<Rightarrow> u64" where "avx512_ReduceMaxPd = reduce_tree max_ps"

text \<open>The remaining integer wrappers.\<close>

definition avx512_Blendv :: "u32 list \<Rightarrow> u32 list \<Rightarrow> u32 \<Rightarrow> u32 list" where
  "avx512_Blendv a b m = map (\<lambda>i. if bit m i then b ! i else a ! i) [0..<16]"

definition avx512_PermuteVar8x32 :: "u32 list \<Rightarrow> u32 list \<Rightarrow> u32 list" where
  "avx512_PermuteVar8x32 a idx = map (\<lambda>k. a ! unat (k AND 15)) idx"

definition avx512_Broadcast64 :: "u64 \<Rightarrow> u32 list" where
  "avx512_Broadcast64 v = lanes32 (replicate 8 v)"

definition avx512_MaskMove :: "u32 list \<Rightarrow> u32 \<Rightarrow> u32 list \<Rightarrow> u32 list" where
  "avx512_MaskMove a m b = map (\<lambda>i. if bit m i then b ! i else a ! i) [0..<16]"

section \<open>The level traits\<close>

text \<open>The operations of \<^verbatim>\<open>SimdOps\<close> every level has; SSE4.2 has no \<^verbatim>\<open>CmpLe\<close>. \<open>ops_width\<close> is in bytes, \<open>ops_bits\<close> is the
  number of mask bits of a 32-bit lane.\<close>

record SimdOps =
  ops_width :: nat
  ops_bits :: nat
  ops_Load :: "u32 list \<Rightarrow> u32 list res"
  ops_Store :: "u32 list \<Rightarrow> u32 list \<Rightarrow> u32 list res"
  ops_Set1 :: "u32 \<Rightarrow> u32 list"
  ops_Set1_64 :: "u64 \<Rightarrow> u32 list"
  ops_CmpEq :: "u32 list \<Rightarrow> u32 list \<Rightarrow> u32"
  ops_CmpLt :: "u32 list \<Rightarrow> u32 list \<Rightarrow> u32"
  ops_CmpLe :: "(u32 list \<Rightarrow> u32 list \<Rightarrow> u32) option"
  ops_Add :: "u32 list \<Rightarrow> u32 list \<Rightarrow> u32 list"
  ops_Sub :: "u32 list \<Rightarrow> u32 list \<Rightarrow> u32 list"
  ops_Mul :: "u32 list \<Rightarrow> u32 list \<Rightarrow> u32 list"
  ops_And :: "u32 list \<Rightarrow> u32 list \<Rightarrow> u32 list"
  ops_Or :: "u32 list \<Rightarrow> u32 list \<Rightarrow> u32 list"
  ops_Xor :: "u32 list \<Rightarrow> u32 list \<Rightarrow> u32 list"
  ops_Not :: "u32 list \<Rightarrow> u32 list"

text \<open>Those only the wide levels have: floating point, 64-bit lanes and the population count of a mask.\<close>

record WideOps = SimdOps +
  ops_Set1Ps :: "u32 \<Rightarrow> u32 list"
  ops_Set1Pd :: "u64 \<Rightarrow> u64 list"
  ops_Add64 :: "u32 list \<Rightarrow> u32 list \<Rightarrow> u32 list"
  ops_Sub64 :: "u32 list \<Rightarrow> u32 list \<Rightarrow> u32 list"
  ops_AddPs :: "u32 list \<Rightarrow> u32 list \<Rightarrow> u32 list"
  ops_AddPd :: "u64 list \<Rightarrow> u64 list \<Rightarrow> u64 list"
  ops_SubPs :: "u32 list \<Rightarrow> u32 list \<Rightarrow> u32 list"
  ops_SubPd :: "u64 list \<Rightarrow> u64 list \<Rightarrow> u64 list"
  ops_MulPs :: "u32 list \<Rightarrow> u32 list \<Rightarrow> u32 list"
  ops_MulPd :: "u64 list \<Rightarrow> u64 list \<Rightarrow> u64 list"
  ops_PopCount :: "u64 \<Rightarrow> nat"

definition xor_ones :: "nat \<Rightarrow> u32 list \<Rightarrow> u32 list" where
  "xor_ones n a = map2 (XOR) a (replicate n (- 1))"

definition SimdOps_AVX512VL :: WideOps where
  "SimdOps_AVX512VL = \<lparr>ops_width = 64, ops_bits = 1, ops_Load = load_reg 16, ops_Store = store_reg 16,
     ops_Set1 = replicate 16, ops_Set1_64 = \<lambda>v. lanes32 (replicate 8 v),
     ops_CmpEq = lane_mask (=), ops_CmpLt = lane_mask (<s), ops_CmpLe = Some (lane_mask (\<le>s)),
     ops_Add = map2 (+), ops_Sub = map2 (-), ops_Mul = map2 (*),
     ops_And = map2 (AND), ops_Or = map2 (OR), ops_Xor = map2 (XOR), ops_Not = xor_ones 16,
     ops_Set1Ps = replicate 16, ops_Set1Pd = replicate 8, ops_Add64 = lanewise64 (+), ops_Sub64 = lanewise64 (-),
     ops_AddPs = map2 fp_add, ops_AddPd = map2 fp_add, ops_SubPs = map2 fp_sub, ops_SubPd = map2 fp_sub,
     ops_MulPs = map2 fp_mul, ops_MulPd = map2 fp_mul, ops_PopCount = popcount\<rparr>"

text \<open>The comparisons and operations only this level has; a \<^verbatim>\<open>__mmask64\<close> is cut to the 16 lanes.\<close>

definition ops512_CmpEq64 :: "u32 list \<Rightarrow> u32 list \<Rightarrow> u32" where
  "ops512_CmpEq64 a b = lane_mask (=) (lanes64 a) (lanes64 b)"

definition ops512_CmpLt64 :: "u32 list \<Rightarrow> u32 list \<Rightarrow> u32" where
  "ops512_CmpLt64 a b = lane_mask (<s) (lanes64 a) (lanes64 b)"

definition ops512_CmpLe64 :: "u32 list \<Rightarrow> u32 list \<Rightarrow> u32" where
  "ops512_CmpLe64 a b = lane_mask (\<le>s) (lanes64 a) (lanes64 b)"

definition ops512_CmpFp :: "('a::len word \<Rightarrow> 'a word \<Rightarrow> bool) \<Rightarrow> 'a word list \<Rightarrow> 'a word list \<Rightarrow> u32" where
  "ops512_CmpFp = lane_mask"

definition ops512_Mul64 :: "u32 list \<Rightarrow> u32 list \<Rightarrow> u32 list" where
  "ops512_Mul64 = lanewise64 (*)"

definition ops512_Compress :: "u32 list \<Rightarrow> u64 \<Rightarrow> u32 list" where
  "ops512_Compress a m = avx512_Compress a (ucast m AND 0xFFFF)"

definition ops512_Expand :: "u32 list \<Rightarrow> u64 \<Rightarrow> u32 list" where
  "ops512_Expand a m = avx512_Expand a (ucast m AND 0xFFFF)"

definition ops512_LoadMasked :: "u32 list \<Rightarrow> u64 \<Rightarrow> u32 list res" where
  "ops512_LoadMasked src m = avx512_MaskzLoad src (ucast m AND 0xFFFF)"

definition ops512_StoreMasked :: "u32 list \<Rightarrow> u64 \<Rightarrow> u32 list \<Rightarrow> u32 list res" where
  "ops512_StoreMasked dst m v = avx512_MaskStore dst (ucast m AND 0xFFFF) v"

definition SimdOps_AVX2 :: WideOps where
  "SimdOps_AVX2 = \<lparr>ops_width = 32, ops_bits = 4, ops_Load = load_reg 8, ops_Store = store_reg 8,
     ops_Set1 = replicate 8, ops_Set1_64 = \<lambda>v. lanes32 (replicate 4 v),
     ops_CmpEq = avx2_compare (=), ops_CmpLt = avx2_compare (<s), ops_CmpLe = Some (avx2_compare (\<lambda>x y. 0 <s y - x)),
     ops_Add = map2 (+), ops_Sub = map2 (-), ops_Mul = map2 (*),
     ops_And = map2 (AND), ops_Or = map2 (OR), ops_Xor = map2 (XOR), ops_Not = xor_ones 8,
     ops_Set1Ps = replicate 8, ops_Set1Pd = replicate 4, ops_Add64 = lanewise64 (+), ops_Sub64 = lanewise64 (-),
     ops_AddPs = map2 fp_add, ops_AddPd = map2 fp_add, ops_SubPs = map2 fp_sub, ops_SubPd = map2 fp_sub,
     ops_MulPs = map2 fp_mul, ops_MulPd = map2 fp_mul,
     ops_PopCount = \<lambda>m. popcount (ucast m :: u32)\<rparr>"

text \<open>The floating-point comparisons of the AVX2 level return a register of all ones or zeros for each lane.\<close>

definition ops256_CmpEqFp :: "'a::len word list \<Rightarrow> 'a word list \<Rightarrow> 'a word list" where
  "ops256_CmpEqFp a b = map2 (\<lambda>x y. flag (fp_eq x y)) a b"

definition SimdOps_SSE42 :: SimdOps where
  "SimdOps_SSE42 = \<lparr>ops_width = 16, ops_bits = 4, ops_Load = load_reg 4, ops_Store = store_reg 4,
     ops_Set1 = replicate 4, ops_Set1_64 = \<lambda>v. lanes32 (replicate 2 v),
     ops_CmpEq = avx2_compare (=), ops_CmpLt = avx2_compare (<s), ops_CmpLe = None,
     ops_Add = map2 (+), ops_Sub = map2 (-), ops_Mul = map2 (*),
     ops_And = map2 (AND), ops_Or = map2 (OR), ops_Xor = map2 (XOR), ops_Not = xor_ones 4\<rparr>"

section \<open>Facts\<close>

text \<open>The features a level needs.\<close>

fun level_needs :: "CpuFeatures \<Rightarrow> SimdLevel \<Rightarrow> bool" where
  "level_needs f Scalar = True" | "level_needs f SSE2 = f_sse2 f" | "level_needs f SSE42 = f_sse42 f"
| "level_needs f AVX = f_avx f" | "level_needs f AVX2 = f_avx2 f" | "level_needs f AVX512F = f_avx512f f"
| "level_needs f AVX512BW = (f_avx512f f \<and> f_avx512bw f)"
| "level_needs f AVX512VL = (f_avx512f f \<and> f_avx512bw f \<and> f_avx512vl f)"

lemma lanes32_lanes64: "even (length v) \<Longrightarrow> lanes32 (lanes64 v) = v"
proof (induction v rule: lanes64.induct)
  case (1 lo hi v)
  have high: "\<not> bit lo (32 + n)" for n using bit_imp_le_length [of lo "32 + n"] by auto
  have "ucast (ucast lo OR push_bit 32 (ucast hi :: u64) :: u64) = lo"
    "ucast (drop_bit 32 (ucast lo OR push_bit 32 (ucast hi :: u64))) = hi"
    by (auto intro!: bit_word_eqI simp: bit_simps high)
  then show ?case using 1 by (simp add: lanes32_def)
qed (simp_all add: lanes32_def)

lemma lanes64_lanes32: "lanes64 (lanes32 ws) = ws"
proof (induction ws)
  case (Cons w ws)
  have "ucast (ucast w :: u32) OR push_bit 32 (ucast (ucast (drop_bit 32 w) :: u32)) = w"
    by (auto intro!: bit_word_eqI simp: bit_simps not_less)
  then show ?case using Cons by (simp add: lanes32_def)
qed (simp add: lanes32_def)

text \<open>Masks of whole bytes: four equal bits for a lane.\<close>

lemma bit_bool_mask: "k < 32 \<Longrightarrow> bit (horner_sum of_bool 2 bs :: u32) k \<longleftrightarrow> k < length bs \<and> bs ! k"
  by (simp add: bit_horner_sum_bit_word_iff)

lemma flag_bit: "k < LENGTH('a) \<Longrightarrow> bit (flag b :: 'a::len word) k = b"
  by (simp add: flag_def)

lemma avx2_compare_bools: "avx2_compare f a b = horner_sum of_bool 2 (concat (map2 (\<lambda>x y. replicate 4 (f x y)) a b))"
proof -
  have "(\<lambda>w. [bit w 7, bit w 15, bit w 23, bit w 31]) (flag (f x y) :: u32) = replicate 4 (f x y)" for x y
    by (simp add: flag_bit numeral_eq_Suc)
  then show ?thesis by (simp add: avx2_compare_def movemask_epi8_def comp_def case_prod_unfold)
qed

lemma nth_concat_replicate4: "k < 4 * length xs \<Longrightarrow> concat (map (\<lambda>x. replicate 4 (g x)) xs) ! k = g (xs ! (k div 4))"
proof (induction xs arbitrary: k)
  case (Cons x xs)
  show ?case
  proof (cases "k < 4")
    case False
    then have "k div 4 = Suc ((k - 4) div 4)" by (simp add: div_if)
    then show ?thesis using Cons.IH [of "k - 4"] Cons.prems False by (simp add: nth_append)
  qed (simp add: nth_append)
qed simp

lemma length_concat_replicate4: "length (concat (map (\<lambda>x. replicate 4 (g x)) xs)) = 4 * length xs"
  by (simp add: length_concat comp_def sum_list_triv)

lemma bit_avx2_compare:
  assumes "length a = n" and "length b = n" and "n \<le> 8" and "k < 4 * n"
  shows "bit (avx2_compare f a b) k \<longleftrightarrow> f (a ! (k div 4)) (b ! (k div 4))"
  using assms nth_concat_replicate4 [of k "zip a b" "\<lambda>(x, y). f x y"]
    length_concat_replicate4 [of "\<lambda>(x, y). f x y" "zip a b"]
  by (simp add: avx2_compare_bools bit_bool_mask case_prod_unfold less_mult_imp_div_less mult.commute)

lemma popcount_bools: "length bs \<le> 32 \<Longrightarrow> popcount (horner_sum of_bool 2 bs :: u32) = length (filter id bs)"
proof -
  assume len: "length bs \<le> 32"
  have "filter (bit (horner_sum of_bool 2 bs :: u32)) [0..<32] = filter (\<lambda>k. k < length bs \<and> bs ! k) [0..<32]"
    by (rule filter_cong) (simp_all add: bit_bool_mask)
  also have "\<dots> = filter (\<lambda>k. bs ! k) [0..<length bs]"
  proof -
    have "[0..<32] = [0..<length bs] @ [length bs..<32]" using len by (metis le_add_diff_inverse upt_add_eq_append zero_le)
    then have "filter (\<lambda>k. k < length bs \<and> bs ! k) [0..<32] =
        filter (\<lambda>k. k < length bs \<and> bs ! k) [0..<length bs] @ filter (\<lambda>k. k < length bs \<and> bs ! k) [length bs..<32]"
      by (simp only: filter_append)
    moreover have "filter (\<lambda>k. k < length bs \<and> bs ! k) [0..<length bs] = filter (\<lambda>k. bs ! k) [0..<length bs]"
      by (rule filter_cong) simp_all
    ultimately show ?thesis by simp
  qed
  finally have "popcount (horner_sum of_bool 2 bs :: u32) = length (filter (\<lambda>k. bs ! k) [0..<length bs])"
    by (simp add: popcount_def)
  also have "\<dots> = length (filter id (map (\<lambda>k. bs ! k) [0..<length bs]))" by (simp add: filter_map comp_def)
  also have "\<dots> = length (filter id bs)" by (simp only: map_nth)
  finally show ?thesis .
qed

lemma filter_replicate4: "length (filter id (concat (map (\<lambda>x. replicate 4 (g x)) xs))) = 4 * length (filter g xs)"
  by (induction xs) auto

lemma popcount_avx2_compare:
  assumes "length a \<le> 8" and "length b \<le> 8"
  shows "popcount (avx2_compare f a b) = 4 * length (filter (\<lambda>(x, y). f x y) (zip a b))"
  using assms popcount_bools [of "concat (map (\<lambda>p. replicate 4 (case p of (x, y) \<Rightarrow> f x y)) (zip a b))"]
    filter_replicate4 [of "\<lambda>(x, y). f x y" "zip a b"] length_concat_replicate4 [of "\<lambda>(x, y). f x y" "zip a b"]
  by (simp add: avx2_compare_bools case_prod_unfold)

lemma difference_positive:
  "in_srange TYPE('a::len) (sint y - sint x) \<Longrightarrow> (0 :: 'a word) <s y - x \<longleftrightarrow> sint x < sint y"
  using sint_sub_in_range [of y x] by (simp add: word_sless_alt)

text \<open>Prefix sums of a list, and those of four lanes.\<close>

definition prefix_sums :: "'a::monoid_add list \<Rightarrow> 'a list" where
  "prefix_sums xs = map (\<lambda>i. sum_list (take (Suc i) xs)) [0..<length xs]"

lemma prefix_sums_simps [simp]:
  "prefix_sums [] = []" "prefix_sums (x # xs) = x # map ((+) x) (prefix_sums xs)"
proof -
  have "[0..<length (x # xs)] = 0 # map Suc [0..<length xs]" by (simp add: map_Suc_upt upt_conv_Cons del: upt_Suc)
  then show "prefix_sums (x # xs) = x # map ((+) x) (prefix_sums xs)" by (simp add: prefix_sums_def del: upt_Suc)
qed (simp add: prefix_sums_def)

lemma eight_lanes:
  assumes "length v = 8"
  obtains a b c d e f g h where "v = [a, b, c, d, e, f, g, h]"
  using assms by (auto simp: eval_nat_numeral length_Suc_conv)

lemma slli_lanes:
  "slli_si256 [a, b, c, d, e, f, g, h] 4 = [0, a, b, c, 0, e, f, g]"
  "slli_si256 [a, b, c, d, e, f, g, h] 8 = [0, 0, a, b, 0, 0, e, f]"
  "slli_si256 [a, b, c, d, e, f, g, h] 16 = [0, 0, 0, 0, 0, 0, 0, 0]"
proof -
  have "replicate 2 (0 :: u32) = [0, 0]" "replicate 4 (0 :: u32) = [0, 0, 0, 0]"
    by (simp_all add: numeral_eq_Suc)
  then show "slli_si256 [a, b, c, d, e, f, g, h] 4 = [0, a, b, c, 0, e, f, g]"
    "slli_si256 [a, b, c, d, e, f, g, h] 8 = [0, 0, a, b, 0, 0, e, f]"
    "slli_si256 [a, b, c, d, e, f, g, h] 16 = [0, 0, 0, 0, 0, 0, 0, 0]"
    by (simp_all add: slli_si256_def)
qed

lemma upt_4: "[0..<4] = [0, 1, 2, 3]"
  by (simp add: upt_rec)

text \<open>The 64-bit lanes of a register's operation: those of the operands.\<close>

lemma lanewise64_lanes: "lanes64 (lanewise64 f a b) = map2 f (lanes64 a) (lanes64 b)"
  by (simp add: lanewise64_def lanes64_lanes32)

lemma ternary_xor: "ternary_bits 0x96 x y z = x XOR y XOR z"
proof (rule bit_word_eqI)
  fix k assume "k < LENGTH(32)"
  then have k: "k < 32" by simp
  have "bit (150 :: nat) (4 * of_bool p + 2 * of_bool q + of_bool r) \<longleftrightarrow> (p \<noteq> (q \<noteq> r))" for p q r
    by (cases p; cases q; cases r) (simp_all add: bit_numeral_rec bit_0)
  then show "bit (ternary_bits 0x96 x y z) k = bit (x XOR y XOR z) k"
    using k by (auto simp: ternary_bits_def bit_bool_mask bit_simps)
qed

lemma avx512_Not_correct:
  assumes "length a = 16"
  shows "avx512_Not a = map NOT a"
proof (rule nth_equalityI)
  fix i assume "i < length (avx512_Not a)"
  then show "avx512_Not a ! i = map NOT a ! i"
    using assms by (simp add: avx512_Not_def avx512_TernaryLogic_def ternary_xor)
qed (simp add: assms avx512_Not_def avx512_TernaryLogic_def)

text \<open>Expanding undoes compressing on the selected lanes.\<close>

lemma nth_filter_count: "P i \<Longrightarrow> i < n \<Longrightarrow> filter P [0..<n] ! length (filter P [0..<i]) = i"
proof -
  assume "P i" "i < n"
  then have "[0..<n] = [0..<i] @ i # [Suc i..<n]"
    by (metis append_Cons append_Nil le0 less_imp_le upt_add_eq_append upt_conv_Cons le_add_diff_inverse)
  then show ?thesis using \<open>P i\<close> by (simp add: nth_append)
qed

lemma count_below: "P i \<Longrightarrow> i < n \<Longrightarrow> length (filter P [0..<i]) < length (filter P [0..<n])"
proof -
  assume "P i" "i < n"
  then have "[0..<n] = [0..<i] @ i # [Suc i..<n]"
    by (metis append_Cons append_Nil le0 less_imp_le upt_add_eq_append upt_conv_Cons le_add_diff_inverse)
  then show ?thesis using \<open>P i\<close> by simp
qed

lemma expand_compress:
  "avx512_Expand (avx512_Compress a m) m = map (\<lambda>i. if bit m i then a ! i else 0) [0..<16]"
  using nth_filter_count [of "bit m" _ 16] count_below [of "bit m" _ 16]
  by (auto simp: avx512_Expand_def avx512_Compress_def Let_def nth_append)

text \<open>The conflict detections read memory that was never written.\<close>

lemma map_res_first_Inl:
  "(\<And>i. i \<in> set xs \<Longrightarrow> \<exists>r. f i = Inr r) \<Longrightarrow> f x = Inl e \<Longrightarrow> map_res f (xs @ x # ys) = Inl e"
proof (induction xs)
  case (Cons a xs)
  then obtain r where "f a = Inr r" by auto
  with Cons show ?case by simp
qed simp

lemma first_equal_defined:
  "i < length tmp \<Longrightarrow> set js \<subseteq> {..<length tmp} \<Longrightarrow> \<exists>r. first_equal tmp i js = Inr r"
  by (induction js) (auto simp: read_init_def)

lemma conflicts_undefined:
  assumes "0 < length tmp" and "length tmp < n"
  shows "conflicts n tmp = Inl Unmodelled"
proof -
  let ?k = "length tmp"
  let ?f = "\<lambda>i. bind_res (first_equal tmp i [0..<i]) (\<lambda>r. Inr (case r of None \<Rightarrow> 0 | Some j \<Rightarrow> push_bit j (1 :: 'a word)))"
  have "[0..<n] = [0..<?k] @ ?k # [Suc ?k..<n]"
    using assms(2) by (metis le0 less_imp_le upt_add_eq_append upt_conv_Cons le_add_diff_inverse)
  moreover have "\<exists>r. ?f i = Inr r" if "i \<in> set [0..<?k]" for i
  proof -
    have "set [0..<i] \<subseteq> {..<length tmp}" using that by auto
    with first_equal_defined [of i tmp "[0..<i]"] that obtain r where "first_equal tmp i [0..<i] = Inr r" by auto
    then show ?thesis by simp
  qed
  moreover have "?f ?k = Inl Unmodelled"
    using assms(1) by (simp add: upt_conv_Cons read_init_def)
  ultimately show ?thesis unfolding conflicts_def using map_res_first_Inl [of "[0..<?k]" ?f ?k] by simp
qed

lemma conflict_detection_undefined:
  "length a = 16 \<Longrightarrow> avx512_ConflictDetect a = Inl Unmodelled"
  by (simp add: avx512_ConflictDetect_def conflicts_undefined)

text \<open>The upper half of a register cannot be extracted.\<close>

lemma extract_upper_half: "8 \<le> idx \<Longrightarrow> avx512_ExtractInt a idx = Inl OutOfBounds"
  by (simp add: avx512_ExtractInt_def nth_res_def)

text \<open>The mask of the absolute value is not the sign mask: the absolute value of 1 is not 1.\<close>

lemma float_abs_wrong: "avx512_AbsPs [0x3F800000] = [0x0F000000]"
  by (simp add: avx512_AbsPs_def)

text \<open>The sums of a group of four lanes, in its first lane; the groups are never added up.\<close>

lemma reduce_add_groups:
  "avx512_ReduceAdd (a # b # c # d # v) ! 0 = a + b + c + d"
  by (simp add: avx512_ReduceAdd_def avx512_Add_def avx512_Shuffle_def shuffle_group_def upt_4 Let_def)

section \<open>The contract of a level\<close>

text \<open>What code generic in the level relies on: mask bits and lanes.\<close>

locale simd_level =
  fixes ops :: "'m SimdOps_scheme" and n :: nat
  assumes width: "ops_width ops = 4 * n"
    and bits: "0 < ops_bits ops"
    and eq_bit: "length a = n \<Longrightarrow> length b = n \<Longrightarrow> i < n \<Longrightarrow> j < ops_bits ops \<Longrightarrow>
      bit (ops_CmpEq ops a b) (ops_bits ops * i + j) \<longleftrightarrow> a ! i = b ! i"
    and lt_bit: "length a = n \<Longrightarrow> length b = n \<Longrightarrow> i < n \<Longrightarrow> j < ops_bits ops \<Longrightarrow>
      bit (ops_CmpLt ops a b) (ops_bits ops * i + j) \<longleftrightarrow> sint (a ! i) < sint (b ! i)"
    and store: "n \<le> length dst \<Longrightarrow> ops_Store ops dst v = Inr (v @ drop n dst)"
    and load: "n \<le> length src \<Longrightarrow> ops_Load ops src = Inr (take n src)"
    and not_lanes: "length a = n \<Longrightarrow> ops_Not ops a = map NOT a"
begin

lemma one_of_three:
  assumes "length a = n" and "length b = n" and "i < n" and "j < ops_bits ops"
  defines "k \<equiv> ops_bits ops * i + j"
  shows "\<not> bit (ops_CmpEq ops a b) k \<longleftrightarrow> bit (ops_CmpLt ops a b) k \<noteq> bit (ops_CmpLt ops b a) k"
  unfolding k_def eq_bit [OF assms(1-4)] lt_bit [OF assms(1-4)] lt_bit [OF assms(2,1,3,4)]
  by (metis less_asym linorder_less_linear order_less_irrefl signed_word_eqI)

lemma store_load: "length v = n \<Longrightarrow> n \<le> length dst \<Longrightarrow> \<exists>d. ops_Store ops dst v = Inr d \<and> ops_Load ops d = Inr v"
  by (simp add: store load)

lemma not_not: "length a = n \<Longrightarrow> ops_Not ops (ops_Not ops a) = a"
  by (simp add: not_lanes comp_def)

end

lemma xor_ones_lanes: "length a = n \<Longrightarrow> xor_ones n a = map NOT a"
  unfolding xor_ones_def by (intro nth_equalityI) simp_all

interpretation level_avx512: simd_level SimdOps_AVX512VL 16
  by unfold_locales (simp_all add: SimdOps_AVX512VL_def bit_lane_mask word_sless_alt load_reg_def store_reg_def
      xor_ones_lanes)

lemma nibble: "i < n \<Longrightarrow> j < 4 \<Longrightarrow> 4 * i + j < 4 * n \<and> (4 * i + j) div 4 = i" for i j n :: nat
  by simp

interpretation level_avx2: simd_level SimdOps_AVX2 8
  by unfold_locales (use bit_avx2_compare [where n = 8] nibble [where n = 8] in
      \<open>simp_all add: SimdOps_AVX2_def word_sless_alt load_reg_def store_reg_def xor_ones_lanes\<close>)

interpretation level_sse42: simd_level SimdOps_SSE42 4
  by unfold_locales (use bit_avx2_compare [where n = 4] nibble [where n = 4] in
      \<open>simp_all add: SimdOps_SSE42_def word_sless_alt load_reg_def store_reg_def xor_ones_lanes\<close>)

section \<open>Properties\<close>

text \<open>on a processor with leaf 1, the first call of \<^verbatim>\<open>GetBestSimdLevel\<close> returns and caches the highest level
  whose features the detection reports, so that code for the level may be used and none for a higher one;
  later calls return the cached level whatever the processor answers, unless it is \<^verbatim>\<open>Scalar\<close>.\<close>

lemma best_simd_level:
  assumes "cpuid 1 0 \<noteq> None"
  shows "\<exists>f l. DetectCpuFeatures cpuid = Inr f \<and> GetBestSimdLevel cpuid Scalar = Inr (l, l) \<and> level_needs f l \<and>
    (\<forall>l'. level_needs f l' \<longrightarrow> l' \<le> l) \<and> (l \<noteq> Scalar \<longrightarrow> GetBestSimdLevel cpuid' l = Inr (l, l))"
proof -
  obtain f where f: "DetectCpuFeatures cpuid = Inr f" using assms by (auto simp: DetectCpuFeatures_def Let_def)
  define l where "l = (if level_needs f AVX512VL then AVX512VL else if level_needs f AVX512BW then AVX512BW
    else if level_needs f AVX512F then AVX512F else if level_needs f AVX2 then AVX2 else if level_needs f AVX then AVX
    else if level_needs f SSE42 then SSE42 else if level_needs f SSE2 then SSE2 else Scalar)"
  have "GetBestSimdLevel cpuid Scalar = Inr (l, l)" by (auto simp: GetBestSimdLevel_def f l_def)
  moreover have "level_needs f l" by (simp add: l_def)
  moreover have "l' \<le> l" if "level_needs f l'" for l'
    using that by (cases l') (simp_all add: l_def less_eq_SimdLevel_def)
  ultimately show ?thesis using f by (auto simp: GetBestSimdLevel_def)
qed



text \<open>the AVX2 prefix sum sums each half of the register on its own, because its byte shifts do not cross
  128-bit groups: it is the prefix sum of the eight lanes exactly when the first four sum to zero.\<close>

lemma avx2_prefix_sum_halves:
  assumes "length v = 8"
  shows "avx2_PrefixSum v = prefix_sums (take 4 v) @ prefix_sums (drop 4 v) \<and>
    (avx2_PrefixSum v = prefix_sums v \<longleftrightarrow> sum_list (take 4 v) = 0)"
proof -
  obtain a b c d e f g h where v: "v = [a, b, c, d, e, f, g, h]" using eight_lanes [OF assms] .
  have "avx2_PrefixSum v = [a, a + b, a + b + c, a + b + c + d, e, e + f, e + f + g, e + f + g + h]"
    by (simp add: v avx2_PrefixSum_def avx2_Add_def slli_lanes Let_def ac_simps)
  moreover have "prefix_sums v = [a, a + b, a + b + c, a + b + c + d, a + b + c + d + e, a + b + c + d + e + f,
      a + b + c + d + e + f + g, a + b + c + d + e + f + g + h]"
    by (simp add: v add.assoc)
  moreover have "prefix_sums (take 4 v) = [a, a + b, a + b + c, a + b + c + d]"
    "prefix_sums (drop 4 v) = [e, e + f, e + f + g, e + f + g + h]" "sum_list (take 4 v) = a + b + c + d"
    by (simp_all add: v add.assoc)
  ultimately show ?thesis by (auto simp: add.assoc)
qed

end
