(* ===== verification/Spec2Isabelle.thy ===== *)
theory Spec2Isabelle
  imports PackedVectors Scanners Mergers SimdWrappers
begin

text \<open>
  A verification library for \<^verbatim>\<open>columnarstore\<close>, a C++20 library that keeps tables column by column: rows enter a
  write buffer, immutable segment files hold encoded columns with zone maps and Bloom filters, scanners
  evaluate predicates on segments with vectorised code, and a merger combines segments.

  \<^bold>\<open>Parts of the program and the theories that model them.\<close> All paths are under \<^verbatim>\<open>include/columnar\<close> unless said
  otherwise. Every method that changes state is one definition with the name of its class or of its
  method; a loop is a definition of its own, named after its method.

  \<^item> \<open>DataTypes\<close> (\<^verbatim>\<open>types.h\<close>): the enumerations, the column statistics and the coarse zone-map entry. \<open>cmp_holds\<close> is the
    meaning of a comparison, and the locale \<open>block_summary\<close> the contract of everything that may skip a block.
  \<^item> \<open>ByteBuffer\<close> (\<^verbatim>\<open>encoding::Buffer\<close>): the record \<open>Buffer\<close> of bytes and a size; \<open>contents\<close> is its abstract value, the
    locale \<open>byte_sink\<close> what encoders rely on, the locale \<open>codec\<close> what an encoder and a decoder promise together.
  \<^item> \<open>BasicCodecs\<close> (plain, run-length and delta codecs of \<^verbatim>\<open>encoding/encoding.h\<close>; \<^verbatim>\<open>rle.h\<close>), \<open>BitPacking\<close> and
    \<open>PackCodecs\<close> (bit packing and frame of reference), \<open>FloatCodecs\<close> (run lengths of floating-point columns),
    \<open>DictCodecs\<close> (dictionary codec; \<^verbatim>\<open>dictionary.h\<close>), \<open>PackedVectors\<close> (\<^verbatim>\<open>bitpack.h\<close>, \<^verbatim>\<open>for.h\<close>) and \<open>Codecs\<close> (the factories of \<^verbatim>\<open>encoding/encoding.h\<close> and \<^verbatim>\<open>encoding.h\<close>, the
    explicit instantiations, and the wrappers of \<^verbatim>\<open>src/encoding/zstd.cpp\<close>).
  \<^item> \<open>Floats\<close> and \<open>FloatArith\<close>: IEEE 754 comparison, conversion and arithmetic on bit patterns, as the code uses them.
  \<^item> \<open>ZoneMaps\<close> (\<^verbatim>\<open>zone_map.h\<close>) and \<open>BloomFilters\<close> (\<^verbatim>\<open>bloom_filter.h\<close>): building, querying and storing the two indexes.
  \<^item> \<open>Predicates\<close> (\<^verbatim>\<open>predicate.h\<close>): the bytecode builder, the stack interpreter as a step function on a machine
    state, and the two pruning tests.
  \<^item> \<open>OrderedMaps\<close> and \<open>DeltaStores\<close> (\<^verbatim>\<open>delta_store.h\<close>): the write buffer over \<^verbatim>\<open>std::map\<close>, the manager that rotates stores
    through flushing, and two step relations: \<open>mstep\<close> on the manager, \<open>dstep\<close> for threads that interleave at
    the column locks.
  \<^item> \<open>VectorKernels\<close>, \<open>ArithKernels\<close> and \<open>Columns\<close> (\<^verbatim>\<open>column/column.h\<close>): the vector traits in both builds, the kernels on
    integers and on floating point, column vectors, typed columns and the run-time column \<open>Column\<close>.
  \<^item> \<open>Segments\<close> (\<^verbatim>\<open>segment.h\<close>): writer, file layout, reader with its cache, segment handle. Files are byte lists, the
    header has the byte layout of the C++ object.
  \<^item> \<open>Scanners\<close> (\<^verbatim>\<open>scanner.h\<close>): block masks, the vectorised filter, the segment, parallel and aggregate scanners.
  \<^item> \<open>Mergers\<close> (\<^verbatim>\<open>merger.h\<close>): column and segment merge, and the worker pool as a transition system of worker program
    points, the queue, the stop flag and the notifications under way.
  \<^item> \<open>SimdWrappers\<close> (\<^verbatim>\<open>include/simd\<close>): feature detection, the wrappers of the intrinsics on lists of lanes and the
    operations of each vector level.
  \<^item> \<open>Prelude\<close>: the machine types, the result type, little-endian bytes and the facts every theory shares.

  \<^bold>\<open>How they interact.\<close> The writer encodes a column with the codec the factory of \<open>Codecs\<close> returns, into a \<open>Buffer\<close>;
  the reader decodes it into a \<open>Column\<close>. The scanner opens the indexes of a segment, asks \<open>ZoneMaps\<close> and
  \<open>BloomFilters\<close> whether a block can be skipped, filters the block with the kernels of \<open>Scanners\<close> or runs the
  interpreter of \<open>Predicates\<close> on each row, and calls back with runs of rows. The merger reads segments and
  finishes a writer. The property below composes the last two.

  \<^bold>\<open>Undefined behaviour and errors\<close> are values: a definition that can leave a vector, a buffer or a file, shift too
  far, overflow a signed integer, divide by zero or throw returns \<open>Inl\<close> of the kind, so a theorem with the result
  \<open>Inr\<close> says that none of it happens. Fixed-width integers are words of their width; sizes of objects in
  memory are \<open>nat\<close>. Both builds (AVX-512 and portable) are modelled where the code differs: a flag, a
  traits record or a vector width selects the build.

  \<^bold>\<open>What the groups of lemmas show.\<close>

  \<^item> Round trips: every codec through the factory, packed vectors, and whole segment files, indexes included; the
    domains (\<open>encodable_as\<close>, \<open>for_ok\<close>, \<open>spec_ok\<close> and the like) exclude exactly the inputs on which the code
    overflows or is known to lose data, and the losses are lemmas of their own.
  \<^item> Soundness of skipping: zone maps and Bloom filters, alone, in predicates and in the scanner, never skip a
    row that matches, under the conditions the code needs.
  \<^item> Scanning: exactly the matching rows are delivered, in order, whatever the build and the number of threads,
    except for expressions the fast path misreads (\<open>scannable\<close>) and columns without the Bloom filter a scan consults.
  \<^item> Vector code equals scalar code: filters, packed decoders, run-length decoding, integer and floating-point
    reductions; elementwise floating-point results are correctly rounded.
  \<^item> Concurrency: interleaved operations of the delta store keep its invariant; the worker pool loses no
    task, comes to rest, and stops unless a notification is lost, which a reachable state shows can happen.
  \<^item> Refinement: columns to lists of cells, Bloom filters to sets of positions, maps to association, the
    merger to appending tables.

  Deviations of the code from its intent are recorded as lemmas with concrete or general failures next to
  the component they concern.

  \<^bold>\<open>Termination.\<close> There is no fuel: loops are structural recursion or \<^theory_text>\<open>function\<close> with a measure (the elements or
  bits left); the width loops end because a shift by the width of the type is an error value. The
  block and column loops of scanner, writer and merger are folds over the index list. The worker pool
  is a relation, and a bound on its steps is proved, not assumed.

  \<^bold>\<open>Parameters.\<close> The ZSTD and LZ4 libraries, \<^verbatim>\<open>cpuid\<close>, \<^verbatim>\<open>std::pow\<close> are outside the repository and are arguments of the definitions that use them.

  \<^bold>\<open>Not modelled.\<close> Benchmarks, tests and the example are drivers without logic of the store. Explicit instantiations of
  class templates (\<^verbatim>\<open>src/*.cpp\<close> other than \<^verbatim>\<open>zstd.cpp\<close> and \<^verbatim>\<open>instantiations.cpp\<close>) have no code of their own.
  Capacities of vectors, wall-clock times, prefetches and fences have no effect on the values. The statistics
  callback of the background merger is stored and never called, and its thread only sleeps. Members
  no code reads (\<^verbatim>\<open>MergeStats\<close>, parts of \<^verbatim>\<open>ScanContext\<close>) are left out, as are accessors that only hand out a
  reference to a member. String columns exist in memory only: no codec supports them. Dictionary
  encoding of floating-point columns is left out, because it depends on the order \<^verbatim>\<open>std::sort\<close> gives to equal zeros and
  is undefined on NaN; delta, frame-of-reference and bit packing of floating-point values exist as compile-time
  specialisations only, which nothing requests. A NaN result of arithmetic is one canonical NaN.
\<close>

section \<open>Properties of the pipeline\<close>

text \<open>A segment a writer has finished can be scanned; here the segment is the handle the merger returns.\<close>

lemma finished_segment_scans:
  assumes "Finish_segment w = Inr s" and "writer_holds w cs" and "sw_zone_maps w = []" and "sw_bloom_filters w = []"
    and "length (file_of w) < 2 ^ 32" and "table_ok cs n" and "cs \<noteq> []" and "n + sc_block_size ctx \<le> 2 ^ 64"
    and "0 < sc_block_size ctx" and "sc_block_size ctx \<le> kScanBlockSize"
    and "\<not> sc_enable_zone_map_pruning ctx" and "\<not> sc_enable_bloom_filter ctx" and "scannable e cs"
  shows "\<exists>sc rs sc'. SegmentScanner_new s ctx = Inr sc \<and>
    SegmentScanner_Scan avx512 (build_postfix e Predicate_empty) sc = Inr (calls_for cs rs, sc') \<and>
    rows_of_runs rs = filter (\<lambda>r. eval_pexp (row_env cs r) e) [0..<n] \<and> run_sizes_ok rs"
proof -
  have ok: "writer_ok w" using assms(2) by (simp add: writer_holds_def)
  have idx: "\<forall>i < length cs. index_ok w i" using assms(3,4) by (simp add: index_ok_def)
  obtain s' sc where s': "Segment_Open (Some (fst (Writer_Finish w))) = Inr s'" "SegmentScanner_new s' ctx = Inr sc"
    and sc: "scanner_serves sc cs n" "sg_stats sc = ScanStats_zero" "sg_context sc = ctx"
    using scanner_of_file [OF assms(2,5) idx assms(6-10)] by blast
  have "s' = s" using s'(1) assms(1) Finish_segment_open [OF ok assms(5)] by simp
  moreover have "prunes_soundly (sg_context sc) (sg_column_scanners sc) p cs n Q" for p Q
    using assms(11,12) sc(3) by (intro prunes_soundly_disabled) simp_all
  ultimately show ?thesis
    using Scan_serves [OF sc(1) answers_postfix [OF assms(13)] sc(2)] s'(2) by blast
qed

text \<open>C3: merging segments and scanning the result is scanning the tables one after the other. Two or more inputs serve
  tables of plain or delta encoded integer columns of equal types, and the appended columns are again in the
  domain of their encoding, in a file below \<open>2 ^ 32\<close> bytes; the merged segment can then be scanned at once, and a scan with zone-map and
  Bloom-filter pruning switched off delivers, in order, exactly the rows of the appended tables on which a
  \<open>scannable\<close> expression holds, in both builds. Pruning has to be off: the merger stores no Bloom filters, and an
  equality scan that consults a missing filter delivers nothing.\<close>

theorem merge_then_scan:
  assumes "mt_input_segments task = segs" and "list_all2 holds_table segs (first # rest)"
    and "\<forall>cs \<in> set rest. map spec_type cs = map spec_type first"
    and "\<forall>c \<in> set (append_tables first rest). spec_ok c" and "mt_opened task"
    and "36 + length first * 136 + sum_list (map (length \<circ> spec_block) (append_tables first rest)) < 2 ^ 32"
    and "rest \<noteq> []" and "first \<noteq> []" and "merged_count first rest + sc_block_size ctx \<le> 2 ^ 64"
    and "0 < sc_block_size ctx" and "sc_block_size ctx \<le> kScanBlockSize"
    and "\<not> sc_enable_zone_map_pruning ctx" and "\<not> sc_enable_bloom_filter ctx"
    and "scannable e (append_tables first rest)"
  shows "\<exists>s sc rs sc'. ExecuteMerge task = Inr s \<and> SegmentScanner_new s ctx = Inr sc \<and>
    SegmentScanner_Scan avx512 (build_postfix e Predicate_empty) sc = Inr (calls_for (append_tables first rest) rs, sc') \<and>
    rows_of_runs rs = filter (\<lambda>r. eval_pexp (row_env (append_tables first rest) r) e) [0..<merged_count first rest] \<and>
    run_sizes_ok rs"
proof -
  let ?t = "append_tables first rest"
  obtain w s where w: "ExecuteMerge task = Inr s" "Finish_segment w = Inr s" "writer_holds w ?t"
    "sw_zone_maps w = []" "sw_bloom_filters w = []"
    using merge_writes [OF assms(1-7)] by blast
  have len: "length ?t = length first" by (simp add: append_tables_def)
  have "length (file_of w) < 2 ^ 32" using file_size_specs [OF w(3-5)] assms(6) len by simp
  moreover have "table_ok ?t (merged_count first rest)"
    using merged_rows_each [OF assms(2,3)] assms(4) by (simp add: table_ok_def)
  moreover have "?t \<noteq> []" using assms(8) by (simp add: append_tables_def)
  ultimately show ?thesis
    using finished_segment_scans [OF w(2-5) _ _ _ assms(9-14)] w(1) by blast
qed

theorem merge_then_scan_witness:
  "\<exists>s task sc rs sc'. ExecuteMerge task = Inr s \<and>
    SegmentScanner_new s (ScanContext_default\<lparr>sc_enable_zone_map_pruning := False, sc_enable_bloom_filter := False\<rparr>) = Inr sc \<and>
    SegmentScanner_Scan True (build_postfix (PGt 0 4) Predicate_empty) sc = Inr (calls_for [Spec32 Plain [4, 5, 6]] rs, sc') \<and>
    rows_of_runs rs = [1, 2]"
proof -
  let ?a = "[Spec32 Plain [4, 5]]" and ?b = "[Spec32 Plain [6]]" and ?e = "PGt 0 4"
  let ?ctx = "ScanContext_default\<lparr>sc_enable_zone_map_pruning := False, sc_enable_bloom_filter := False\<rparr>"
  obtain s1 where s1: "holds_table s1 ?a" using table_segment [of "Spec32 Plain [4, 5]"] by (auto simp: fixed_width_def)
  obtain s2 where s2: "holds_table s2 ?b" using table_segment [of "Spec32 Plain [6]"] by (auto simp: fixed_width_def)
  have t: "append_tables ?a [?b] = [Spec32 Plain [4, 5, 6]]" by (simp add: append_tables_def)
  have n: "merged_count ?a [?b] = 3" by (simp add: merged_count_def)
  let ?task = "\<lparr>mt_input_segments = [s1, s2], mt_delta_store = None, mt_opened = True, mt_min_timestamp = 0,
    mt_max_timestamp = 9\<rparr>"
  have sc: "scannable ?e [Spec32 Plain [4, 5, 6]]" by (simp add: scannable_def in_srange_def)
  have ctx: "0 < sc_block_size ?ctx" "sc_block_size ?ctx \<le> kScanBlockSize" "3 + sc_block_size ?ctx \<le> 2 ^ 64"
    "\<not> sc_enable_zone_map_pruning ?ctx" "\<not> sc_enable_bloom_filter ?ctx"
    by (simp_all add: ScanContext_default_def kScanBlockSize_def)
  have "\<exists>s sc rs sc'. ExecuteMerge ?task = Inr s \<and> SegmentScanner_new s ?ctx = Inr sc \<and>
    SegmentScanner_Scan True (build_postfix ?e Predicate_empty) sc = Inr (calls_for (append_tables ?a [?b]) rs, sc') \<and>
    rows_of_runs rs = filter (\<lambda>r. eval_pexp (row_env (append_tables ?a [?b]) r) ?e) [0..<merged_count ?a [?b]] \<and>
    run_sizes_ok rs"
    by (rule merge_then_scan [of ?task "[s1, s2]" ?a "[?b]" ?ctx ?e True])
      (use s1 s2 ctx sc in \<open>simp_all add: t n fixed_width_def\<close>)
  moreover have "filter (\<lambda>r. eval_pexp (row_env [Spec32 Plain [4, 5, 6]] r) ?e) [0..<3] = [1, 2]"
    by (simp add: row_env_def upt_rec)
  ultimately show ?thesis unfolding t n by metis
qed

end
